(* ===== verification/Omni_Prelude.thy ===== *)
theory Omni_Prelude
  imports Main "HOL-Library.Word" "HOL-Library.List_Lexorder"
begin

text \<open>
  Shared vocabulary of the OmniKV development: the machine integers and byte strings of the
  Rust sources, the error type of \<^verbatim>\<open>storage/core.rs\<close>, little-endian integers as
  \<^verbatim>\<open>to_le_bytes\<close> and \<^verbatim>\<open>from_le_bytes\<close> lay them out, and the generic facts about
  lists and optional values the components share.

  Conventions. A \<^verbatim>\<open>u8\<close>, \<^verbatim>\<open>u32\<close> or \<^verbatim>\<open>u64\<close> is a word of that width.
  A \<^verbatim>\<open>usize\<close> that indexes or measures a buffer is a natural number. A Rust
  \<^verbatim>\<open>String\<close> is the list of its UTF-8 bytes. A fallible operation returns a sum: the left
  summand is the failure, the right one the result. Byte strings are compared as Rust compares
  \<^verbatim>\<open>Vec<u8>\<close>, lexicographically (\<^verbatim>\<open>HOL-Library.List_Lexorder\<close>).
\<close>

type_synonym u8 = "8 word"
type_synonym u16 = "16 word"
type_synonym u32 = "32 word"
type_synonym u64 = "64 word"
type_synonym bytes = "u8 list"

named_theorems codec_simps \<open>facts that evaluate encoders and decoders on encoded input\<close>
named_theorems length_simps \<open>lengths of encoded values\<close>

section \<open>Errors\<close>

text \<open>The error enum of the engine, and a failure of a model function: a returned error, or a
  panic of the Rust code at that point.\<close>

datatype OmniError =
    IoError string
  | DatabaseAlreadyOpen string
  | BatchTooLarge nat
  | ValueTooLarge nat
  | KeyNotFound
  | HashCollision
  | LockPoisoned string
  | WriteStall
  | InvalidCompactionPolicy string
  | NotLeader "u64 option"
  | UnsupportedVersion u32 u32

datatype fault = Err OmniError | Panic

type_synonym 'a result = "fault + 'a"

text \<open>Decimal formatting, and an error as text (\<^verbatim>\<open>Display\<close> of the error enum): its own sentence
  for the errors a client sees, and the derived debug form for the others.\<close>

fun dec :: "nat \<Rightarrow> bytes" where
  "dec n = (if n < 10 then [48 + word_of_nat n] else dec (n div 10) @ [48 + word_of_nat (n mod 10)])"

declare dec.simps [simp del]

definition dec_string :: "nat \<Rightarrow> string" where
  "dec_string n = map (\<lambda>b. char_of (unat b)) (dec n)"

definition debug_char :: "char \<Rightarrow> string" where
  "debug_char c =
     (if c = CHR 0x22 then [CHR 0x5C, CHR 0x22] else if c = CHR 0x5C then [CHR 0x5C, CHR 0x5C]
      else if c = CHR 0x09 then [CHR 0x5C, CHR ''t''] else if c = CHR 0x0D then [CHR 0x5C, CHR ''r'']
      else if c = CHR 0x0A then [CHR 0x5C, CHR ''n''] else [c])"

definition debug_string :: "string \<Rightarrow> string" where
  "debug_string s = [CHR 0x22] @ concat (map debug_char s) @ [CHR 0x22]"

fun display_error :: "OmniError \<Rightarrow> string" where
  "display_error (DatabaseAlreadyOpen p) = ''database is already open: lock file '' @ p"
| "display_error (UnsupportedVersion found supported) = ''unsupported manifest version '' @ dec_string (unat found) @
     '': this build supports up to '' @ dec_string (unat supported)"
| "display_error (InvalidCompactionPolicy r) = ''invalid compaction policy: '' @ r"
| "display_error (NotLeader (Some i)) = ''not the leader; the leader is node '' @ dec_string (unat i)"
| "display_error (NotLeader None) = ''not the leader; no leader elected yet''"
| "display_error (IoError m) = ''IoError('' @ debug_string m @ '')''"
| "display_error (BatchTooLarge n) = ''BatchTooLarge('' @ dec_string n @ '')''"
| "display_error (ValueTooLarge n) = ''ValueTooLarge('' @ dec_string n @ '')''"
| "display_error KeyNotFound = ''KeyNotFound''"
| "display_error HashCollision = ''HashCollision''"
| "display_error (LockPoisoned m) = ''LockPoisoned('' @ debug_string m @ '')''"
| "display_error WriteStall = ''WriteStall''"

definition err_string :: "fault \<Rightarrow> string" where
  "err_string f = (case f of Err e \<Rightarrow> display_error e | Panic \<Rightarrow> [])"

definition bind_res :: "'a result \<Rightarrow> ('a \<Rightarrow> 'b result) \<Rightarrow> 'b result" where
  "bind_res m f = (case m of Inl e \<Rightarrow> Inl e | Inr x \<Rightarrow> f x)"

lemma bind_res_simps [simp]:
  "bind_res (Inl e) f = Inl e"
  "bind_res (Inr x) f = f x"
  by (simp_all add: bind_res_def)

lemma bind_res_Inr_iff: "bind_res m f = Inr y \<longleftrightarrow> (\<exists>x. m = Inr x \<and> f x = Inr y)"
  by (cases m) auto

text \<open>The bytes of an ASCII string literal.\<close>

definition str :: "string \<Rightarrow> bytes" where
  "str s = map of_char s"

lemma str_simps [simp]: "str [] = []" "str (c # s) = of_char c # str s" "length (str s) = length s"
  by (simp_all add: str_def)

section \<open>Little-endian integers\<close>

text \<open>The first \<open>n\<close> little-endian bytes of a number, and the number a byte string denotes.\<close>

fun le_enc :: "nat \<Rightarrow> nat \<Rightarrow> bytes" where
  "le_enc 0 v = []"
| "le_enc (Suc n) v = word_of_nat (v mod 256) # le_enc n (v div 256)"

fun le_dec :: "bytes \<Rightarrow> nat" where
  "le_dec [] = 0"
| "le_dec (b # bs) = unat b + 256 * le_dec bs"

definition u16_le :: "u16 \<Rightarrow> bytes" where "u16_le w = le_enc 2 (unat w)"
definition u32_le :: "u32 \<Rightarrow> bytes" where "u32_le w = le_enc 4 (unat w)"
definition u64_le :: "u64 \<Rightarrow> bytes" where "u64_le w = le_enc 8 (unat w)"

definition le_u16 :: "bytes \<Rightarrow> u16" where "le_u16 bs = word_of_nat (le_dec bs)"
definition le_u32 :: "bytes \<Rightarrow> u32" where "le_u32 bs = word_of_nat (le_dec bs)"
definition le_u64 :: "bytes \<Rightarrow> u64" where "le_u64 bs = word_of_nat (le_dec bs)"

text \<open>The slice \<^verbatim>\<open>buf[i..j]\<close>; every use in the sources is guarded by a length check.\<close>

definition slice :: "nat \<Rightarrow> nat \<Rightarrow> 'a list \<Rightarrow> 'a list" where
  "slice i j xs = take (j - i) (drop i xs)"

text \<open>Writing at a position of a file: a gap past the end is filled with zeros, as
  \<^verbatim>\<open>pwrite\<close> and \<^verbatim>\<open>set_len\<close> do.\<close>

definition write_at :: "nat \<Rightarrow> bytes \<Rightarrow> bytes \<Rightarrow> bytes" where
  "write_at pos data f =
     take pos f @ replicate (pos - length f) 0 @ data @ drop (pos + length data) f"

definition set_len :: "nat \<Rightarrow> bytes \<Rightarrow> bytes" where
  "set_len n f = take n f @ replicate (n - length f) 0"

lemma length_le_enc [simp, length_simps]: "length (le_enc n v) = n"
  by (induction n arbitrary: v) auto

lemma unat_bound: "unat (w :: 'a::len word) < 2 ^ LENGTH('a)"
  by (rule unsigned_less)

lemma unat_u8_of_nat: "unat (word_of_nat n :: u8) = n mod 256"
  by (simp add: unat_of_nat)

lemma le_dec_le_enc: "le_dec (le_enc n v) = v mod 256 ^ n"
proof (induction n arbitrary: v)
  case 0
  then show ?case by simp
next
  case (Suc n)
  have "v mod (256 * 256 ^ n) = 256 * (v div 256 mod 256 ^ n) + v mod 256"
    by (rule mod_mult2_eq)
  with Suc show ?case by (simp add: unat_u8_of_nat)
qed

lemma le_dec_less: "le_dec bs < 256 ^ length bs"
proof (induction bs)
  case Nil
  then show ?case by simp
next
  case (Cons b bs)
  have "unat b < 256" using unat_bound [of b] by simp
  with Cons show ?case by simp
qed

lemma le_enc_le_dec: "length bs = n \<Longrightarrow> le_enc n (le_dec bs) = bs"
proof (induction bs arbitrary: n)
  case Nil
  then show ?case by simp
next
  case (Cons b bs)
  have "unat b < 256" using unat_bound [of b] by simp
  with Cons show ?case by auto
qed

lemma length_ints [simp, length_simps]:
  "length (u16_le a) = 2" "length (u32_le b) = 4" "length (u64_le c) = 8"
  by (simp_all add: u16_le_def u32_le_def u64_le_def)

lemma le_roundtrip [simp, codec_simps]:
  "le_u16 (u16_le a) = a" "le_u32 (u32_le b) = b" "le_u64 (u64_le c) = c"
  using unat_bound [of a] unat_bound [of b] unat_bound [of c]
  by (simp_all add: le_u16_def u16_le_def le_u32_def u32_le_def le_u64_def u64_le_def le_dec_le_enc)

lemma le_roundtrip_inv:
  "length bs = 2 \<Longrightarrow> u16_le (le_u16 bs) = bs"
  "length cs = 4 \<Longrightarrow> u32_le (le_u32 cs) = cs"
  "length ds = 8 \<Longrightarrow> u64_le (le_u64 ds) = ds"
  using le_dec_less [of bs] le_dec_less [of cs] le_dec_less [of ds]
  by (simp_all add: le_u16_def u16_le_def le_u32_def u32_le_def le_u64_def u64_le_def
      unat_of_nat le_enc_le_dec)

section \<open>Lists\<close>

lemma write_at_end [simp]: "write_at (length f) data f = f @ data"
  by (simp add: write_at_def)

lemma set_len_prefix [simp]: "n \<le> length f \<Longrightarrow> set_len n f = take n f"
  by (simp add: set_len_def)

lemma length_slice [simp]: "length (slice i j xs) = min (j - i) (length xs - i)"
  by (simp add: slice_def)

lemma slice_append_left:
  "j \<le> length xs \<Longrightarrow> slice i j (xs @ ys) = slice i j xs"
  by (simp add: slice_def)

lemma slice_append_right:
  "length xs \<le> i \<Longrightarrow> slice i j (xs @ ys) = slice (i - length xs) (j - length xs) ys"
  by (simp add: slice_def)

lemma slice_split: "i \<le> j \<Longrightarrow> drop i xs = slice i j xs @ drop j xs"
  by (metis append_take_drop_id drop_drop le_add_diff_inverse2 slice_def)

lemma slice_all: "length xs = j \<Longrightarrow> slice 0 j xs = xs"
  by (simp add: slice_def)

end
