(* ===== verification/Omni_Record.thy ===== *)
theory Omni_Record
  imports Omni_Prelude
begin

text \<open>
  The self-describing record of \<^verbatim>\<open>storage/core.rs\<close> (\<^verbatim>\<open>OmniRecord\<close>): what the
  write-ahead log and the sorted tables store for one version of one key. The checksum
  function of the \<^verbatim>\<open>crc32fast\<close> crate is the argument \<open>crc\<close> of every definition that
  uses it; feeding a hasher piecewise is checksumming the concatenation of the pieces.

  The lemmas show that decoding inverts encoding for keys that fit the 16-bit length field,
  that whatever decodes is the canonical encoding of a record with a matching checksum, and
  that a truncated encoding never decodes.
\<close>

section \<open>The record and its codec\<close>

record OmniRecord =
  seq :: u64
  key :: bytes
  offset :: u64
  rlength :: u64
  crc32 :: u32
  payload_crc32 :: u32
  expiry :: u64

text \<open>The bytes \<^verbatim>\<open>compute_crc\<close> feeds to the hasher; \<^verbatim>\<open>encode\<close> writes the same fields.\<close>

definition crc_input :: "OmniRecord \<Rightarrow> bytes" where
  "crc_input r = u64_le (seq r) @ u16_le (word_of_nat (length (key r))) @ key r @
     u64_le (offset r) @ u64_le (rlength r) @ u32_le (payload_crc32 r) @ u64_le (expiry r)"

definition compute_crc :: "(bytes \<Rightarrow> u32) \<Rightarrow> OmniRecord \<Rightarrow> u32" where
  "compute_crc crc r = crc (crc_input r)"

definition record_new ::
  "(bytes \<Rightarrow> u32) \<Rightarrow> u64 \<Rightarrow> bytes \<Rightarrow> u64 \<Rightarrow> u64 \<Rightarrow> u32 \<Rightarrow> u64 \<Rightarrow> OmniRecord" where
  "record_new crc s k off len pcrc ex =
     (let r = \<lparr>seq = s, key = k, offset = off, rlength = len, crc32 = 0,
               payload_crc32 = pcrc, expiry = ex\<rparr>
      in r\<lparr>crc32 := compute_crc crc r\<rparr>)"

definition is_valid :: "(bytes \<Rightarrow> u32) \<Rightarrow> OmniRecord \<Rightarrow> bool" where
  "is_valid crc r \<longleftrightarrow> crc32 r = compute_crc crc r"

definition encode :: "OmniRecord \<Rightarrow> bytes" where
  "encode r = crc_input r @ u32_le (crc32 r)"

definition decode :: "(bytes \<Rightarrow> u32) \<Rightarrow> bytes \<Rightarrow> (OmniRecord \<times> nat) option" where
  "decode crc buf =
     (if length buf < 42 then None
      else let key_len = unat (le_u16 (slice 8 10 buf)) in
        if length buf < 42 + key_len then None
        else let off = 10 + key_len;
                 r = \<lparr>seq = le_u64 (slice 0 8 buf), key = slice 10 (10 + key_len) buf,
                      offset = le_u64 (slice off (off + 8) buf),
                      rlength = le_u64 (slice (off + 8) (off + 16) buf),
                      crc32 = le_u32 (slice (off + 28) (off + 32) buf),
                      payload_crc32 = le_u32 (slice (off + 16) (off + 20) buf),
                      expiry = le_u64 (slice (off + 20) (off + 28) buf)\<rparr>
             in if \<not> is_valid crc r then None else Some (r, 42 + key_len))"

text \<open>Records whose key fits the 16-bit length field and whose checksum matches.\<close>

definition storable :: "(bytes \<Rightarrow> u32) \<Rightarrow> OmniRecord \<Rightarrow> bool" where
  "storable crc r \<longleftrightarrow> length (key r) < 65536 \<and> is_valid crc r"

section \<open>Lengths and field access\<close>

lemma length_crc_input [simp, length_simps]: "length (crc_input r) = 38 + length (key r)"
  by (simp add: crc_input_def)

lemma length_encode [simp, length_simps]: "length (encode r) = 42 + length (key r)"
  by (simp add: encode_def)

lemma record_new_fields [simp]:
  "seq (record_new crc s k off len pc ex) = s"
  "key (record_new crc s k off len pc ex) = k"
  "offset (record_new crc s k off len pc ex) = off"
  "rlength (record_new crc s k off len pc ex) = len"
  "payload_crc32 (record_new crc s k off len pc ex) = pc"
  "expiry (record_new crc s k off len pc ex) = ex"
  by (simp_all add: record_new_def Let_def)

lemma record_new_valid [simp]: "is_valid crc (record_new crc s k off len pc ex)"
  by (simp add: record_new_def is_valid_def compute_crc_def crc_input_def Let_def)

lemma storable_new [simp]:
  "storable crc (record_new crc s k off len pc ex) \<longleftrightarrow> length k < 65536"
  by (simp add: storable_def)

lemma record_new_of_valid:
  "is_valid crc r \<Longrightarrow>
     record_new crc (seq r) (key r) (offset r) (rlength r) (payload_crc32 r) (expiry r) = r"
  by (simp add: record_new_def is_valid_def compute_crc_def crc_input_def Let_def)

section \<open>Decoding inverts encoding\<close>

lemma decode_encode [simp, codec_simps]:
  assumes "storable crc r"
  shows "decode crc (encode r @ rest) = Some (r, 42 + length (key r))"
proof -
  let ?buf = "encode r @ rest"
  have k: "length (key r) < 65536" and v: "is_valid crc r"
    using assms by (simp_all add: storable_def)
  have kl: "unat (le_u16 (slice 8 10 ?buf)) = length (key r)"
    using k by (simp add: encode_def crc_input_def slice_def take_bit_eq_mod unat_of_nat)
  show ?thesis
    using v unfolding decode_def
    by (simp add: kl Let_def) (cases r, simp add: encode_def crc_input_def slice_def)
qed

text \<open>A buffer that is long enough is the concatenation of its fields and what follows.\<close>

lemma buffer_fields:
  fixes kl :: nat
  assumes "42 + kl \<le> length buf"
  defines "off \<equiv> 10 + kl"
  shows "buf = slice 0 8 buf @ slice 8 10 buf @ slice 10 (10 + kl) buf @
     slice off (off + 8) buf @ slice (off + 8) (off + 16) buf @ slice (off + 16) (off + 20) buf @
     slice (off + 20) (off + 28) buf @ slice (off + 28) (off + 32) buf @ drop (42 + kl) buf"
proof -
  have "buf = drop 0 buf" by simp
  also have "\<dots> = slice 0 8 buf @ drop 8 buf" by (rule slice_split) simp
  also have "drop 8 buf = slice 8 10 buf @ drop 10 buf" by (rule slice_split) simp
  also have "drop 10 buf = slice 10 (10 + kl) buf @ drop off buf"
    unfolding off_def by (rule slice_split) simp
  also have "drop off buf = slice off (off + 8) buf @ drop (off + 8) buf"
    by (rule slice_split) simp
  also have "drop (off + 8) buf = slice (off + 8) (off + 16) buf @ drop (off + 16) buf"
    by (rule slice_split) simp
  also have "drop (off + 16) buf = slice (off + 16) (off + 20) buf @ drop (off + 20) buf"
    by (rule slice_split) simp
  also have "drop (off + 20) buf = slice (off + 20) (off + 28) buf @ drop (off + 28) buf"
    by (rule slice_split) simp
  also have "drop (off + 28) buf = slice (off + 28) (off + 32) buf @ drop (off + 32) buf"
    by (rule slice_split) simp
  finally show ?thesis by (simp add: off_def)
qed

lemma decode_SomeD:
  assumes "decode crc buf = Some (r, n)"
  shows "storable crc r \<and> n = 42 + length (key r) \<and> buf = encode r @ drop n buf"
proof -
  define kl where "kl = unat (le_u16 (slice 8 10 buf))"
  define off where "off = 10 + kl"
  have len: "42 + kl \<le> length buf"
    and r: "r = \<lparr>seq = le_u64 (slice 0 8 buf), key = slice 10 (10 + kl) buf,
                 offset = le_u64 (slice off (off + 8) buf),
                 rlength = le_u64 (slice (off + 8) (off + 16) buf),
                 crc32 = le_u32 (slice (off + 28) (off + 32) buf),
                 payload_crc32 = le_u32 (slice (off + 16) (off + 20) buf),
                 expiry = le_u64 (slice (off + 20) (off + 28) buf)\<rparr>"
    and n: "n = 42 + kl" and v: "is_valid crc r"
    using assms unfolding decode_def off_def kl_def by (auto simp: Let_def split: if_splits)
  have kl: "length (key r) = kl" using len by (simp add: r)
  have small: "kl < 65536" unfolding kl_def using unat_bound [of "le_u16 (slice 8 10 buf)"] by simp
  have klw: "word_of_nat kl = le_u16 (slice 8 10 buf)" by (simp add: kl_def)
  have "encode r @ drop n buf = slice 0 8 buf @ slice 8 10 buf @ slice 10 (10 + kl) buf @
     slice off (off + 8) buf @ slice (off + 8) (off + 16) buf @ slice (off + 16) (off + 20) buf @
     slice (off + 20) (off + 28) buf @ slice (off + 28) (off + 32) buf @ drop (42 + kl) buf"
    unfolding encode_def crc_input_def kl using len
    by (simp add: r klw n off_def le_roundtrip_inv)
  also have "\<dots> = buf"
    unfolding off_def by (rule buffer_fields [OF len, symmetric])
  finally have "encode r @ drop n buf = buf" .
  then show ?thesis using v small kl n by (simp add: storable_def)
qed

text \<open>A proper prefix of an encoding never decodes: the length field asks for more bytes.\<close>

lemma decode_truncated:
  assumes "length (key r) < 65536" and "n < length (encode r)"
  shows "decode crc (take n (encode r)) = None"
proof (cases "n < 42")
  case False
  have "slice 8 10 (take n (encode r)) = u16_le (word_of_nat (length (key r)))"
    using False by (simp add: encode_def crc_input_def slice_def)
  then have "unat (le_u16 (slice 8 10 (take n (encode r)))) = length (key r)"
    using assms(1) by (simp add: unat_of_nat)
  then show ?thesis using assms(2) by (simp add: decode_def Let_def)
qed (simp add: decode_def)

section \<open>Properties\<close>

text \<open>C7. The record codec is exact. A buffer decodes to a record and a length precisely when
  it starts with the encoding of that record, the record's checksum matches its fields and
  its key is shorter than 65536 bytes; the length is that of the encoding. So decoding
  inverts encoding whatever follows in the buffer, and no byte string has two readings.\<close>

theorem record_codec_exact:
  "decode crc buf = Some (r, n) \<longleftrightarrow>
     is_valid crc r \<and> length (key r) < 65536 \<and> n = length (encode r) \<and> (\<exists>rest. buf = encode r @ rest)"
proof
  assume "decode crc buf = Some (r, n)"
  then show "is_valid crc r \<and> length (key r) < 65536 \<and> n = length (encode r) \<and> (\<exists>rest. buf = encode r @ rest)"
    using decode_SomeD by (fastforce simp: storable_def)
qed (auto simp: storable_def)

end
