(* ===== verification/Ordered_Map.thy ===== *)
theory Ordered_Map
  imports Omni_Prelude "HOL-Library.Product_Lexorder"
begin

text \<open>
  The ordered maps of the sources: \<^verbatim>\<open>std::collections::BTreeMap\<close> and the concurrent
  \<^verbatim>\<open>SkipMap\<close> of the memtable, both used only as finite maps that iterate in key order. A map
  is the list of its entries, strictly increasing in the key; \<open>om_insert\<close> replaces the
  entry of an equal key. \<^verbatim>\<open>std::cmp::Reverse\<close>, which orders the versions of a key newest
  first in the memtable, is a type of its own with the reversed order.

  The interface is the locale \<open>ordered_map\<close>; the association lists interpret it.
\<close>

section \<open>Reversed order\<close>

datatype 'a reverse = Reverse (unrev: 'a)

instantiation reverse :: (linorder) linorder
begin

definition less_eq_reverse_def: "a \<le> b \<longleftrightarrow> unrev b \<le> unrev a"

definition less_reverse_def: "a < b \<longleftrightarrow> unrev b < unrev a"

instance
  by standard (auto simp: less_eq_reverse_def less_reverse_def reverse.expand)

end

lemma reverse_less_simps [simp]:
  "Reverse a \<le> Reverse b \<longleftrightarrow> b \<le> a" "Reverse a < Reverse b \<longleftrightarrow> b < a"
  by (simp_all add: less_eq_reverse_def less_reverse_def)

section \<open>Entries in key order\<close>

type_synonym ('k, 'v) omap = "('k \<times> 'v) list"

fun om_insert :: "'k::linorder \<Rightarrow> 'v \<Rightarrow> ('k, 'v) omap \<Rightarrow> ('k, 'v) omap" where
  "om_insert k v [] = [(k, v)]"
| "om_insert k v ((a, b) # m) =
     (if k < a then (k, v) # (a, b) # m
      else if k = a then (k, v) # m
      else (a, b) # om_insert k v m)"

text \<open>The entries from a lower bound on, \<^verbatim>\<open>range(lo..)\<close>.\<close>

definition om_range :: "'k::linorder \<Rightarrow> ('k, 'v) omap \<Rightarrow> ('k, 'v) omap" where
  "om_range lo m = dropWhile (\<lambda>e. fst e < lo) m"

definition om_lookup :: "('k, 'v) omap \<Rightarrow> 'k \<Rightarrow> 'v option" where
  "om_lookup m k = map_of m k"

definition om_remove :: "'k \<Rightarrow> ('k, 'v) omap \<Rightarrow> ('k, 'v) omap" where
  "om_remove k m = filter (\<lambda>e. fst e \<noteq> k) m"

definition om_wf :: "('k::linorder, 'v) omap \<Rightarrow> bool" where
  "om_wf m \<longleftrightarrow> sorted_wrt (<) (map fst m)"

section \<open>The interface\<close>

locale ordered_map =
  fixes empty :: 'm
    and insert :: "'k::linorder \<Rightarrow> 'v \<Rightarrow> 'm \<Rightarrow> 'm"
    and remove :: "'k \<Rightarrow> 'm \<Rightarrow> 'm"
    and lookup :: "'m \<Rightarrow> 'k \<Rightarrow> 'v option"
    and range :: "'k \<Rightarrow> 'm \<Rightarrow> ('k \<times> 'v) list"
    and inv :: "'m \<Rightarrow> bool"
  assumes inv_empty: "inv empty"
    and inv_insert: "inv m \<Longrightarrow> inv (insert k v m)"
    and inv_remove: "inv m \<Longrightarrow> inv (remove k m)"
    and lookup_empty: "lookup empty k = None"
    and lookup_insert: "inv m \<Longrightarrow> lookup (insert k v m) k' = (if k' = k then Some v else lookup m k')"
    and lookup_remove: "inv m \<Longrightarrow> lookup (remove k m) k' = (if k' = k then None else lookup m k')"
    and range_sorted: "inv m \<Longrightarrow> sorted_wrt (<) (map fst (range lo m))"
    and range_entries: "inv m \<Longrightarrow> (k, v) \<in> set (range lo m) \<longleftrightarrow> lo \<le> k \<and> lookup m k = Some v"
begin

text \<open>The head of a range is the entry with the least key at or above the bound.\<close>

lemma range_head:
  assumes "inv m" and "range lo m = (k, v) # es"
  shows "lo \<le> k" and "lookup m k = Some v" and "\<And>k' v'. lookup m k' = Some v' \<Longrightarrow> lo \<le> k' \<Longrightarrow> k \<le> k'"
proof -
  have "(k, v) \<in> set (range lo m)" using assms(2) by simp
  then show "lo \<le> k" "lookup m k = Some v" using range_entries [OF assms(1)] by auto
  fix k' v' assume "lookup m k' = Some v'" "lo \<le> k'"
  then have "(k', v') \<in> set (range lo m)" using range_entries [OF assms(1)] by simp
  then show "k \<le> k'" using range_sorted [OF assms(1), of lo] assms(2) by force
qed

lemma range_Nil_iff:
  assumes "inv m"
  shows "range lo m = [] \<longleftrightarrow> (\<forall>k. lo \<le> k \<longrightarrow> lookup m k = None)"
proof -
  have "range lo m = [] \<longleftrightarrow> (\<forall>k v. (k, v) \<notin> set (range lo m))"
    by (cases "range lo m") auto
  also have "\<dots> \<longleftrightarrow> (\<forall>k. lo \<le> k \<longrightarrow> lookup m k = None)"
    unfolding range_entries [OF assms] by (metis not_Some_eq)
  finally show ?thesis .
qed

end

section \<open>The association lists are ordered maps\<close>

lemma set_om_insert:
  "om_wf m \<Longrightarrow> set (om_insert k v m) = Set.insert (k, v) {e \<in> set m. fst e \<noteq> k}"
proof (induction m)
  case (Cons e m)
  obtain a b where e: "e = (a, b)" by force
  have m: "om_wf m" and a: "\<forall>x \<in> set m. a < fst x" using Cons.prems by (auto simp: om_wf_def e)
  show ?case
  proof (cases "k \<le> a")
    case True
    then have "(k, y) \<notin> set m" for y using a by auto
    then show ?thesis using True by (cases "k = a") (auto simp: e)
  next
    case False
    then show ?thesis using Cons.IH [OF m] by (auto simp: e)
  qed
qed simp

lemma om_wf_insert: "om_wf m \<Longrightarrow> om_wf (om_insert k v m)"
proof (induction m)
  case (Cons e m)
  obtain a b where e: "e = (a, b)" by force
  have m: "om_wf m" and a: "\<forall>x \<in> set m. a < fst x" using Cons.prems by (auto simp: om_wf_def e)
  show ?case
    using Cons a m set_om_insert [OF m, of k v]
    by (auto simp: e om_wf_def)
qed (simp add: om_wf_def)

lemma om_wf_Nil [simp]: "om_wf []"
  by (simp add: om_wf_def)

lemma om_wf_distinct: "om_wf m \<Longrightarrow> distinct (map fst m)"
  by (simp add: om_wf_def strict_sorted_iff)

lemma om_lookup_Some: "om_wf m \<Longrightarrow> om_lookup m k = Some v \<longleftrightarrow> (k, v) \<in> set m"
  by (simp add: om_lookup_def om_wf_distinct)

lemma om_lookup_insert:
  assumes "om_wf m"
  shows "om_lookup (om_insert k v m) k' = (if k' = k then Some v else om_lookup m k')"
proof -
  have "om_lookup (om_insert k v m) k' = Some x \<longleftrightarrow> (if k' = k then Some v else om_lookup m k') = Some x" for x
    using assms by (auto simp: om_lookup_Some om_wf_insert set_om_insert)
  then show ?thesis by (metis option.exhaust)
qed

lemma om_wf_filter: "om_wf m \<Longrightarrow> om_wf (filter P m)"
  by (induction m) (auto simp: om_wf_def)

lemma om_wf_remove: "om_wf m \<Longrightarrow> om_wf (om_remove k m)"
  by (simp add: om_remove_def om_wf_filter)

lemma om_range_set:
  "om_wf m \<Longrightarrow> set (om_range lo m) = {e \<in> set m. lo \<le> fst e}"
  by (induction m) (auto simp: om_range_def om_wf_def)

lemma om_wf_range: "om_wf m \<Longrightarrow> om_wf (om_range lo m)"
  by (induction m) (auto simp: om_range_def om_wf_def)

lemma om_lookup_remove: "om_lookup (om_remove k m) k' = (if k' = k then None else om_lookup m k')"
  by (induction m) (auto simp: om_lookup_def om_remove_def)

interpretation om: ordered_map "[]" om_insert om_remove om_lookup om_range om_wf
proof
  show "sorted_wrt (<) (map fst (om_range lo m))" if "om_wf m" for m :: "('k::linorder, 'v) omap" and lo
    using om_wf_range [OF that] by (simp add: om_wf_def)
qed (auto simp: om_wf_insert om_lookup_insert om_lookup_remove om_wf_filter om_wf_remove om_range_set
    om_lookup_Some, auto simp: om_wf_def om_lookup_def)

end
