(* ===== verification/Versions.thy ===== *)
theory Versions
  imports Omni_Record Ordered_Map
begin

text \<open>
  Multi-version reads. A key has versions, numbered by sequence; a read at sequence \<open>s\<close> sees
  the newest version numbered at most \<open>s\<close>. This theory states what a level of the storage
  tree promises (the locale \<open>version_level\<close>), how a stack of levels searched top down
  answers a read, and models the two helpers compaction uses to merge versions and to decide
  which of them may be dropped (\<^verbatim>\<open>insert_record_version\<close> and
  \<^verbatim>\<open>retain_versions_needed_by_floor\<close> of \<^verbatim>\<open>storage/core.rs\<close>).
\<close>

section \<open>Value pointers and visibility\<close>

text \<open>Heap offset, flagged length, payload checksum, expiry.\<close>

type_synonym ptr = "u64 \<times> u64 \<times> u32 \<times> u64"

definition ptr_of :: "OmniRecord \<Rightarrow> ptr" where
  "ptr_of r = (offset r, rlength r, payload_crc32 r, expiry r)"

type_synonym vmap = "bytes \<Rightarrow> u64 \<Rightarrow> ptr option"

definition newest :: "(u64 \<Rightarrow> 'p option) \<Rightarrow> u64 \<Rightarrow> u64 option" where
  "newest m s = (if {q \<in> dom m. q \<le> s} = {} then None else Some (Max {q \<in> dom m. q \<le> s}))"

definition visible :: "(u64 \<Rightarrow> 'p option) \<Rightarrow> u64 \<Rightarrow> 'p option" where
  "visible m s = Option.bind (newest m s) m"

section \<open>Merging and retention in compaction\<close>

definition insert_record_version ::
  "(bytes, (u64, ptr) omap) omap \<Rightarrow> OmniRecord \<Rightarrow> (bytes, (u64, ptr) omap) omap" where
  "insert_record_version merged r =
     om_insert (key r)
       (om_insert (seq r) (ptr_of r)
          (case om_lookup merged (key r) of None \<Rightarrow> [] | Some vs \<Rightarrow> vs))
       merged"

text \<open>The last key of a sorted map at or below a bound, \<^verbatim>\<open>range(..=floor).next_back()\<close>.\<close>

definition last_at_most :: "u64 \<Rightarrow> (u64, 'p) omap \<Rightarrow> u64 option" where
  "last_at_most f vs = (let below = filter (\<lambda>e. fst e \<le> f) vs
     in if below = [] then None else Some (fst (last below)))"

definition retain_versions_needed_by_floor ::
  "(u64, 'p) omap \<Rightarrow> u64 option \<Rightarrow> (u64, 'p) omap" where
  "retain_versions_needed_by_floor vs floor =
     (if vs = [] then vs
      else let latest = fst (last vs); pred = Option.bind floor (\<lambda>f. last_at_most f vs)
           in filter (\<lambda>(q, _). q = latest \<or> (case floor of None \<Rightarrow> False | Some f \<Rightarrow> q \<ge> f)
                              \<or> pred = Some q) vs)"

section \<open>Facts about visibility\<close>

lemma newest_Some:
  "newest m s = Some q \<longleftrightarrow> q \<le> s \<and> q \<in> dom m \<and> (\<forall>q' \<in> dom m. q' \<le> s \<longrightarrow> q' \<le> q)"
proof
  assume "newest m s = Some q"
  then have "{q \<in> dom m. q \<le> s} \<noteq> {}" and q: "q = Max {q \<in> dom m. q \<le> s}"
    by (auto simp: newest_def split: if_splits)
  then have "q \<in> {q \<in> dom m. q \<le> s}" using Max_in [of "{q \<in> dom m. q \<le> s}"] by simp
  then show "q \<le> s \<and> q \<in> dom m \<and> (\<forall>q' \<in> dom m. q' \<le> s \<longrightarrow> q' \<le> q)"
    by (auto simp: q)
next
  assume "q \<le> s \<and> q \<in> dom m \<and> (\<forall>q' \<in> dom m. q' \<le> s \<longrightarrow> q' \<le> q)"
  then have "Max {q \<in> dom m. q \<le> s} = q" and "q \<in> {q \<in> dom m. q \<le> s}"
    by (auto intro!: Max_eqI)
  then show "newest m s = Some q" by (auto simp: newest_def)
qed

lemma newest_version:
  "newest m s = Some q \<and> m q = Some p \<longleftrightarrow>
     m q = Some p \<and> q \<le> s \<and> (\<forall>q' p'. m q' = Some p' \<longrightarrow> q' \<le> s \<longrightarrow> q' \<le> q)"
  by (auto simp: newest_Some)

lemma newest_None: "newest m s = None \<longleftrightarrow> (\<forall>q \<in> dom m. \<not> q \<le> s)"
  by (auto simp: newest_def)

lemma newest_empty [simp]: "newest Map.empty s = None"
  by (simp add: newest_None)

lemma visible_Some:
  "visible m s = Some p \<longleftrightarrow> (\<exists>q. newest m s = Some q \<and> m q = Some p)"
  by (simp add: visible_def bind_eq_Some_conv)

lemma visible_None: "visible m s = None \<longleftrightarrow> (\<forall>q \<le> s. m q = None)"
proof (cases "newest m s")
  case None
  then have "\<forall>q \<le> s. m q = None" by (auto simp: newest_None)
  with None show ?thesis by (simp add: visible_def)
next
  case (Some q)
  then have "q \<le> s" "m q \<noteq> None" by (auto simp: newest_Some)
  then show ?thesis using Some by (auto simp: visible_def)
qed

lemma visible_empty [simp]: "visible Map.empty s = None"
  by (simp add: visible_None)

lemma visible_cong:
  assumes "\<And>q. q \<le> s \<Longrightarrow> m q = m' q"
  shows "visible m s = visible m' s"
proof -
  have "{q \<in> dom m. q \<le> s} = {q \<in> dom m'. q \<le> s}" using assms by auto
  then have n: "newest m s = newest m' s" by (simp add: newest_def)
  show ?thesis
  proof (cases "newest m s")
    case (Some q)
    then have "q \<le> s" by (simp add: newest_Some)
    moreover have "visible m s = m q" "visible m' s = m' q"
      using Some n by (simp_all add: visible_def)
    ultimately show ?thesis using assms by simp
  qed (use n in \<open>simp add: visible_def\<close>)
qed

section \<open>Stacks of levels\<close>

text \<open>Every version of a key in the upper level is newer than every version of that key in the
  lower one, or is the same version.\<close>

definition above :: "(u64 \<Rightarrow> 'p option) \<Rightarrow> (u64 \<Rightarrow> 'p option) \<Rightarrow> bool" where
  "above upper lower \<longleftrightarrow>
     (\<forall>q p q' p'. upper q = Some p \<and> lower q' = Some p' \<longrightarrow> q' < q \<or> q' = q \<and> p' = p)"

lemma above_le: "above upper lower \<Longrightarrow> q \<in> dom upper \<Longrightarrow> q' \<in> dom lower \<Longrightarrow> q' \<le> q"
  by (force simp: above_def)

lemma visible_merge:
  assumes "above upper lower"
  shows "visible (lower ++ upper) s =
    (case visible upper s of None \<Rightarrow> visible lower s | Some p \<Rightarrow> Some p)"
proof (cases "visible upper s")
  case None
  then have "visible (lower ++ upper) s = visible lower s"
    by (intro visible_cong) (auto simp: visible_None map_add_def)
  with None show ?thesis by simp
next
  case (Some p)
  then obtain q where q: "newest upper s = Some q" "upper q = Some p" by (auto simp: visible_Some)
  then have "newest (lower ++ upper) s = Some q"
    using above_le [OF assms] by (auto simp: newest_Some)
  with q Some show ?thesis by (simp add: visible_def)
qed

fun merge_levels :: "(u64 \<Rightarrow> 'p option) list \<Rightarrow> u64 \<Rightarrow> 'p option" where
  "merge_levels [] = Map.empty"
| "merge_levels (l # ls) = merge_levels ls ++ l"

fun first_visible :: "(u64 \<Rightarrow> 'p option) list \<Rightarrow> u64 \<Rightarrow> 'p option" where
  "first_visible [] s = None"
| "first_visible (l # ls) s = (case visible l s of None \<Rightarrow> first_visible ls s | Some p \<Rightarrow> Some p)"

lemma dom_merge_levels: "dom (merge_levels ls) = (\<Union>l \<in> set ls. dom l)"
  by (induction ls) auto

lemma above_merge:
  "(\<forall>x \<in> set ls. above l x) \<Longrightarrow> above l (merge_levels ls)"
proof (induction ls)
  case Nil
  then show ?case by (simp add: above_def)
next
  case (Cons x ls)
  then have "above l x" "above l (merge_levels ls)" by simp_all
  then show ?case unfolding above_def by (simp add: map_add_def split: option.split)
qed

lemma first_visible_merge:
  "sorted_wrt above ls \<Longrightarrow> first_visible ls s = visible (merge_levels ls) s"
proof (induction ls)
  case (Cons l ls)
  then have "above l (merge_levels ls)" by (intro above_merge) simp_all
  with Cons show ?case by (simp add: visible_merge split: option.split)
qed simp

lemma above_agree: "above upper lower \<Longrightarrow> lower q = Some p \<Longrightarrow> upper q = Some p' \<Longrightarrow> p = p'"
  by (force simp: above_def)

text \<open>In an ordered stack every level agrees with the merged versions.\<close>

lemma merge_levels_iff:
  "sorted_wrt above ls \<Longrightarrow> merge_levels ls q = Some p \<longleftrightarrow> (\<exists>l \<in> set ls. l q = Some p)"
proof (induction ls)
  case (Cons l ls)
  then have IH: "merge_levels ls q = Some p \<longleftrightarrow> (\<exists>l \<in> set ls. l q = Some p)" by simp
  show ?case
  proof (cases "l q")
    case None
    then show ?thesis using IH by (simp add: map_add_def)
  next
    case (Some p')
    have "p = p'" if "x \<in> set ls" "x q = Some p" for x
      using above_agree [of l x q p p'] Cons.prems that Some by simp
    then show ?thesis using Some by (auto simp: map_add_def)
  qed
qed simp

fun search_levels :: "('l \<Rightarrow> 'p option result) \<Rightarrow> 'l list \<Rightarrow> 'p option result" where
  "search_levels f [] = Inr None"
| "search_levels f (l # ls) =
     bind_res (f l) (\<lambda>r. case r of Some p \<Rightarrow> Inr (Some p) | None \<Rightarrow> search_levels f ls)"

lemma first_visible_append:
  "first_visible (xs @ ys) s = (case first_visible xs s of None \<Rightarrow> first_visible ys s | Some p \<Rightarrow> Some p)"
  by (induction xs) (auto split: option.split)

lemma newest_merge:
  assumes "above upper lower"
  shows "newest (lower ++ upper) s = (case newest upper s of None \<Rightarrow> newest lower s | Some q \<Rightarrow> Some q)"
proof (cases "newest upper s")
  case None
  then have "{q \<in> dom (lower ++ upper). q \<le> s} = {q \<in> dom lower. q \<le> s}" by (auto simp: newest_None)
  then show ?thesis using None by (simp add: newest_def)
next
  case (Some q)
  then have "newest (lower ++ upper) s = Some q" using above_le [OF assms] by (auto simp: newest_Some)
  then show ?thesis using Some by simp
qed

fun first_newest :: "(u64 \<Rightarrow> 'p option) list \<Rightarrow> u64 \<Rightarrow> u64 option" where
  "first_newest [] s = None"
| "first_newest (l # ls) s = (case newest l s of None \<Rightarrow> first_newest ls s | Some q \<Rightarrow> Some q)"

lemma first_newest_merge:
  "sorted_wrt above ls \<Longrightarrow> first_newest ls s = newest (merge_levels ls) s"
proof (induction ls)
  case Nil
  then show ?case by simp
next
  case (Cons l ls)
  then have "above l (merge_levels ls)" by (intro above_merge) simp_all
  with Cons show ?case by (simp add: newest_merge split: option.split)
qed

text \<open>What a level promises: the pointer it returns for a key and a read sequence is the one
  visible among its contents.\<close>

locale version_level =
  fixes contents :: "'l \<Rightarrow> bytes \<Rightarrow> u64 \<Rightarrow> ptr option"
    and look :: "'l \<Rightarrow> bytes \<Rightarrow> u64 \<Rightarrow> ptr option result"
    and inv :: "'l \<Rightarrow> bool"
  assumes look_visible: "inv l \<Longrightarrow> look l k s = Inr (visible (contents l k) s)"
begin

text \<open>Searching levels top down, the first hit wins.\<close>

lemma search_visible:
  "(\<forall>l \<in> set ls. inv l) \<Longrightarrow>
     search_levels (\<lambda>l. look l k s) ls = Inr (first_visible (map (\<lambda>l. contents l k) ls) s)"
  by (induction ls) (auto simp: look_visible split: option.split)

end

section \<open>Retention keeps exactly what a reader at or above the floor can see\<close>

text \<open>The reads compaction must not disturb: those at or above the retention floor, or, when
  nothing is pinned, those at the newest sequence.\<close>

definition floor_ok :: "u64 option \<Rightarrow> u64 \<Rightarrow> bool" where
  "floor_ok floor s \<longleftrightarrow> (case floor of None \<Rightarrow> s = - 1 | Some f \<Rightarrow> f \<le> s)"

lemma dom_om_lookup: "dom (om_lookup vs) = fst ` set vs"
  by (simp add: om_lookup_def [abs_def] dom_map_of_conv_image_fst)

lemma sorted_last_greatest:
  assumes "om_wf vs" and "e \<in> set vs"
  shows "fst e \<le> fst (last vs)"
proof -
  have "vs \<noteq> []" using assms(2) by auto
  then have "vs = butlast vs @ [last vs]" by simp
  then have "sorted_wrt (<) (map fst (butlast vs) @ [fst (last vs)])"
    using assms(1) unfolding om_wf_def by (metis list.simps(8,9) map_append)
  then have "\<forall>e \<in> set (butlast vs). fst e < fst (last vs)" by (auto simp: sorted_wrt_append)
  moreover have "e \<in> set (butlast vs) \<or> e = last vs"
    using assms(2) \<open>vs = butlast vs @ [last vs]\<close> by (metis UnE empty_iff insert_iff list.set set_append)
  ultimately show ?thesis by fastforce
qed

lemma last_at_most_newest: "om_wf vs \<Longrightarrow> last_at_most f vs = newest (om_lookup vs) f"
proof -
  assume wf: "om_wf vs"
  let ?b = "filter (\<lambda>e. fst e \<le> f) vs"
  show ?thesis
  proof (cases "?b = []")
    case True
    then have "newest (om_lookup vs) f = None"
      by (auto simp: newest_None dom_om_lookup filter_empty_conv)
    with True show ?thesis by (simp add: last_at_most_def Let_def)
  next
    case False
    have "last ?b \<in> set vs" "fst (last ?b) \<le> f" using last_in_set [OF False] by auto
    moreover have "\<forall>e \<in> set ?b. fst e \<le> fst (last ?b)"
      using sorted_last_greatest [OF om_wf_filter [OF wf]] by blast
    ultimately have "newest (om_lookup vs) f = Some (fst (last ?b))"
      unfolding newest_Some dom_om_lookup by auto
    with False show ?thesis by (simp add: last_at_most_def Let_def)
  qed
qed

lemma latest_newest: "om_wf vs \<Longrightarrow> vs \<noteq> [] \<Longrightarrow> newest (om_lookup vs) (- 1) = Some (fst (last vs))"
  using sorted_last_greatest [of vs] by (fastforce simp: newest_Some dom_om_lookup word_order.extremum)

lemma retain_iff:
  assumes "om_wf vs"
  shows "(q, p) \<in> set (retain_versions_needed_by_floor vs floor) \<longleftrightarrow>
    (q, p) \<in> set vs \<and> (\<exists>s. floor_ok floor s \<and> newest (om_lookup vs) s = Some q)"
    (is "?L \<longleftrightarrow> ?R")
proof (cases "vs = []")
  case True
  then show ?thesis by (simp add: retain_versions_needed_by_floor_def)
next
  case ne: False
  have L: "?L \<longleftrightarrow> (q, p) \<in> set vs \<and> (q = fst (last vs) \<or>
      (\<exists>f. floor = Some f \<and> (f \<le> q \<or> newest (om_lookup vs) f = Some q)))"
    using ne by (cases floor) (auto simp: retain_versions_needed_by_floor_def last_at_most_newest [OF assms])
  have latest: "newest (om_lookup vs) (- 1) = Some (fst (last vs))"
    using latest_newest [OF assms ne] .
  show ?thesis
  proof
    assume ?L
    then have qp: "(q, p) \<in> set vs" using L by blast
    from \<open>?L\<close> L consider "q = fst (last vs)" | f where "floor = Some f" "f \<le> q"
      | f where "floor = Some f" "newest (om_lookup vs) f = Some q" by blast
    then show ?R
    proof cases
      case 1
      then show ?thesis using qp latest by (auto simp: floor_ok_def split: option.splits)
    next
      case (2 f)
      moreover have "newest (om_lookup vs) q = Some q"
        using qp by (force simp: newest_Some dom_om_lookup)
      ultimately show ?thesis using qp by (auto simp: floor_ok_def)
    next
      case (3 f)
      then show ?thesis using qp by (auto simp: floor_ok_def intro!: exI [of _ f])
    qed
  next
    assume ?R
    then obtain s where qp: "(q, p) \<in> set vs" and s: "floor_ok floor s" "newest (om_lookup vs) s = Some q"
      by blast
    show ?L
    proof (cases floor)
      case None
      then show ?thesis using s qp latest L by (simp add: floor_ok_def)
    next
      case (Some f)
      then have "f \<le> s" using s(1) by (simp add: floor_ok_def)
      then have "newest (om_lookup vs) f = Some q" if "\<not> f \<le> q"
        using s(2) that by (auto simp: newest_Some)
      then show ?thesis using Some qp L by blast
    qed
  qed
qed

lemma retain_wf: "om_wf vs \<Longrightarrow> om_wf (retain_versions_needed_by_floor vs floor)"
  by (simp add: retain_versions_needed_by_floor_def Let_def om_wf_filter)

lemma retain_lookup:
  assumes "om_wf vs"
  shows "om_lookup (retain_versions_needed_by_floor vs floor) q =
    (if \<exists>s. floor_ok floor s \<and> newest (om_lookup vs) s = Some q then om_lookup vs q else None)"
proof -
  have "om_lookup (retain_versions_needed_by_floor vs floor) q = Some p \<longleftrightarrow>
    (\<exists>s. floor_ok floor s \<and> newest (om_lookup vs) s = Some q) \<and> om_lookup vs q = Some p" for p
    using assms by (auto simp: om_lookup_Some retain_wf retain_iff)
  then show ?thesis by (metis option.exhaust)
qed

lemma retain_visible:
  assumes "om_wf vs" and "floor_ok floor s"
  shows "visible (om_lookup (retain_versions_needed_by_floor vs floor)) s = visible (om_lookup vs) s"
proof (cases "newest (om_lookup vs) s")
  case None
  then have "\<forall>q \<le> s. om_lookup vs q = None" by (auto simp: newest_None)
  then have "visible (om_lookup vs) s = None"
    and "visible (om_lookup (retain_versions_needed_by_floor vs floor)) s = None"
    using assms(1) by (simp_all add: visible_None retain_lookup)
  then show ?thesis by simp
next
  case (Some q)
  let ?m = "om_lookup (retain_versions_needed_by_floor vs floor)"
  have q: "?m q = om_lookup vs q" using assms Some by (auto simp: retain_lookup)
  have "dom ?m \<subseteq> dom (om_lookup vs)" using assms(1) by (auto simp: retain_lookup split: if_splits)
  with Some q have "newest ?m s = Some q" unfolding newest_Some by (auto simp: dom_def)
  then show ?thesis using Some q by (simp add: visible_def)
qed

section \<open>Properties\<close>

text \<open>C10. Version retention is exact. Whatever the versions of a key, the ones compaction
  keeps are precisely those some reader at or above the retention floor sees as the newest
  (with no floor: precisely the latest), with their pointers unchanged; so every such reader
  gets the same answer before and after.\<close>

theorem retention_exact:
  assumes "om_wf vs"
  shows "set (retain_versions_needed_by_floor vs floor) =
      {(q, p) \<in> set vs. \<exists>s. floor_ok floor s \<and> newest (om_lookup vs) s = Some q} \<and>
    (\<forall>s. floor_ok floor s \<longrightarrow>
      visible (om_lookup (retain_versions_needed_by_floor vs floor)) s = visible (om_lookup vs) s)"
  using retain_iff [OF assms] retain_visible [OF assms] by auto

theorem retention_exact_witness:
  "set (retain_versions_needed_by_floor [(1, ''a''), (5, ''b''), (8, ''c''), (10, ''d'')] (Some 7)) =
      {(q, p) \<in> set [(1, ''a''), (5, ''b''), (8, ''c''), (10, ''d'')].
         \<exists>s. floor_ok (Some 7) s \<and>
             newest (om_lookup [(1, ''a''), (5, ''b''), (8, ''c''), (10, ''d'')]) s = Some q} \<and>
   visible (om_lookup (retain_versions_needed_by_floor
       [(1, ''a''), (5, ''b''), (8, ''c''), (10, ''d'')] (Some 7))) 9 =
     visible (om_lookup [(1, ''a''), (5, ''b''), (8, ''c''), (10, ''d'')]) 9"
  using retention_exact [of "[(1, ''a''), (5, ''b''), (8, ''c''), (10, ''d'')]" "Some 7"]
  by (simp add: om_wf_def floor_ok_def)

end
