(* ===== verification/Sstable.thy ===== *)
theory Sstable
  imports Versions
begin

text \<open>
  Sorted tables of \<^verbatim>\<open>storage/core.rs\<close>: the writer that lays out records, a sparse block
  index and a trailer (\<^verbatim>\<open>SSTableWriter\<close>), the point lookup and the iterator over the bytes
  of a finished table (\<^verbatim>\<open>SSTableReader\<close>, \<^verbatim>\<open>SSTableIterator\<close>). Slices out of range and an
  index header too large to allocate for are panics of the Rust code and \<open>Panic\<close> here.

  The lemmas show that a table read back yields the records written, and that a lookup
  returns the version visible at the read sequence, provided no block of the table opens
  in the middle of the versions of a key. Tables that violate the proviso exist: the last
  property shows a lookup that misses the newest version.
\<close>

section \<open>Writer\<close>

definition MAGIC :: bytes where
  "MAGIC = [79, 77, 78, 73, 86, 50, 42, 42]"

record SSTableWriter =
  out :: bytes
  woffset :: nat
  windex :: "(bytes \<times> nat) list"
  current_block_start_key :: "bytes option"
  block_size :: nat

definition writer_new :: SSTableWriter where
  "writer_new = \<lparr>out = [], woffset = 0, windex = [], current_block_start_key = None, block_size = 4096\<rparr>"

definition writer_append :: "OmniRecord \<Rightarrow> SSTableWriter \<Rightarrow> SSTableWriter" where
  "writer_append r w =
     (let bs = encode r;
          w1 = (if current_block_start_key w = None
                then w\<lparr>current_block_start_key := Some (key r),
                       windex := windex w @ [(key r, woffset w)]\<rparr>
                else w);
          w2 = w1\<lparr>out := out w1 @ bs, woffset := woffset w1 + length bs\<rparr>
      in if current_block_start_key w2 \<noteq> None \<and> woffset w2 - snd (last (windex w2)) \<ge> block_size w2
         then w2\<lparr>current_block_start_key := None\<rparr> else w2)"

definition index_entry :: "bytes \<times> nat \<Rightarrow> bytes" where
  "index_entry e = u16_le (word_of_nat (length (fst e))) @ fst e @ u64_le (word_of_nat (snd e))"

definition writer_finish :: "SSTableWriter \<Rightarrow> bytes" where
  "writer_finish w = out w @ u64_le (word_of_nat (length (windex w))) @
     concat (map index_entry (windex w)) @ u64_le (word_of_nat (woffset w)) @ MAGIC"

text \<open>The sequence every compaction runs: append each record, then finish.\<close>

definition write_records :: "OmniRecord list \<Rightarrow> SSTableWriter" where
  "write_records rs = fold writer_append rs writer_new"

definition sst_bytes :: "OmniRecord list \<Rightarrow> bytes" where
  "sst_bytes rs = writer_finish (write_records rs)"

section \<open>Reader\<close>

definition has_trailer :: "bytes \<Rightarrow> bool" where
  "has_trailer data \<longleftrightarrow> length data \<ge> 16 \<and> drop (length data - 8) data = MAGIC"

definition index_offset :: "bytes \<Rightarrow> nat" where
  "index_offset data = unat (le_u64 (slice (length data - 16) (length data - 8) data))"

fun parse_index :: "nat \<Rightarrow> bytes \<Rightarrow> (bytes \<times> nat) list" where
  "parse_index 0 d = []"
| "parse_index (Suc n) d =
     (if length d < 2 then []
      else let key_len = unat (le_u16 (take 2 d)); d' = drop 2 d in
        if length d' < key_len + 8 then []
        else (take key_len d', unat (le_u64 (take 8 (drop key_len d'))))
             # parse_index n (drop (key_len + 8) d'))"

text \<open>\<^verbatim>\<open>partition_point\<close> on a slice that is partitioned: the number of leading entries that
  satisfy the predicate.\<close>

definition partition_point :: "('a \<Rightarrow> bool) \<Rightarrow> 'a list \<Rightarrow> nat" where
  "partition_point p xs = length (takeWhile p xs)"

definition get_block_for_key :: "bytes \<Rightarrow> bytes \<Rightarrow> nat result" where
  "get_block_for_key data target =
     (if \<not> has_trailer data then Inr 0
      else let io = index_offset data in
        if io \<ge> length data then Inr 0
        else if io > length data - 16 then Inl Panic
        else let index_data = slice io (length data - 16) data in
          if length index_data < 8 then Inr 0
          else let n = unat (le_u64 (take 8 index_data)) in
            if n * 24 \<ge> 2 ^ 63 then Inl Panic
            else let entries = parse_index n (drop 8 index_data);
                     idx = partition_point (\<lambda>e. fst e \<le> target) entries
                 in Inr (if idx = 0 then 0 else snd (entries ! (idx - 1))))"

lemma decode_progress: "decode crc (drop off data) = Some (r, len) \<Longrightarrow> 0 < len \<and> off < length data"
  by (auto simp: decode_def Let_def split: if_splits)

text \<open>The records the iterator yields from an offset on. The bytes past the end of the file
  are never sliced: an offset from the index is below the index offset or iteration stops.\<close>

function sst_iter :: "(bytes \<Rightarrow> u32) \<Rightarrow> bytes \<Rightarrow> nat \<Rightarrow> OmniRecord list" where
  "sst_iter crc data off =
     (if has_trailer data \<and> off \<ge> index_offset data then []
      else case decode crc (drop off data) of
        None \<Rightarrow> []
      | Some (r, len) \<Rightarrow> r # sst_iter crc data (off + len))"
  by pat_completeness auto

termination
  by (relation "measure (\<lambda>(crc, data, off). length data - off)")
    (use decode_progress in \<open>fastforce+\<close>)

declare sst_iter.simps [simp del]

definition iter_from :: "(bytes \<Rightarrow> u32) \<Rightarrow> bytes \<Rightarrow> bytes \<Rightarrow> OmniRecord list result" where
  "iter_from crc data start = bind_res (get_block_for_key data start) (\<lambda>off. Inr (sst_iter crc data off))"

text \<open>The loop of \<^verbatim>\<open>SSTableReader::find\<close> over the records from the block on.\<close>

fun find_scan ::
  "(bytes \<Rightarrow> u32) \<Rightarrow> bytes \<Rightarrow> u64 \<Rightarrow> OmniRecord list \<Rightarrow> ptr option \<Rightarrow> u64 \<Rightarrow> ptr option" where
  "find_scan crc target read_seq [] best best_seq = best"
| "find_scan crc target read_seq (r # rs) best best_seq =
     (if key r > target then best
      else if key r = target \<and> is_valid crc r \<and> seq r \<le> read_seq \<and> (best = None \<or> seq r > best_seq)
      then find_scan crc target read_seq rs (Some (ptr_of r)) (seq r)
      else find_scan crc target read_seq rs best best_seq)"

definition sst_find :: "(bytes \<Rightarrow> u32) \<Rightarrow> bytes \<Rightarrow> bytes \<Rightarrow> u64 \<Rightarrow> ptr option result" where
  "sst_find crc data target read_seq =
     bind_res (iter_from crc data target) (\<lambda>rs. Inr (find_scan crc target read_seq rs None 0))"

section \<open>What a table holds\<close>

definition rec_versions :: "OmniRecord list \<Rightarrow> vmap" where
  "rec_versions rs k = map_of (map (\<lambda>r. (seq r, ptr_of r)) (filter (\<lambda>r. key r = k) rs))"

definition recs_size :: "OmniRecord list \<Rightarrow> nat" where
  "recs_size rs = length (concat (map encode rs))"

text \<open>No block opens with the key of the record before it.\<close>

definition block_aligned :: "OmniRecord list \<Rightarrow> bool" where
  "block_aligned rs \<longleftrightarrow> (\<forall>i \<in> {1..<length rs}.
     current_block_start_key (write_records (take i rs)) = None \<longrightarrow> key (rs ! (i - 1)) \<noteq> key (rs ! i))"

definition table_ok :: "(bytes \<Rightarrow> u32) \<Rightarrow> OmniRecord list \<Rightarrow> bool" where
  "table_ok crc rs \<longleftrightarrow> (\<forall>r \<in> set rs. storable crc r) \<and> sorted (map key rs) \<and> recs_size rs < 2 ^ 63"

section \<open>The writer\<close>

lemma write_records_snoc: "write_records (rs @ [r]) = writer_append r (write_records rs)"
  by (simp add: write_records_def)

lemma write_records_Nil: "write_records [] = writer_new"
  by (simp add: write_records_def)

lemma writer_out:
  "out (write_records rs) = concat (map encode rs) \<and> woffset (write_records rs) = recs_size rs"
  by (induction rs rule: rev_induct)
    (auto simp: write_records_snoc write_records_Nil writer_new_def writer_append_def recs_size_def Let_def)

lemma recs_size_append [simp]: "recs_size (xs @ ys) = recs_size xs + recs_size ys"
  by (simp add: recs_size_def)

lemma recs_size_simps [simp]:
  "recs_size [] = 0" "recs_size (r # rs) = 42 + length (key r) + recs_size rs"
  by (simp_all add: recs_size_def)

lemma recs_size_length: "42 * length rs \<le> recs_size rs"
  by (induction rs) auto

lemma recs_size_take: "recs_size (take i rs) \<le> recs_size rs"
  by (metis append_take_drop_id le_add1 recs_size_append)

lemma index_entries:
  "(k, off) \<in> set (windex (write_records rs)) \<Longrightarrow>
     \<exists>i < length rs. k = key (rs ! i) \<and> off = recs_size (take i rs) \<and>
       current_block_start_key (write_records (take i rs)) = None"
proof (induction rs rule: rev_induct)
  case Nil
  then show ?case by (simp add: write_records_Nil writer_new_def)
next
  case (snoc r rs)
  let ?w = "write_records rs"
  consider "(k, off) \<in> set (windex ?w)"
    | "current_block_start_key ?w = None" "k = key r" "off = recs_size rs"
    using snoc.prems writer_out [of rs]
    by (auto simp: write_records_snoc writer_append_def Let_def split: if_splits)
  then show ?case
  proof cases
    case 1
    then obtain i where "i < length rs" "k = key (rs ! i)" "off = recs_size (take i rs)"
      "current_block_start_key (write_records (take i rs)) = None"
      using snoc.IH by blast
    then show ?thesis by (intro exI [of _ i]) (auto simp: nth_append)
  next
    case 2
    then show ?thesis by (intro exI [of _ "length rs"]) auto
  qed
qed

lemma index_length: "length (windex (write_records rs)) \<le> length rs"
  by (induction rs rule: rev_induct)
    (auto simp: write_records_snoc write_records_Nil writer_new_def writer_append_def Let_def)

section \<open>Reading back what was written\<close>

lemma length_index_entry: "length (index_entry e) = 10 + length (fst e)"
  by (simp add: index_entry_def)

lemma parse_index_entries:
  "(\<forall>e \<in> set es. length (fst e) < 65536 \<and> snd e < 2 ^ 64) \<Longrightarrow>
     parse_index (length es) (concat (map index_entry es)) = es"
proof (induction es)
  case (Cons e es)
  obtain k off where e: "e = (k, off)" by (cases e)
  then have b: "length k < 65536" "off < 2 ^ 64" using Cons.prems by simp_all
  let ?rest = "concat (map index_entry es)"
  have kl: "unat (le_u16 (take 2 (index_entry e @ ?rest))) = length k"
    using b by (simp add: e index_entry_def take_bit_eq_mod unat_of_nat)
  have ol: "unat (le_u64 (take 8 (drop (length k) (drop 2 (index_entry e @ ?rest))))) = off"
    using b by (simp add: e index_entry_def take_bit_eq_mod unat_of_nat)
  have kk: "take (length k) (drop 2 (index_entry e @ ?rest)) = k"
    by (simp add: e index_entry_def)
  have rr: "drop (length k + 8) (drop 2 (index_entry e @ ?rest)) = ?rest"
    by (simp add: e index_entry_def)
  have "parse_index (length es) ?rest = es" using Cons by simp
  then show ?case
    using kl ol kk rr by (simp add: e Let_def length_index_entry del: drop_drop)
qed simp

lemma sst_bytes_layout:
  "sst_bytes rs = concat (map encode rs) @
     (u64_le (word_of_nat (length (windex (write_records rs)))) @
      concat (map index_entry (windex (write_records rs)))) @
     u64_le (word_of_nat (recs_size rs)) @ MAGIC"
  using writer_out [of rs] by (simp add: sst_bytes_def writer_finish_def)

lemma length_MAGIC [simp]: "length MAGIC = 8"
  by (simp add: MAGIC_def)

lemma drop_tail: "length ys = n \<Longrightarrow> drop (length (xs @ ys) - n) (xs @ ys) = ys"
  by simp

lemma trailer [simp]: "has_trailer (sst_bytes rs)"
  by (simp add: has_trailer_def sst_bytes_layout)

lemma index_offset_bytes [simp]:
  assumes "recs_size rs < 2 ^ 63"
  shows "index_offset (sst_bytes rs) = recs_size rs"
proof -
  define d where "d = concat (map encode rs) @
     (u64_le (word_of_nat (length (windex (write_records rs)))) @
      concat (map index_entry (windex (write_records rs))))"
  have b: "sst_bytes rs = d @ u64_le (word_of_nat (recs_size rs)) @ MAGIC"
    by (simp add: sst_bytes_layout d_def)
  have "slice (length (sst_bytes rs) - 16) (length (sst_bytes rs) - 8) (sst_bytes rs)
      = u64_le (word_of_nat (recs_size rs))"
    by (simp add: b slice_def)
  then show ?thesis using assms by (simp add: index_offset_def take_bit_eq_mod unat_of_nat)
qed

lemma index_bounds:
  assumes "table_ok crc rs" and "e \<in> set (windex (write_records rs))"
  shows "length (fst e) < 65536 \<and> snd e < 2 ^ 64"
proof -
  obtain k off where e: "e = (k, off)" by (cases e)
  with assms(2) obtain i where i: "i < length rs" "k = key (rs ! i)" "off = recs_size (take i rs)"
    using index_entries by blast
  then have "length k < 65536" using assms(1) by (auto simp: table_ok_def storable_def)
  moreover have "off \<le> recs_size rs" using i(3) recs_size_take by simp
  moreover have "recs_size rs < 2 ^ 63" using assms(1) by (simp add: table_ok_def)
  ultimately show ?thesis by (simp add: e)
qed

lemma get_block_bytes:
  assumes "table_ok crc rs"
  shows "get_block_for_key (sst_bytes rs) target =
    (let es = windex (write_records rs); idx = partition_point (\<lambda>e. fst e \<le> target) es
     in Inr (if idx = 0 then 0 else snd (es ! (idx - 1))))"
proof -
  let ?es = "windex (write_records rs)"
  have sz: "recs_size rs < 2 ^ 63" using assms by (simp add: table_ok_def)
  have n: "length ?es * 24 < 2 ^ 63"
    using index_length [of rs] recs_size_length [of rs] sz by linarith
  have nw: "unat (word_of_nat (length ?es) :: u64) = length ?es"
    using n by (simp add: unat_of_nat)
  let ?idx = "u64_le (word_of_nat (length ?es)) @ concat (map index_entry ?es)"
  have len: "length (sst_bytes rs) = recs_size rs + length ?idx + 16"
    by (simp add: sst_bytes_layout recs_size_def)
  have sl: "slice (recs_size rs) (length (sst_bytes rs) - 16) (sst_bytes rs) = ?idx"
    unfolding len by (simp add: sst_bytes_layout slice_def recs_size_def)
  have "parse_index (length ?es) (concat (map index_entry ?es)) = ?es"
    using index_bounds [OF assms] by (intro parse_index_entries) blast
  then show ?thesis
    using n sz unfolding get_block_for_key_def
    by (simp add: Let_def sl nw del: length_append) (simp add: len)
qed

lemma sst_iter_records:
  assumes "table_ok crc rs" and "i \<le> length rs"
  shows "sst_iter crc (sst_bytes rs) (recs_size (take i rs)) = drop i rs"
  using assms(2)
proof (induction "length rs - i" arbitrary: i)
  case 0
  then have "i = length rs" by simp
  then show ?case
    using assms(1) sst_iter.simps [of crc "sst_bytes rs" "recs_size (take i rs)"]
    by (simp add: table_ok_def)
next
  case (Suc n)
  then have i: "i < length rs" by simp
  have st: "storable crc (rs ! i)" and sz: "recs_size rs < 2 ^ 63"
    using assms(1) i by (auto simp: table_ok_def)
  have split: "rs = take i rs @ rs ! i # drop (Suc i) rs" using i by (simp add: id_take_nth_drop)
  have "drop (recs_size (take i rs)) (concat (map encode rs)) =
      encode (rs ! i) @ concat (map encode (drop (Suc i) rs))"
    by (subst (2) split) (simp add: recs_size_def)
  moreover have "recs_size (take i rs) \<le> length (concat (map encode rs))"
    using recs_size_take [of i rs] by (simp add: recs_size_def)
  ultimately have dec: "decode crc (drop (recs_size (take i rs)) (sst_bytes rs)) =
      Some (rs ! i, 42 + length (key (rs ! i)))"
    using st by (simp add: sst_bytes_layout)
  have next_off: "recs_size (take i rs) + (42 + length (key (rs ! i))) = recs_size (take (Suc i) rs)"
    using i by (simp add: take_Suc_conv_app_nth)
  have "recs_size (take (Suc i) rs) \<le> recs_size rs" by (rule recs_size_take)
  with next_off have "recs_size (take i rs) < recs_size rs" by simp
  then have "sst_iter crc (sst_bytes rs) (recs_size (take i rs)) =
      rs ! i # sst_iter crc (sst_bytes rs) (recs_size (take (Suc i) rs))"
    using dec sz next_off sst_iter.simps [of crc "sst_bytes rs" "recs_size (take i rs)"] by simp
  also have "\<dots> = rs ! i # drop (Suc i) rs"
    using Suc.hyps(1) [of "Suc i"] Suc.hyps(2) i by simp
  finally show ?case using i by (simp add: Cons_nth_drop_Suc)
qed

text \<open>The block chosen for a key starts at a record whose key is at most the target.\<close>

lemma get_block_start:
  assumes "table_ok crc rs"
  shows "\<exists>i. i \<le> length rs \<and> get_block_for_key (sst_bytes rs) target = Inr (recs_size (take i rs)) \<and>
    (i = 0 \<or> i < length rs \<and> key (rs ! i) \<le> target \<and>
       current_block_start_key (write_records (take i rs)) = None)"
proof -
  let ?es = "windex (write_records rs)"
  let ?tw = "takeWhile (\<lambda>e. fst e \<le> target) ?es"
  show ?thesis
  proof (cases "?tw = []")
    case True
    then have "get_block_for_key (sst_bytes rs) target = Inr (recs_size (take 0 rs))"
      by (simp add: get_block_bytes [OF assms] partition_point_def)
    then show ?thesis by blast
  next
    case False
    obtain k off where e: "last ?tw = (k, off)" by (cases "last ?tw")
    have "last ?tw \<in> set ?tw" using False by (rule last_in_set)
    then have mem: "(k, off) \<in> set ?es" and le: "k \<le> target"
      using set_takeWhileD e by fastforce+
    have "?es ! (length ?tw - 1) = (k, off)"
      using False unfolding e [symmetric] by (simp add: last_conv_nth takeWhile_nth)
    then have "get_block_for_key (sst_bytes rs) target = Inr off"
      using False by (simp add: get_block_bytes [OF assms] partition_point_def Let_def)
    with index_entries [OF mem] le show ?thesis by (metis less_imp_le)
  qed
qed

section \<open>Lookups see the visible version\<close>

lemma newest_update:
  "newest (m(q \<mapsto> p)) s =
     (if q \<le> s then Some (case newest m s of None \<Rightarrow> q | Some q' \<Rightarrow> max q q') else newest m s)"
proof (cases "q \<le> s")
  case True
  show ?thesis
  proof (cases "newest m s")
    case None
    then have "newest (m(q \<mapsto> p)) s = Some q" using True by (auto simp: newest_Some newest_None)
    then show ?thesis using True None by simp
  next
    case (Some q')
    then have "newest (m(q \<mapsto> p)) s = Some (max q q')"
      using True unfolding newest_Some by (auto simp: max_def)
    then show ?thesis using True Some by simp
  qed
next
  case False
  then have "{x \<in> dom (m(q \<mapsto> p)). x \<le> s} = {x \<in> dom m. x \<le> s}" by auto
  then show ?thesis using False unfolding newest_def by (simp only:) simp
qed

lemma find_scan_skip:
  "sorted (map key rs) \<Longrightarrow>
     find_scan crc t s rs b bs = find_scan crc t s (filter (\<lambda>r. key r = t) rs) b bs"
proof (induction rs arbitrary: b bs)
  case (Cons r rs)
  show ?case
  proof (cases "key r > t")
    case True
    then have "filter (\<lambda>r. key r = t) (r # rs) = []"
      using Cons.prems by (auto simp: filter_empty_conv)
    then show ?thesis using True by simp
  qed (use Cons in auto)
qed simp

definition seq_map :: "OmniRecord list \<Rightarrow> u64 \<Rightarrow> ptr option" where
  "seq_map rs = map_of (map (\<lambda>r. (seq r, ptr_of r)) rs)"

lemma rec_versions_seq_map: "rec_versions rs k = seq_map (filter (\<lambda>r. key r = k) rs)"
  by (simp add: rec_versions_def seq_map_def)

lemma find_scan_best:
  "(\<forall>r \<in> set rs. key r = t \<and> is_valid crc r) \<Longrightarrow>
     find_scan crc t s rs b bs =
       (case newest (seq_map rs) s of None \<Rightarrow> b
        | Some q \<Rightarrow> if b = None \<or> bs < q then seq_map rs q else b)"
proof (induction rs arbitrary: b bs)
  case Nil
  have "newest (seq_map []) s = None" by (simp add: newest_None seq_map_def)
  then show ?case by simp
next
  case (Cons r rs)
  have m: "seq_map (r # rs) = (seq_map rs)(seq r \<mapsto> ptr_of r)" by (simp add: seq_map_def)
  have n: "newest (seq_map (r # rs)) s =
      (if seq r \<le> s then Some (case newest (seq_map rs) s of None \<Rightarrow> seq r | Some q \<Rightarrow> max (seq r) q)
       else newest (seq_map rs) s)"
    unfolding m by (rule newest_update)
  have mq: "seq_map (r # rs) q = (if q = seq r then Some (ptr_of r) else seq_map rs q)" for q
    by (simp add: m)
  have IH: "find_scan crc t s rs b bs =
       (case newest (seq_map rs) s of None \<Rightarrow> b
        | Some q \<Rightarrow> if b = None \<or> bs < q then seq_map rs q else b)" for b bs
    using Cons by simp
  have r: "key r = t" "is_valid crc r" using Cons.prems by simp_all
  have "find_scan crc t s (r # rs) b bs =
      (case (if seq r \<le> s then Some (case newest (seq_map rs) s of None \<Rightarrow> seq r | Some q \<Rightarrow> max (seq r) q)
             else newest (seq_map rs) s) of
         None \<Rightarrow> b | Some q \<Rightarrow> if b = None \<or> bs < q then seq_map (r # rs) q else b)"
  proof (cases "newest (seq_map rs) s")
    case None
    then show ?thesis using r by (simp add: IH mq)
  next
    case (Some q)
    then have "q \<le> s" by (simp add: newest_Some)
    then show ?thesis using r Some by (cases "seq r \<le> s") (auto simp: IH mq max_def)
  qed
  then show ?case by (simp only: n)
qed

lemma find_scan_visible:
  assumes "sorted (map key rs)" and "\<forall>r \<in> set rs. is_valid crc r"
  shows "find_scan crc t s rs None 0 = visible (rec_versions rs t) s"
proof -
  have "find_scan crc t s (filter (\<lambda>r. key r = t) rs) None 0 =
      visible (seq_map (filter (\<lambda>r. key r = t) rs)) s"
    using assms(2) by (subst find_scan_best) (auto simp: visible_def split: option.split)
  then show ?thesis using find_scan_skip [OF assms(1)] by (simp add: rec_versions_seq_map)
qed

lemma block_start_split:
  assumes "table_ok crc rs" and "block_aligned rs"
  shows "\<exists>i. iter_from crc (sst_bytes rs) target = Inr (drop i rs) \<and>
    (\<forall>r \<in> set (take i rs). key r < target)"
proof -
  obtain i where i: "i \<le> length rs" "get_block_for_key (sst_bytes rs) target = Inr (recs_size (take i rs))"
    and d: "i = 0 \<or> i < length rs \<and> key (rs ! i) \<le> target \<and>
       current_block_start_key (write_records (take i rs)) = None"
    using get_block_start [OF assms(1)] by blast
  have it: "iter_from crc (sst_bytes rs) target = Inr (drop i rs)"
    using i sst_iter_records [OF assms(1)] by (simp add: iter_from_def)
  have "key r < target" if r: "r \<in> set (take i rs)" for r
  proof -
    from r have pos: "0 < i" by (cases i) auto
    with d have "i < length rs" "key (rs ! i) \<le> target" and ne: "key (rs ! (i - 1)) \<noteq> key (rs ! i)"
      using assms(2) by (auto simp: block_aligned_def)
    from r obtain j where j: "j < i" "r = rs ! j" by (auto simp: in_set_conv_nth)
    have mono: "key (rs ! a) \<le> key (rs ! b)" if "a \<le> b" "b < length rs" for a b
      using assms(1) that sorted_nth_mono [of "map key rs" a b] by (simp add: table_ok_def)
    have "key r \<le> key (rs ! (i - 1))" using mono [of j "i - 1"] j \<open>i < length rs\<close> by simp
    also have "\<dots> < key (rs ! i)" using mono [of "i - 1" i] ne \<open>i < length rs\<close> by (simp add: le_neq_trans)
    finally show ?thesis using \<open>key (rs ! i) \<le> target\<close> by simp
  qed
  with it show ?thesis by blast
qed

lemma sst_find_visible:
  assumes "table_ok crc rs" and "block_aligned rs"
  shows "sst_find crc (sst_bytes rs) target s = Inr (visible (rec_versions rs target) s)"
proof -
  obtain i where it: "iter_from crc (sst_bytes rs) target = Inr (drop i rs)"
    and lt: "\<forall>r \<in> set (take i rs). key r < target"
    using block_start_split [OF assms] by blast
  have f: "filter (\<lambda>r. key r = target) (drop i rs) = filter (\<lambda>r. key r = target) rs"
  proof -
    have "filter (\<lambda>r. key r = target) (take i rs) = []" using lt by (auto simp: filter_empty_conv)
    then show ?thesis
      using filter_append [of "\<lambda>r. key r = target" "take i rs" "drop i rs"] by simp
  qed
  have "sorted (map key (drop i rs))" "\<forall>r \<in> set (drop i rs). is_valid crc r"
    using assms(1) by (auto simp: table_ok_def storable_def drop_map [symmetric] sorted_wrt_drop dest: in_set_dropD)
  then show ?thesis
    using it find_scan_visible [of "drop i rs" crc target s] by (simp add: sst_find_def rec_versions_def f)
qed

lemma iter_from_suffix:
  assumes "table_ok crc rs" and "block_aligned rs" and "iter_from crc (sst_bytes rs) start = Inr rs'"
  shows "filter (\<lambda>r. start \<le> key r) rs' = filter (\<lambda>r. start \<le> key r) rs"
proof -
  obtain i where "rs' = drop i rs" and lt: "\<forall>r \<in> set (take i rs). key r < start"
    using block_start_split [OF assms(1,2), of start] assms(3) by auto
  moreover have "filter (\<lambda>r. start \<le> key r) (take i rs) = []" using lt by (auto simp: filter_empty_conv)
  ultimately show ?thesis
    using filter_append [of "\<lambda>r. start \<le> key r" "take i rs" "drop i rs"] by simp
qed

text \<open>A finished table is a level.\<close>

interpretation sst: version_level rec_versions "\<lambda>rs. sst_find crc (sst_bytes rs)"
  "\<lambda>rs. table_ok crc rs \<and> block_aligned rs" for crc
  by unfold_locales (simp add: sst_find_visible)

section \<open>When blocks are aligned\<close>

lemma distinct_keys_aligned:
  assumes "distinct (map key rs)"
  shows "block_aligned rs"
proof -
  have "key (rs ! (i - 1)) \<noteq> key (rs ! i)" if "i \<in> {1..<length rs}" for i
    using that nth_eq_iff_index_eq [OF assms, of "i - 1" i] by (cases i) auto
  then show ?thesis by (simp add: block_aligned_def)
qed

text \<open>A block stays open until it holds 4096 bytes.\<close>

lemma open_block:
  "rs \<noteq> [] \<Longrightarrow> windex (write_records rs) \<noteq> [] \<and>
     (current_block_start_key (write_records rs) = None \<longleftrightarrow>
        snd (last (windex (write_records rs))) + 4096 \<le> recs_size rs) \<and>
     block_size (write_records rs) = 4096"
proof (induction rs rule: rev_induct)
  case (snoc r rs)
  show ?case
  proof (cases "rs = []")
    case True
    then show ?thesis
      by (auto simp: write_records_def writer_new_def writer_append_def Let_def)
  next
    case False
    then show ?thesis
      using snoc.IH writer_out [of rs]
      by (auto simp: write_records_snoc writer_append_def Let_def)
  qed
qed simp

lemma small_table_aligned:
  assumes "recs_size (butlast rs) < 4096"
  shows "block_aligned rs"
proof -
  have "current_block_start_key (write_records (take i rs)) \<noteq> None" if "i \<in> {1..<length rs}" for i
  proof -
    have "take i rs = take i (butlast rs)" using that by (simp add: take_butlast)
    then have "recs_size (take i rs) < 4096"
      using recs_size_take [of i "butlast rs"] assms by simp
    moreover have "take i rs \<noteq> []" using that by auto
    ultimately show ?thesis using open_block [of "take i rs"] by simp
  qed
  then show ?thesis unfolding block_aligned_def by blast
qed

section \<open>A key whose versions span blocks\<close>

lemma last_block_late:
  assumes "4096 \<le> recs_size (butlast rs)"
  shows "0 < snd (last (windex (write_records rs)))"
proof -
  obtain xs r where rs: "rs = xs @ [r]" using assms by (cases rs rule: rev_cases) auto
  then have sz: "4096 \<le> recs_size xs" and "xs \<noteq> []" using assms by auto
  then have o: "current_block_start_key (write_records xs) = None \<longleftrightarrow>
      snd (last (windex (write_records xs))) + 4096 \<le> recs_size xs"
    using open_block [of xs] by blast
  show ?thesis
    using o sz writer_out [of xs] by (auto simp: rs write_records_snoc writer_append_def Let_def)
qed

lemma visible_descending:
  assumes "sorted_wrt (\<lambda>a b. seq b < seq a) (r # rs)" and "seq r \<le> s"
  shows "visible (seq_map (r # rs)) s = Some (ptr_of r)"
proof -
  have "newest (seq_map (r # rs)) s = Some (seq r)"
    using assms by (auto simp: newest_Some seq_map_def less_imp_le dest!: map_of_SomeD)
  then show ?thesis by (simp add: visible_def seq_map_def)
qed

lemma single_key_lookup:
  assumes ok: "table_ok crc rs" and k: "\<forall>r \<in> set rs. key r = k"
    and desc: "sorted_wrt (\<lambda>a b. seq b < seq a) rs" and s: "\<forall>r \<in> set rs. seq r \<le> s"
    and long: "4096 \<le> recs_size (butlast rs)"
  shows "\<exists>i. 0 < i \<and> i < length rs \<and> sst_find crc (sst_bytes rs) k s = Inr (Some (ptr_of (rs ! i)))"
proof -
  let ?es = "windex (write_records rs)"
  have "rs \<noteq> []" using long by auto
  then have ne: "?es \<noteq> []" using open_block by blast
  have "fst e \<le> k" if "e \<in> set ?es" for e
    using that index_entries [of "fst e" "snd e" rs] k by auto
  then have tw: "takeWhile (\<lambda>e. fst e \<le> k) ?es = ?es" by (simp add: takeWhile_eq_all_conv)
  have "get_block_for_key (sst_bytes rs) k = Inr (snd (last ?es))"
    using ne by (simp add: get_block_bytes [OF ok] partition_point_def Let_def last_conv_nth tw)
  moreover obtain i where i: "i < length rs" "snd (last ?es) = recs_size (take i rs)"
    using index_entries [of "fst (last ?es)" "snd (last ?es)" rs] ne by auto
  moreover have "0 < i" using last_block_late [OF long] i(2) by (cases i) auto
  ultimately have "iter_from crc (sst_bytes rs) k = Inr (drop i rs)"
    using sst_iter_records [OF ok, of i] by (simp add: iter_from_def)
  moreover have "find_scan crc k s (drop i rs) None 0 = Some (ptr_of (rs ! i))"
  proof -
    have d: "drop i rs = rs ! i # drop (Suc i) rs" using i(1) by (simp add: Cons_nth_drop_Suc)
    have "sorted_wrt (\<lambda>a b. seq b < seq a) (drop i rs)" using desc by (rule sorted_wrt_drop)
    then have "visible (seq_map (drop i rs)) s = Some (ptr_of (rs ! i))"
      unfolding d by (rule visible_descending) (use s i(1) in simp)
    moreover have "filter (\<lambda>r. key r = k) (drop i rs) = drop i rs"
      using k in_set_dropD [of _ i rs] by (simp add: filter_id_conv)
    moreover have "sorted (map key (drop i rs))" "\<forall>r \<in> set (drop i rs). is_valid crc r"
      using ok by (auto simp: table_ok_def storable_def drop_map [symmetric] sorted_wrt_drop dest: in_set_dropD)
    ultimately show ?thesis
      using find_scan_visible [of "drop i rs" crc k s] by (simp add: rec_versions_seq_map)
  qed
  ultimately have "sst_find crc (sst_bytes rs) k s = Inr (Some (ptr_of (rs ! i)))"
    by (simp add: sst_find_def)
  with i(1) \<open>0 < i\<close> show ?thesis by blast
qed

section \<open>Properties\<close>

text \<open>C12. A table reads back as written. For storable records in key order, whose total size
  leaves the 64-bit offsets exact, iterating the finished file from its start yields exactly
  the records appended, in order, and stops at the index.\<close>

theorem sst_roundtrip:
  assumes "table_ok crc rs"
  shows "sst_iter crc (sst_bytes rs) 0 = rs"
  using sst_iter_records [OF assms, of 0] by simp

definition demo_table :: "OmniRecord list" where
  "demo_table = [record_new (\<lambda>_. 0) 5 [97] 0 3 0 0, record_new (\<lambda>_. 0) 2 [97] 3 1 0 0,
                 record_new (\<lambda>_. 0) 4 [98] 4 2 0 0]"

lemma demo_table_ok [simp]: "table_ok (\<lambda>_. 0) demo_table" "block_aligned demo_table"
  by (simp add: table_ok_def demo_table_def)
    (rule small_table_aligned, simp add: demo_table_def)

theorem sst_roundtrip_witness: "sst_iter (\<lambda>_. 0) (sst_bytes demo_table) 0 = demo_table"
  by (rule sst_roundtrip) simp

text \<open>C11. Lookups in a table are multi-version reads. If no block opens in the middle of the
  versions of a key, a lookup returns the pointer of the newest version at or below the read
  sequence, or nothing if the table holds none, and a scan from a start key sees every record
  at or after it.\<close>

theorem sst_lookup_visible:
  assumes "table_ok crc rs" and "block_aligned rs"
  shows "(\<forall>k s. sst_find crc (sst_bytes rs) k s = Inr (visible (rec_versions rs k) s)) \<and>
    (\<forall>start. \<exists>rs'. iter_from crc (sst_bytes rs) start = Inr rs' \<and>
       filter (\<lambda>r. start \<le> key r) rs' = filter (\<lambda>r. start \<le> key r) rs)"
  using sst.look_visible assms block_start_split [OF assms] iter_from_suffix [OF assms] by blast

theorem sst_lookup_visible_witness:
  "sst_find (\<lambda>_. 0) (sst_bytes demo_table) [97] 4 = Inr (visible (rec_versions demo_table [97]) 4) \<and>
   rec_versions demo_table [97] 2 = Some (3, 1, 0, 0)"
  using sst_lookup_visible [of "\<lambda>_. 0" demo_table]
  by (simp add: rec_versions_def demo_table_def [THEN arg_cong [of _ _ "filter _"]] ptr_of_def)

text \<open>C13. A key with more than one block of versions is read stale. In a table that holds the
  versions of a single key newest first, as a flush writes them, once 4096 bytes precede the
  last version a lookup at any later sequence returns an older version than the newest one the
  table holds: the block search picks the last block that starts with the key.\<close>

theorem sst_stale_version:
  assumes "table_ok crc rs" and "\<forall>r \<in> set rs. key r = k"
    and "sorted_wrt (\<lambda>a b. seq b < seq a) rs" and "\<forall>r \<in> set rs. seq r \<le> s"
    and "4096 \<le> recs_size (butlast rs)"
  shows "visible (rec_versions rs k) s = Some (ptr_of (hd rs)) \<and>
    (\<exists>i. 0 < i \<and> i < length rs \<and> sst_find crc (sst_bytes rs) k s = Inr (Some (ptr_of (rs ! i))))"
proof
  obtain r rs' where "rs = r # rs'" using assms(5) by (cases rs) auto
  moreover have "filter (\<lambda>r. key r = k) rs = rs" using assms(2) by (simp add: filter_id_conv)
  ultimately show "visible (rec_versions rs k) s = Some (ptr_of (hd rs))"
    using assms(3,4) visible_descending [of r rs' s] by (simp add: rec_versions_seq_map)
qed (rule single_key_lookup [OF assms])

definition hot_key_table :: "OmniRecord list" where
  "hot_key_table = map (\<lambda>i. record_new (\<lambda>_. 0) (word_of_nat (200 - i)) [107] (word_of_nat i) 1 0 0) [0..<100]"

lemma recs_size_const: "(\<forall>r \<in> set rs. length (key r) = n) \<Longrightarrow> recs_size rs = length rs * (42 + n)"
  by (induction rs) auto

theorem sst_stale_version_witness:
  "visible (rec_versions hot_key_table [107]) 1000 = Some (ptr_of (hd hot_key_table)) \<and>
    (\<exists>i. 0 < i \<and> i < length hot_key_table \<and>
       sst_find (\<lambda>_. 0) (sst_bytes hot_key_table) [107] 1000 = Inr (Some (ptr_of (hot_key_table ! i))))"
proof (rule sst_stale_version)
  show keys: "\<forall>r \<in> set hot_key_table. key r = [107]" by (auto simp: hot_key_table_def)
  have len: "length hot_key_table = 100" by (simp add: hot_key_table_def)
  have "\<forall>r \<in> set (butlast hot_key_table). length (key r) = 1"
    using keys by (auto dest: in_set_butlastD)
  then have "recs_size hot_key_table = 4300" "recs_size (butlast hot_key_table) = 4257"
    using keys recs_size_const [of hot_key_table 1] recs_size_const [of "butlast hot_key_table" 1]
    by (simp_all add: len)
  moreover have "map key hot_key_table = replicate 100 [107]"
    by (simp add: hot_key_table_def map_replicate_const comp_def)
  ultimately show "table_ok (\<lambda>_. 0) hot_key_table" "4096 \<le> recs_size (butlast hot_key_table)"
    by (auto simp: table_ok_def hot_key_table_def)
  have "(word_of_nat (200 - j) :: u64) < word_of_nat (200 - i)" if "i < j" "j < 100" for i j
    using that by (simp add: word_less_nat_alt unat_of_nat del: of_nat_diff)
  then show "sorted_wrt (\<lambda>a b. seq b < seq a) hot_key_table"
    by (simp add: hot_key_table_def sorted_wrt_iff_nth_less)
  have "(word_of_nat (200 - i) :: u64) \<le> 1000" if "i < 100" for i
    using that by (simp add: word_le_nat_alt unat_of_nat del: of_nat_diff)
  then show "\<forall>r \<in> set hot_key_table. seq r \<le> 1000" by (auto simp: hot_key_table_def)
qed

end
