(* ===== verification/Bloom.thy ===== *)
theory Bloom
  imports Omni_Prelude
begin

text \<open>
  Hashing and Bloom filters of \<^verbatim>\<open>storage/core.rs\<close>: the FNV-1a hasher, the shard a key
  belongs to, and the filter each sorted table carries. Hashing a byte slice feeds the
  hasher its length as eight little-endian bytes and then the bytes, as Rust's
  \<^verbatim>\<open>Hash for [u8]\<close> does on a 64-bit target. \<^verbatim>\<open>BloomFilter::new\<close> sizes the filter with
  floating-point logarithms; the two sizes it computes are the argument \<open>dims\<close>.

  The lemmas show that every filter built by the engine is well formed, that no operation on
  it runs out of range, and that a key that was added is never reported absent.
\<close>

unbundle bit_operations_syntax

section \<open>FNV-1a\<close>

definition fnv_default :: u64 where
  "fnv_default = 0xcbf29ce484222325"

definition fnv_write :: "u64 \<Rightarrow> bytes \<Rightarrow> u64" where
  "fnv_write h bs = fold (\<lambda>b h. (h XOR ucast b) * 0x100000001b3) bs h"

definition hash_key :: "bytes \<Rightarrow> u64" where
  "hash_key k = fnv_write (fnv_write fnv_default (u64_le (word_of_nat (length k)))) k"

definition hash_u64 :: "u64 \<Rightarrow> u64" where
  "hash_u64 k = fnv_write fnv_default (u64_le k)"

definition NUM_SHARDS :: nat where
  "NUM_SHARDS = 16"

definition shard_idx :: "bytes \<Rightarrow> nat" where
  "shard_idx k = unat (hash_key k) mod NUM_SHARDS"

section \<open>The filter\<close>

record BloomFilter =
  bitset :: "u64 list"
  num_bits :: nat
  num_hashes :: nat

text \<open>\<open>dims n\<close> is the pair of bit count and hash count computed for \<open>n\<close> elements.\<close>

definition bloom_new :: "(nat \<Rightarrow> nat \<times> nat) \<Rightarrow> nat \<Rightarrow> BloomFilter" where
  "bloom_new dims n =
     (let (bits, hs) = dims n; bs = replicate ((bits + 63) div 64) 0
      in \<lparr>bitset = bs, num_bits = length bs * 64, num_hashes = hs\<rparr>)"

definition hashes :: "BloomFilter \<Rightarrow> u64 \<Rightarrow> nat list" where
  "hashes bf k =
     (let hash1 = hash_u64 k; hash2 = hash_u64 hash1
      in map (\<lambda>i. unat (hash1 + word_of_nat i * hash2) mod num_bits bf) [0..<num_hashes bf])"

fun set_bits :: "nat list \<Rightarrow> u64 list \<Rightarrow> u64 list result" where
  "set_bits [] bs = Inr bs"
| "set_bits (i # is) bs =
     (if i div 64 < length bs
      then set_bits is (bs[i div 64 := (bs ! (i div 64)) OR push_bit (i mod 64) 1])
      else Inl Panic)"

definition bloom_add :: "u64 \<Rightarrow> BloomFilter \<Rightarrow> BloomFilter result" where
  "bloom_add k bf =
     (if num_bits bf = 0 then Inr bf
      else bind_res (set_bits (hashes bf k) (bitset bf)) (\<lambda>bs. Inr (bf\<lparr>bitset := bs\<rparr>)))"

fun test_bits :: "nat list \<Rightarrow> u64 list \<Rightarrow> bool result" where
  "test_bits [] bs = Inr True"
| "test_bits (i # is) bs =
     (if i div 64 < length bs
      then (if (bs ! (i div 64)) AND push_bit (i mod 64) 1 = 0 then Inr False else test_bits is bs)
      else Inl Panic)"

definition might_contain :: "BloomFilter \<Rightarrow> u64 \<Rightarrow> bool result" where
  "might_contain bf k = (if num_bits bf = 0 then Inr False else test_bits (hashes bf k) (bitset bf))"

text \<open>The loop every table writer runs over the keys of its records.\<close>

fun bloom_add_keys :: "bytes list \<Rightarrow> BloomFilter \<Rightarrow> BloomFilter result" where
  "bloom_add_keys [] bf = Inr bf"
| "bloom_add_keys (k # ks) bf = bind_res (bloom_add (hash_key k) bf) (bloom_add_keys ks)"

section \<open>Shards\<close>

lemma shard_idx_less [simp]: "shard_idx k < NUM_SHARDS"
  by (simp add: shard_idx_def NUM_SHARDS_def)

section \<open>Well-formed filters\<close>

definition bloom_wf :: "BloomFilter \<Rightarrow> bool" where
  "bloom_wf bf \<longleftrightarrow> num_bits bf = 64 * length (bitset bf) \<and> 0 < num_bits bf"

definition has_bit :: "u64 list \<Rightarrow> nat \<Rightarrow> bool" where
  "has_bit bs i \<longleftrightarrow> i div 64 < length bs \<and> bit (bs ! (i div 64)) (i mod 64)"

definition covers :: "BloomFilter \<Rightarrow> u64 \<Rightarrow> bool" where
  "covers bf k \<longleftrightarrow> (\<forall>i \<in> set (hashes bf k). has_bit (bitset bf) i)"

lemma bloom_new_wf: "0 < fst (dims n) \<Longrightarrow> bloom_wf (bloom_new dims n)"
  by (cases "dims n") (auto simp: bloom_new_def bloom_wf_def Let_def div_greater_zero_iff)

lemma hashes_bound: "bloom_wf bf \<Longrightarrow> i \<in> set (hashes bf k) \<Longrightarrow> i div 64 < length (bitset bf)"
  by (auto simp: hashes_def bloom_wf_def Let_def div_less_iff_less_mult mult.commute [of _ 64])

lemma set_bits_ok:
  assumes "\<forall>i \<in> set is. i div 64 < length bs"
  shows "\<exists>bs'. set_bits is bs = Inr bs' \<and> length bs' = length bs \<and>
    (\<forall>j. has_bit bs' j \<longleftrightarrow> has_bit bs j \<or> j \<in> set is)"
  using assms
proof (induction "is" arbitrary: bs)
  case (Cons i "is")
  let ?b = "bs[i div 64 := (bs ! (i div 64)) OR push_bit (i mod 64) 1]"
  obtain bs' where bs': "set_bits is ?b = Inr bs'" "length bs' = length ?b"
    "\<forall>j. has_bit bs' j \<longleftrightarrow> has_bit ?b j \<or> j \<in> set is"
    using Cons.IH [of ?b] Cons.prems by auto
  have "has_bit ?b j \<longleftrightarrow> has_bit bs j \<or> j = i" for j
  proof -
    have "i div 64 < length bs" using Cons.prems by simp
    moreover have "j div 64 = i div 64 \<Longrightarrow> j mod 64 = i mod 64 \<Longrightarrow> j = i"
      by (metis div_mult_mod_eq)
    ultimately show ?thesis
      by (auto simp: has_bit_def nth_list_update bit_or_iff push_bit_of_1 bit_exp_iff)
  qed
  with bs' Cons.prems show ?case by auto
qed simp

lemma test_bits_has_bit:
  assumes "\<forall>i \<in> set is. i div 64 < length bs"
  shows "test_bits is bs = Inr (\<forall>i \<in> set is. has_bit bs i)"
  using assms
  by (induction "is") (auto simp: has_bit_def push_bit_of_1 and_exp_eq_0_iff_not_bit)

lemma might_contain_iff: "bloom_wf bf \<Longrightarrow> might_contain bf k = Inr (covers bf k)"
  by (auto simp: might_contain_def covers_def bloom_wf_def
      intro!: test_bits_has_bit dest: hashes_bound [rotated])

lemma bloom_add_ok:
  assumes "bloom_wf bf"
  shows "\<exists>bf'. bloom_add k bf = Inr bf' \<and> bloom_wf bf' \<and> covers bf' k \<and>
    (\<forall>k'. covers bf k' \<longrightarrow> covers bf' k')"
proof -
  have "\<forall>i \<in> set (hashes bf k). i div 64 < length (bitset bf)"
    using assms by (auto dest: hashes_bound)
  then obtain bs where bs: "set_bits (hashes bf k) (bitset bf) = Inr bs" "length bs = length (bitset bf)"
    "\<forall>j. has_bit bs j \<longleftrightarrow> has_bit (bitset bf) j \<or> j \<in> set (hashes bf k)"
    using set_bits_ok by blast
  have h: "hashes (bf\<lparr>bitset := bs\<rparr>) k' = hashes bf k'" for k' by (simp add: hashes_def)
  show ?thesis
    using assms bs by (auto simp: bloom_add_def bloom_wf_def covers_def h)
qed

lemma bloom_add_keys_ok:
  assumes "bloom_wf bf"
  shows "\<exists>bf'. bloom_add_keys ks bf = Inr bf' \<and> bloom_wf bf' \<and>
    (\<forall>k \<in> set ks. covers bf' (hash_key k)) \<and> (\<forall>h. covers bf h \<longrightarrow> covers bf' h)"
  using assms
proof (induction ks arbitrary: bf)
  case (Cons k ks)
  obtain bf1 where 1: "bloom_add (hash_key k) bf = Inr bf1" "bloom_wf bf1" "covers bf1 (hash_key k)"
    "\<forall>h. covers bf h \<longrightarrow> covers bf1 h" using bloom_add_ok [OF Cons.prems] by blast
  obtain bf2 where "bloom_add_keys ks bf1 = Inr bf2" "bloom_wf bf2"
    "\<forall>k \<in> set ks. covers bf2 (hash_key k)" "\<forall>h. covers bf1 h \<longrightarrow> covers bf2 h"
    using Cons.IH [OF 1(2)] by blast
  with 1 show ?case by auto
qed simp

section \<open>Properties\<close>

text \<open>C14. No false negatives. For any positive bit count the sizing yields, building a filter
  and adding any list of keys succeeds without an out-of-range access, and the finished
  filter answers that it might contain each of those keys; and whatever key is asked for, the
  question itself is answered, never a panic.\<close>

theorem bloom_no_false_negatives:
  assumes "0 < fst (dims n)"
  shows "\<exists>bf. bloom_add_keys ks (bloom_new dims n) = Inr bf \<and>
    (\<forall>k \<in> set ks. might_contain bf (hash_key k) = Inr True) \<and>
    (\<forall>h. \<exists>b. might_contain bf h = Inr b)"
  using bloom_add_keys_ok [OF bloom_new_wf [of dims n, OF assms], of ks] by (auto simp: might_contain_iff)

theorem bloom_no_false_negatives_witness:
  "\<exists>bf. bloom_add_keys [[97], [98, 99]] (bloom_new (\<lambda>_. (959, 7)) 100) = Inr bf \<and>
    (\<forall>k \<in> set [[97], [98, 99]]. might_contain bf (hash_key k) = Inr True) \<and>
    (\<forall>h. \<exists>b. might_contain bf h = Inr b)"
  by (rule bloom_no_false_negatives) simp

end
