(* ===== verification/Utf8.thy ===== *)
theory Utf8
  imports Omni_Prelude
begin

text \<open>
  Rust strings. A \<^verbatim>\<open>String\<close> holds valid UTF-8; the engine turns stored bytes back into
  strings with \<^verbatim>\<open>String::from_utf8_lossy\<close>, which copies valid sequences and replaces each
  maximal invalid part by U+FFFD. The lemmas say when that conversion is the identity, and
  that it never produces an ASCII string from other bytes, which is what the engine's test
  for the commit marker relies on.
\<close>

definition cont :: "u8 \<Rightarrow> bool" where
  "cont b \<longleftrightarrow> 0x80 \<le> b \<and> b \<le> 0xBF"

text \<open>The byte after position \<open>i\<close>, or 0 past the end, as the standard library reads it.\<close>

definition safe_get :: "bytes \<Rightarrow> nat \<Rightarrow> u8" where
  "safe_get bs i = (if i < length bs then bs ! i else 0)"

text \<open>How many bytes after the first one belong to the sequence, and whether it is valid.\<close>

definition utf8_step :: "u8 \<Rightarrow> bytes \<Rightarrow> nat \<times> bool" where
  "utf8_step b bs =
     (if b < 0x80 then (0, True)
      else if 0xC2 \<le> b \<and> b \<le> 0xDF then
        (if cont (safe_get bs 0) then (1, True) else (0, False))
      else if 0xE0 \<le> b \<and> b \<le> 0xEF then
        (let c = safe_get bs 0 in
         if (b = 0xE0 \<and> 0xA0 \<le> c \<and> c \<le> 0xBF) \<or>
            (0xE1 \<le> b \<and> b \<le> 0xEC \<and> cont c) \<or>
            (b = 0xED \<and> 0x80 \<le> c \<and> c \<le> 0x9F) \<or>
            (0xEE \<le> b \<and> cont c)
         then (if cont (safe_get bs 1) then (2, True) else (1, False))
         else (0, False))
      else if 0xF0 \<le> b \<and> b \<le> 0xF4 then
        (let c = safe_get bs 0 in
         if (b = 0xF0 \<and> 0x90 \<le> c \<and> c \<le> 0xBF) \<or>
            (0xF1 \<le> b \<and> b \<le> 0xF3 \<and> cont c) \<or>
            (b = 0xF4 \<and> 0x80 \<le> c \<and> c \<le> 0x8F)
         then (if cont (safe_get bs 1)
               then (if cont (safe_get bs 2) then (3, True) else (2, False))
               else (1, False))
         else (0, False))
      else (0, False))"

function utf8_lossy :: "bytes \<Rightarrow> bytes" where
  "utf8_lossy [] = []"
| "utf8_lossy (b # bs) =
     (case utf8_step b bs of (n, ok) \<Rightarrow>
        (if ok then b # take n bs else [0xEF, 0xBF, 0xBD]) @ utf8_lossy (drop n bs))"
  by pat_completeness auto
termination
  by (relation "measure length") auto

function utf8_valid :: "bytes \<Rightarrow> bool" where
  "utf8_valid [] = True"
| "utf8_valid (b # bs) =
     (case utf8_step b bs of (n, ok) \<Rightarrow> ok \<and> utf8_valid (drop n bs))"
  by pat_completeness auto
termination
  by (relation "measure length") auto

definition ascii :: "bytes \<Rightarrow> bool" where
  "ascii bs \<longleftrightarrow> (\<forall>b \<in> set bs. b < 0x80)"

lemma utf8_step_ascii [simp]: "b < 0x80 \<Longrightarrow> utf8_step b bs = (0, True)"
  by (simp add: utf8_step_def)

lemma utf8_lossy_valid: "utf8_valid bs \<Longrightarrow> utf8_lossy bs = bs"
  by (induction bs rule: utf8_valid.induct) (auto split: prod.splits)

lemma ascii_utf8_valid: "ascii bs \<Longrightarrow> utf8_valid bs"
  by (induction bs) (auto simp: ascii_def)

lemma utf8_lossy_ascii_iff:
  assumes "ascii m"
  shows "utf8_lossy bs = m \<longleftrightarrow> bs = m"
proof
  assume "utf8_lossy bs = m"
  with assms have "ascii (utf8_lossy bs)" by simp
  then have "utf8_lossy bs = bs"
  proof (induction bs rule: utf8_lossy.induct)
    case (2 b bs)
    obtain n ok where s: "utf8_step b bs = (n, ok)" by force
    have ok: "ok" and b: "b < 0x80"
      using "2.prems" by (cases ok; simp add: s ascii_def)+
    then have "n = 0" using s by simp
    then have "ascii (utf8_lossy bs)" using "2.prems" s ok by (simp add: ascii_def)
    with "2.IH" [OF s [symmetric]] \<open>n = 0\<close> s ok show ?case by simp
  qed simp
  with \<open>utf8_lossy bs = m\<close> show "bs = m" by simp
next
  assume "bs = m"
  then show "utf8_lossy bs = m" using assms by (simp add: ascii_utf8_valid utf8_lossy_valid)
qed

section \<open>Trimming\<close>

text \<open>\<^verbatim>\<open>str::trim\<close> removes characters with the Unicode property White\_Space from both ends; these
  are their UTF-8 encodings.\<close>

definition white_space :: "bytes list" where
  "white_space =
     [[0x09], [0x0A], [0x0B], [0x0C], [0x0D], [0x20], [0xC2, 0x85], [0xC2, 0xA0],
      [0xE1, 0x9A, 0x80], [0xE2, 0x80, 0x80], [0xE2, 0x80, 0x81], [0xE2, 0x80, 0x82],
      [0xE2, 0x80, 0x83], [0xE2, 0x80, 0x84], [0xE2, 0x80, 0x85], [0xE2, 0x80, 0x86],
      [0xE2, 0x80, 0x87], [0xE2, 0x80, 0x88], [0xE2, 0x80, 0x89], [0xE2, 0x80, 0x8A],
      [0xE2, 0x80, 0xA8], [0xE2, 0x80, 0xA9], [0xE2, 0x80, 0xAF], [0xE2, 0x81, 0x9F],
      [0xE3, 0x80, 0x80]]"

definition strip_one :: "bytes list \<Rightarrow> bytes \<Rightarrow> bytes option" where
  "strip_one ws s = (case filter (\<lambda>w. take (length w) s = w) ws of
     [] \<Rightarrow> None | w # _ \<Rightarrow> Some (drop (length w) s))"

fun strip_n :: "nat \<Rightarrow> bytes list \<Rightarrow> bytes \<Rightarrow> bytes" where
  "strip_n 0 ws s = s"
| "strip_n (Suc n) ws s = (case strip_one ws s of None \<Rightarrow> s | Some s' \<Rightarrow> strip_n n ws s')"

definition trim :: "bytes \<Rightarrow> bytes" where
  "trim s = (let a = strip_n (length s) white_space s
             in rev (strip_n (length a) (map rev white_space) (rev a)))"

end
