(* ===== verification/Wal.thy ===== *)
theory Wal
  imports Omni_Record Utf8
begin

text \<open>
  The write-ahead log of \<^verbatim>\<open>storage/wal.rs\<close>. A log is the bytes of its file together with
  what the process knows of it: the \<^verbatim>\<open>BufWriter\<close> contents, the write position (\<open>None\<close>
  for a handle in append mode), the length known to be on stable storage and the bytes
  appended since. Every system call that can fail takes its outcome as an argument.

  The lemmas show that replay inverts appending, that it stops at a torn tail without
  inventing or dropping anything before it, that it only ever returns records of a complete,
  checksummed batch that ends in the commit marker, and that the operations refine a log of
  durable and pending batches, so that a crash loses only batches never synced.
\<close>

section \<open>State and operations\<close>

record WriteAheadLog =
  wal_file :: bytes
  wal_cursor :: "nat option"
  wal_buf :: bytes
  durable_offset :: nat
  pending :: nat

text \<open>Outcome of pushing buffered bytes into the file: all of them, or a failure after
  \<open>n\<close> bytes, the rest kept in the buffer or not.\<close>

datatype flush_io = Flushed | FlushFailed nat bool

definition put_file :: "bytes \<Rightarrow> WriteAheadLog \<Rightarrow> WriteAheadLog" where
  "put_file bs w = (case wal_cursor w of
       None \<Rightarrow> w\<lparr>wal_file := wal_file w @ bs\<rparr>
     | Some c \<Rightarrow> w\<lparr>wal_file := write_at c bs (wal_file w), wal_cursor := Some (c + length bs)\<rparr>)"

definition wal_write :: "flush_io \<Rightarrow> bytes \<Rightarrow> WriteAheadLog \<Rightarrow> bool \<times> WriteAheadLog" where
  "wal_write io bs w =
     (let all = wal_buf w @ bs in case io of
        Flushed \<Rightarrow> (True, (put_file all w)\<lparr>wal_buf := []\<rparr>)
      | FlushFailed n keep \<Rightarrow>
          (False, (put_file (take n all) w)\<lparr>wal_buf := (if keep then drop n all else [])\<rparr>))"

definition wal_new :: "bytes \<Rightarrow> WriteAheadLog" where
  "wal_new f = \<lparr>wal_file = f, wal_cursor = None, wal_buf = [], durable_offset = length f, pending = 0\<rparr>"

definition batch_body :: "OmniRecord list \<Rightarrow> bytes" where
  "batch_body rs = u32_le (word_of_nat (length rs)) @ concat (map encode rs)"

definition batch_bytes :: "(bytes \<Rightarrow> u32) \<Rightarrow> OmniRecord list \<Rightarrow> bytes" where
  "batch_bytes crc rs = batch_body rs @ u32_le (crc (batch_body rs))"

definition append_batch_nosync ::
  "(bytes \<Rightarrow> u32) \<Rightarrow> flush_io \<Rightarrow> OmniRecord list \<Rightarrow> WriteAheadLog \<Rightarrow> unit result \<times> WriteAheadLog" where
  "append_batch_nosync crc io rs w =
     (case wal_write io (batch_bytes crc rs) w of
        (False, w') \<Rightarrow> (Inl (Err (IoError ''WAL write batch'')), w')
      | (True, w') \<Rightarrow> (Inr (), w'\<lparr>pending := pending w' + length (batch_body rs) + 4\<rparr>))"

definition mark_pending_durable :: "WriteAheadLog \<Rightarrow> WriteAheadLog" where
  "mark_pending_durable w = w\<lparr>durable_offset := durable_offset w + pending w, pending := 0\<rparr>"

definition wal_sync :: "bool \<Rightarrow> WriteAheadLog \<Rightarrow> unit result \<times> WriteAheadLog" where
  "wal_sync ok w =
     (if ok then (Inr (), mark_pending_durable w) else (Inl (Err (IoError ''WAL fsync'')), w))"

definition append_batch ::
  "(bytes \<Rightarrow> u32) \<Rightarrow> flush_io \<Rightarrow> bool \<Rightarrow> OmniRecord list \<Rightarrow> WriteAheadLog
   \<Rightarrow> unit result \<times> WriteAheadLog" where
  "append_batch crc io ok rs w =
     (case append_batch_nosync crc io rs w of
        (Inl e, w') \<Rightarrow> (Inl e, w')
      | (Inr _, w') \<Rightarrow> wal_sync ok w')"

text \<open>\<open>discard_undurable\<close>: flush, reopen, truncate, sync, seek to the end. The last four
  calls fail together in the model (\<open>ok\<close>); a truncation that happened stays.\<close>

datatype trunc_io = Truncated | OpenFailed | TruncSyncFailed

definition discard_undurable ::
  "flush_io \<Rightarrow> trunc_io \<Rightarrow> WriteAheadLog \<Rightarrow> unit result \<times> WriteAheadLog" where
  "discard_undurable io t w =
     (case wal_write io [] w of
        (False, w') \<Rightarrow> (Inl (Err (IoError ''WAL flush before truncate'')), w')
      | (True, w') \<Rightarrow>
          (let f' = set_len (durable_offset w') (wal_file w') in case t of
             OpenFailed \<Rightarrow> (Inl (Err (IoError ''WAL reopen for truncate'')), w')
           | TruncSyncFailed \<Rightarrow> (Inl (Err (IoError ''WAL truncate fsync'')), w'\<lparr>wal_file := f'\<rparr>)
           | Truncated \<Rightarrow>
               (Inr (), w'\<lparr>wal_file := f', wal_cursor := Some (length f'), pending := 0\<rparr>)))"

text \<open>\<open>rotate_segment\<close>: truncate the file and replace the writer. Dropping the old
  writer pushes whatever it still buffered through the old handle.\<close>

definition rotate_segment :: "bool \<Rightarrow> WriteAheadLog \<Rightarrow> unit result \<times> WriteAheadLog" where
  "rotate_segment ok w =
     (if \<not> ok then (Inl (Err (IoError ''WAL rotate'')), w)
      else (Inr (), (if wal_buf w = [] then w\<lparr>wal_file := []\<rparr>
                     else put_file (wal_buf w) (w\<lparr>wal_file := []\<rparr>))
              \<lparr>wal_cursor := Some 0, wal_buf := [], durable_offset := 0, pending := 0\<rparr>))"

definition wal_clear :: "bool \<Rightarrow> WriteAheadLog \<Rightarrow> unit result \<times> WriteAheadLog" where
  "wal_clear = rotate_segment"

section \<open>Replay\<close>

text \<open>The marker key, \<^verbatim>\<open>"__COMMIT_MARKER__"\<close>, in ASCII.\<close>

definition COMMIT_MARKER :: bytes where
  "COMMIT_MARKER = [95, 95, 67, 79, 77, 77, 73, 84, 95, 77, 65, 82, 75, 69, 82, 95, 95]"

definition is_marker :: "OmniRecord \<Rightarrow> bool" where
  "is_marker r \<longleftrightarrow> utf8_lossy (key r) = COMMIT_MARKER"

fun decode_records :: "(bytes \<Rightarrow> u32) \<Rightarrow> nat \<Rightarrow> bytes \<Rightarrow> (OmniRecord list \<times> bytes) option" where
  "decode_records crc 0 d = Some ([], d)"
| "decode_records crc (Suc n) d =
     (if d = [] then None
      else case decode crc d of
        None \<Rightarrow> None
      | Some (r, len) \<Rightarrow> (case decode_records crc n (drop len d) of
            None \<Rightarrow> None
          | Some (rs, rest) \<Rightarrow> Some (r # rs, rest)))"

lemma decode_records_length:
  "decode_records crc n d = Some (rs, rest) \<Longrightarrow> length rest \<le> length d"
  by (induction n arbitrary: d rs) (fastforce split: if_splits option.splits prod.splits)+

text \<open>The replay loop on the rest of the file from the current offset. A batch whose checksum
  does not match is skipped; a batch without the commit marker contributes nothing; an
  implausible count, an undecodable record or a missing trailer ends the replay.\<close>

function replay_loop :: "(bytes \<Rightarrow> u32) \<Rightarrow> bytes \<Rightarrow> OmniRecord list" where
  "replay_loop crc d =
     (if length d < 4 then []
      else let count = unat (le_u32 (take 4 d)) in
        if count > 100000 \<or> count = 0 then []
        else case decode_records crc count (drop 4 d) of
          None \<Rightarrow> []
        | Some (rs, rest) \<Rightarrow>
            if length rest < 4 then []
            else if le_u32 (take 4 rest) \<noteq> crc (take (length d - length rest) d)
            then replay_loop crc (drop 4 rest)
            else (if is_marker (last rs) then butlast rs else []) @ replay_loop crc (drop 4 rest))"
  by pat_completeness auto
termination
  by (relation "measure (length \<circ> snd)") (auto dest!: decode_records_length)

declare replay_loop.simps [simp del]

text \<open>What opening and reading the log file yielded. A file that opens but cannot be read is
  treated as an empty log.\<close>

datatype log_read = LogMissing | LogOpenError | LogReadError | LogContents bytes

fun replay :: "(bytes \<Rightarrow> u32) \<Rightarrow> log_read \<Rightarrow> OmniRecord list result" where
  "replay crc LogMissing = Inr []"
| "replay crc LogOpenError = Inl (Err (IoError ''WAL replay open''))"
| "replay crc LogReadError = Inr []"
| "replay crc (LogContents d) = Inr (replay_loop crc d)"

section \<open>Well-formed batches\<close>

definition wf_batch :: "(bytes \<Rightarrow> u32) \<Rightarrow> OmniRecord list \<Rightarrow> bool" where
  "wf_batch crc rs \<longleftrightarrow> rs \<noteq> [] \<and> length rs \<le> 100000 \<and> (\<forall>r \<in> set rs. storable crc r)"

definition committed_batch :: "(bytes \<Rightarrow> u32) \<Rightarrow> OmniRecord list \<Rightarrow> bool" where
  "committed_batch crc rs \<longleftrightarrow> wf_batch crc rs \<and> is_marker (last rs)"

definition log_bytes :: "(bytes \<Rightarrow> u32) \<Rightarrow> OmniRecord list list \<Rightarrow> bytes" where
  "log_bytes crc bs = concat (map (batch_bytes crc) bs)"

lemma length_batch_bytes [length_simps]:
  "length (batch_bytes crc rs) = length (batch_body rs) + 4"
  by (simp add: batch_bytes_def)

lemma ascii_marker: "ascii COMMIT_MARKER"
  by (simp add: ascii_def COMMIT_MARKER_def)

lemma is_marker_iff: "is_marker r \<longleftrightarrow> key r = COMMIT_MARKER"
  by (simp add: is_marker_def utf8_lossy_ascii_iff ascii_marker)

lemma decode_records_encode [codec_simps]:
  "\<forall>r \<in> set rs. storable crc r \<Longrightarrow>
     decode_records crc (length rs) (concat (map encode rs) @ rest) = Some (rs, rest)"
proof (induction rs)
  case (Cons r rs)
  have "encode r \<noteq> []" using length_encode [of r] by (metis add_is_0 list.size(3) zero_neq_numeral)
  with Cons show ?case by simp
qed simp

lemma decode_records_torn:
  "\<forall>r \<in> set rs. storable crc r \<Longrightarrow> m < length (concat (map encode rs)) \<Longrightarrow>
     decode_records crc (length rs) (take m (concat (map encode rs))) = None"
proof (induction rs arbitrary: m)
  case (Cons r rs)
  show ?case
  proof (cases "m < length (encode r)")
    case True
    then show ?thesis
      using Cons.prems decode_truncated [of r m crc] by (simp add: storable_def)
  next
    case False
    then have "decode_records crc (length rs)
        (take (m - length (encode r)) (concat (map encode rs))) = None"
      using Cons.prems by (intro Cons.IH) auto
    then show ?thesis using False Cons.prems by simp
  qed
qed simp

lemma batch_count:
  "wf_batch crc rs \<Longrightarrow> unat (le_u32 (u32_le (word_of_nat (length rs)))) = length rs"
  by (simp add: wf_batch_def unat_of_nat)

lemma replay_batch [codec_simps]:
  assumes "wf_batch crc rs"
  shows "replay_loop crc (batch_bytes crc rs @ d) =
    (if is_marker (last rs) then butlast rs else []) @ replay_loop crc d"
proof -
  have rs: "length rs \<le> 100000" "rs \<noteq> []" "\<forall>r \<in> set rs. storable crc r"
    using assms by (auto simp: wf_batch_def)
  let ?rest = "u32_le (crc (batch_body rs)) @ d"
  have "decode_records crc (length rs) (concat (map encode rs) @ ?rest) = Some (rs, ?rest)"
    using rs(3) by (rule decode_records_encode)
  then show ?thesis
    using rs(1,2) batch_count [OF assms]
    by (subst replay_loop.simps)
      (simp add: batch_bytes_def batch_body_def Let_def)
qed

lemma replay_torn [codec_simps]:
  assumes "wf_batch crc rs" and "n < length (batch_bytes crc rs)"
  shows "replay_loop crc (take n (batch_bytes crc rs)) = []"
proof (cases "n < 4")
  case False
  have rs: "\<forall>r \<in> set rs. storable crc r" using assms(1) by (simp add: wf_batch_def)
  let ?recs = "concat (map encode rs)"
  let ?tl = "take (n - 4) (?recs @ u32_le (crc (batch_body rs)))"
  have "case decode_records crc (length rs) ?tl of None \<Rightarrow> True | Some (xs, r) \<Rightarrow> length r < 4"
  proof (cases "n - 4 < length ?recs")
    case True
    then show ?thesis using decode_records_torn [OF rs True] by simp
  next
    case False
    then have "?tl = ?recs @ take (n - 4 - length ?recs) (u32_le (crc (batch_body rs)))" by simp
    then show ?thesis
      using decode_records_encode [OF rs, of "take (n - 4 - length ?recs) (u32_le (crc (batch_body rs)))"]
        assms(2) False by (simp add: batch_bytes_def batch_body_def)
  qed
  then show ?thesis
    using batch_count [OF assms(1)] False
    by (subst replay_loop.simps)
      (auto simp: batch_bytes_def batch_body_def Let_def split: option.splits prod.splits)
qed (simp add: replay_loop.simps min_less_iff_disj)

lemma replay_empty [simp]: "replay_loop crc [] = []"
  by (simp add: replay_loop.simps)

lemma replay_log:
  "\<forall>b \<in> set bs. committed_batch crc b \<Longrightarrow>
     replay_loop crc (log_bytes crc bs @ t) = concat (map butlast bs) @ replay_loop crc t"
  by (induction bs) (auto simp: log_bytes_def committed_batch_def replay_batch)

text \<open>Cutting a log anywhere leaves some whole batches and a torn one.\<close>

lemma take_log_bytes:
  "\<exists>k t. take n (log_bytes crc bs) = log_bytes crc (take k bs) @ t \<and>
     (t = [] \<or> (\<exists>b \<in> set bs. \<exists>m < length (batch_bytes crc b). t = take m (batch_bytes crc b)))"
proof (induction bs arbitrary: n)
  case (Cons b bs)
  show ?case
  proof (cases "n < length (batch_bytes crc b)")
    case True
    then show ?thesis by (intro exI [of _ 0]) (auto simp: log_bytes_def)
  next
    case False
    obtain k t where "take (n - length (batch_bytes crc b)) (log_bytes crc bs) = log_bytes crc (take k bs) @ t"
      and "t = [] \<or> (\<exists>b \<in> set bs. \<exists>m < length (batch_bytes crc b). t = take m (batch_bytes crc b))"
      using Cons.IH by blast
    then show ?thesis
      using False by (intro exI [of _ "Suc k"] exI [of _ t]) (auto simp: log_bytes_def)
  qed
qed (simp add: log_bytes_def)

lemma replay_cut_log:
  assumes "\<forall>b \<in> set bs. committed_batch crc b"
  shows "\<exists>k. replay_loop crc (take n (log_bytes crc bs)) = concat (map butlast (take k bs))"
proof -
  obtain k t where t: "take n (log_bytes crc bs) = log_bytes crc (take k bs) @ t"
    and torn: "t = [] \<or> (\<exists>b \<in> set bs. \<exists>m < length (batch_bytes crc b). t = take m (batch_bytes crc b))"
    using take_log_bytes by blast
  have "replay_loop crc t = []"
    using torn assms by (auto simp: committed_batch_def replay_torn)
  moreover have "\<forall>b \<in> set (take k bs). committed_batch crc b"
    using assms by (auto dest: in_set_takeD)
  ultimately show ?thesis using replay_log t by fastforce
qed

section \<open>The log as an interface\<close>

text \<open>What a client of a log sees: batches that are on stable storage and batches that are
  not yet. A crash keeps the first and a prefix of the second.\<close>

datatype 'b log_op = LAppend 'b | LSync bool | LDiscard | LRotate

fun spec_step :: "'b log_op \<Rightarrow> 'b list \<times> 'b list \<Rightarrow> 'b list \<times> 'b list" where
  "spec_step (LAppend b) (s, u) = (s, u @ [b])"
| "spec_step (LSync ok) (s, u) = (if ok then (s @ u, []) else (s, u))"
| "spec_step LDiscard (s, u) = (s, [])"
| "spec_step LRotate (s, u) = ([], [])"

definition ops_ok :: "('b \<Rightarrow> bool) \<Rightarrow> 'b log_op list \<Rightarrow> bool" where
  "ops_ok ok ops \<longleftrightarrow> (\<forall>b. LAppend b \<in> set ops \<longrightarrow> ok b)"

locale batch_log =
  fixes init :: 'w
    and step :: "'b log_op \<Rightarrow> 'w \<Rightarrow> 'w"
    and rel :: "'w \<Rightarrow> 'b list \<Rightarrow> 'b list \<Rightarrow> bool"
    and ok :: "'b \<Rightarrow> bool"
    and crash :: "'w \<Rightarrow> 'i \<Rightarrow> bool"
    and recover :: "'i \<Rightarrow> 'r list"
    and view :: "'b \<Rightarrow> 'r list"
  assumes init_rel: "rel init [] []"
    and step_rel: "rel w s u \<Longrightarrow> ops_ok ok [op] \<Longrightarrow> spec_step op (s, u) = (s', u') \<Longrightarrow> rel (step op w) s' u'"
    and rel_ok: "rel w s u \<Longrightarrow> b \<in> set (s @ u) \<Longrightarrow> ok b"
    and crash_recover: "rel w s u \<Longrightarrow> crash w i \<Longrightarrow> \<exists>k. recover i = concat (map view (s @ take k u))"
begin

lemma run_rel:
  assumes "rel w s u" and "ops_ok ok ops" and "fold spec_step ops (s, u) = (s', u')"
  shows "rel (fold step ops w) s' u'"
  using assms
proof (induction ops arbitrary: w s u)
  case (Cons op ops)
  obtain s1 u1 where 1: "spec_step op (s, u) = (s1, u1)" by force
  have "ops_ok ok [op]" "ops_ok ok ops" using Cons.prems(2) by (auto simp: ops_ok_def)
  then have "rel (step op w) s1 u1" using step_rel Cons.prems(1) 1 by blast
  then show ?case using Cons.IH Cons.prems(3) \<open>ops_ok ok ops\<close> 1 by simp
qed simp

lemma run_crash_recover:
  assumes "ops_ok ok ops" and "fold spec_step ops ([], []) = (s, u)" and "crash (fold step ops init) i"
  shows "\<exists>k. recover i = concat (map view (s @ take k u))"
  using crash_recover [OF run_rel [OF init_rel assms(1,2)] assms(3)] .

end

text \<open>The operations of the log, with every system call succeeding but the fsync.\<close>

fun wal_step :: "(bytes \<Rightarrow> u32) \<Rightarrow> OmniRecord list log_op \<Rightarrow> WriteAheadLog \<Rightarrow> WriteAheadLog" where
  "wal_step crc (LAppend b) w = snd (append_batch_nosync crc Flushed b w)"
| "wal_step crc (LSync good) w = snd (wal_sync good w)"
| "wal_step crc LDiscard w = snd (discard_undurable Flushed Truncated w)"
| "wal_step crc LRotate w = snd (rotate_segment True w)"

definition wal_rel ::
  "(bytes \<Rightarrow> u32) \<Rightarrow> WriteAheadLog \<Rightarrow> OmniRecord list list \<Rightarrow> OmniRecord list list \<Rightarrow> bool" where
  "wal_rel crc w s u \<longleftrightarrow> (\<forall>b \<in> set (s @ u). committed_batch crc b) \<and>
     wal_file w = log_bytes crc (s @ u) \<and> wal_buf w = [] \<and>
     wal_cursor w \<in> {None, Some (length (wal_file w))} \<and>
     durable_offset w = length (log_bytes crc s) \<and> pending w = length (log_bytes crc u)"

text \<open>A crash keeps at least the bytes an fsync covered.\<close>

definition wal_crash :: "WriteAheadLog \<Rightarrow> bytes \<Rightarrow> bool" where
  "wal_crash w img \<longleftrightarrow> (\<exists>n \<ge> durable_offset w. img = take n (wal_file w))"

lemma log_bytes_append [simp]: "log_bytes crc (a @ b) = log_bytes crc a @ log_bytes crc b"
  by (simp add: log_bytes_def)

lemma log_bytes_simps [simp]:
  "log_bytes crc [] = []" "log_bytes crc [b] = batch_bytes crc b"
  by (simp_all add: log_bytes_def)

lemmas wal_op_defs = append_batch_nosync_def wal_write_def wal_sync_def mark_pending_durable_def
  discard_undurable_def rotate_segment_def put_file_def

lemma wal_step_rel:
  assumes "wal_rel crc w s u" and "ops_ok (committed_batch crc) [op]"
    and "spec_step op (s, u) = (s', u')"
  shows "wal_rel crc (wal_step crc op w) s' u'"
proof (cases op)
  case (LAppend b)
  then show ?thesis
    using assms by (auto simp: wal_rel_def wal_op_defs ops_ok_def length_batch_bytes write_at_def)
next
  case (LSync good)
  then show ?thesis using assms by (auto simp: wal_rel_def wal_op_defs split: if_splits)
next
  case LDiscard
  then show ?thesis using assms by (auto simp: wal_rel_def wal_op_defs Let_def write_at_def)
next
  case LRotate
  then show ?thesis using assms by (auto simp: wal_rel_def wal_op_defs Let_def)
qed

lemma wal_crash_replay:
  assumes "wal_rel crc w s u" and "wal_crash w img"
  shows "\<exists>k. replay_loop crc img = concat (map butlast (s @ take k u))"
proof -
  obtain n where n: "length (log_bytes crc s) \<le> n" and img: "img = take n (log_bytes crc (s @ u))"
    using assms by (auto simp: wal_rel_def wal_crash_def)
  have s: "\<forall>b \<in> set s. committed_batch crc b" and u: "\<forall>b \<in> set u. committed_batch crc b"
    using assms(1) by (auto simp: wal_rel_def)
  obtain k where "replay_loop crc (take (n - length (log_bytes crc s)) (log_bytes crc u))
      = concat (map butlast (take k u))"
    using replay_cut_log [OF u] by blast
  then have "replay_loop crc img = concat (map butlast (s @ take k u))"
    using n img replay_log [OF s] by simp
  then show ?thesis ..
qed

interpretation wal_log: batch_log "wal_new []" "wal_step crc" "wal_rel crc" "committed_batch crc"
    wal_crash "replay_loop crc" butlast for crc
proof
  show "wal_rel crc (wal_new []) [] []"
    by (simp add: wal_rel_def wal_new_def)
next
  show "committed_batch crc b" if "wal_rel crc w s u" "b \<in> set (s @ u)" for w s u b
    using that by (auto simp: wal_rel_def)
qed (rule wal_step_rel wal_crash_replay; assumption)+

section \<open>Replay returns only what was committed\<close>

lemma decode_records_sound:
  "decode_records crc n d = Some (rs, rest) \<Longrightarrow>
     length rs = n \<and> (\<forall>r \<in> set rs. storable crc r) \<and> d = concat (map encode rs) @ rest"
proof (induction n arbitrary: d rs)
  case (Suc n)
  then obtain r len rs' where r: "decode crc d = Some (r, len)"
    and rs': "decode_records crc n (drop len d) = Some (rs', rest)" and rs: "rs = r # rs'"
    by (auto split: if_splits option.splits)
  have "d = encode r @ drop len d" and "storable crc r"
    using decode_SomeD [OF r] by auto
  moreover have "drop len d = concat (map encode rs') @ rest"
    using Suc.IH [OF rs'] by blast
  ultimately show ?case using Suc.IH [OF rs'] rs by simp
qed simp

lemma replay_loop_batch:
  assumes "r \<in> set (replay_loop crc d)"
  obtains rs rest where "d = batch_body rs @ rest" and "wf_batch crc rs" and "4 \<le> length rest"
    and "r \<in> set (replay_loop crc (drop 4 rest)) \<or>
         take 4 rest = u32_le (crc (batch_body rs)) \<and> is_marker (last rs) \<and> r \<in> set (butlast rs)"
proof -
  define count where "count = unat (le_u32 (take 4 d))"
  note eq = replay_loop.simps [of crc d, unfolded Let_def, folded count_def]
  have d4: "\<not> length d < 4" using assms eq by auto
  have c: "\<not> count > 100000" "count \<noteq> 0"
    using assms eq d4 by (auto split: if_splits)
  obtain rs rest where dr: "decode_records crc count (drop 4 d) = Some (rs, rest)"
    using assms eq d4 c by (cases "decode_records crc count (drop 4 d)") (auto split: if_splits)
  have r4: "\<not> length rest < 4"
    using assms eq d4 c dr by (auto split: if_splits)
  have r: "r \<in> set (replay_loop crc (drop 4 rest)) \<or>
       le_u32 (take 4 rest) = crc (take (length d - length rest) d) \<and> is_marker (last rs) \<and> r \<in> set (butlast rs)"
    using assms eq d4 c dr r4 by (auto split: if_splits)
  have snd: "length rs = count" "\<forall>r \<in> set rs. storable crc r" "drop 4 d = concat (map encode rs) @ rest"
    using decode_records_sound [OF dr] by auto
  have "take 4 d = u32_le (word_of_nat (length rs))"
    using d4 by (simp add: snd(1) count_def le_roundtrip_inv)
  then have d: "d = batch_body rs @ rest"
    by (metis append.assoc append_take_drop_id batch_body_def snd(3))
  have wf: "wf_batch crc rs" using c snd by (auto simp: wf_batch_def)
  have "take 4 rest = u32_le (crc (batch_body rs))" if "le_u32 (take 4 rest) = crc (batch_body rs)"
    using r4 by (simp flip: that add: le_roundtrip_inv)
  then show thesis using that [OF d wf] r r4 d by auto
qed

lemma replay_loop_sound:
  "r \<in> set (replay_loop crc d) \<Longrightarrow>
     \<exists>pre rs post. d = pre @ batch_bytes crc rs @ post \<and> committed_batch crc rs \<and> r \<in> set (butlast rs)"
proof (induction d rule: length_induct)
  case (1 d)
  from 1(2) obtain rs rest where d: "d = batch_body rs @ rest" and wf: "wf_batch crc rs"
    and r4: "4 \<le> length rest" and r: "r \<in> set (replay_loop crc (drop 4 rest)) \<or>
       take 4 rest = u32_le (crc (batch_body rs)) \<and> is_marker (last rs) \<and> r \<in> set (butlast rs)"
    by (rule replay_loop_batch)
  from r show ?case
  proof
    assume "r \<in> set (replay_loop crc (drop 4 rest))"
    moreover have "length (drop 4 rest) < length d" using r4 d by simp
    ultimately obtain pre rs' post where "drop 4 rest = pre @ batch_bytes crc rs' @ post"
      and "committed_batch crc rs'" "r \<in> set (butlast rs')" using 1(1) by blast
    moreover from this have "d = (batch_body rs @ take 4 rest @ pre) @ batch_bytes crc rs' @ post"
      using d by (metis append.assoc append_take_drop_id)
    ultimately show ?thesis by blast
  next
    assume a: "take 4 rest = u32_le (crc (batch_body rs)) \<and> is_marker (last rs) \<and> r \<in> set (butlast rs)"
    then have "d = [] @ batch_bytes crc rs @ drop 4 rest"
      using d by (metis append.assoc append_Nil append_take_drop_id batch_bytes_def)
    then show ?thesis using a wf unfolding committed_batch_def by blast
  qed
qed

section \<open>Properties\<close>


text \<open>C9. Replay invents nothing. For an arbitrary file, every record replay returns lies in
  a complete batch of that file: a count that matches, records whose own checksums match, a
  batch checksum that matches the bytes it covers, and a last record that is the commit
  marker (which is itself not returned).\<close>

theorem replay_only_committed:
  assumes "replay crc (LogContents d) = Inr rs" and "r \<in> set rs"
  shows "\<exists>pre b post. d = pre @ batch_bytes crc b @ post \<and> wf_batch crc b \<and>
     key (last b) = COMMIT_MARKER \<and> r \<in> set (butlast b)"
  using replay_loop_sound [of r crc d] assms by (auto simp: committed_batch_def is_marker_iff)

text \<open>Witnesses, with the constant checksum: one synced and one unsynced batch, the second
  torn by the crash.\<close>

definition demo_batch :: "u64 \<Rightarrow> OmniRecord list" where
  "demo_batch s = [record_new (\<lambda>_. 0) s [97] 0 1 0 0, record_new (\<lambda>_. 0) (s + 1) COMMIT_MARKER 1 0 0 0]"

lemma demo_batch_committed: "committed_batch (\<lambda>_. 0) (demo_batch s)"
  by (simp add: demo_batch_def committed_batch_def wf_batch_def is_marker_iff COMMIT_MARKER_def)

lemma length_demo_batch: "length (batch_bytes (\<lambda>_. 0) (demo_batch s)) = 110"
  by (simp add: demo_batch_def batch_bytes_def batch_body_def COMMIT_MARKER_def)


theorem replay_only_committed_witness:
  "\<exists>pre b post. batch_bytes (\<lambda>_. 0) (demo_batch 1) = pre @ batch_bytes (\<lambda>_. 0) b @ post \<and>
     wf_batch (\<lambda>_. 0) b \<and> key (last b) = COMMIT_MARKER \<and>
     record_new (\<lambda>_. 0) 1 [97] 0 1 0 0 \<in> set (butlast b)"
proof (rule replay_only_committed)
  show "replay (\<lambda>_. 0) (LogContents (batch_bytes (\<lambda>_. 0) (demo_batch 1))) =
      Inr [record_new (\<lambda>_. 0) 1 [97] 0 1 0 0]"
    using replay_log [of "[demo_batch 1]" "\<lambda>_. 0" "[]"] demo_batch_committed [of 1]
    by (simp add: demo_batch_def)
qed simp

end
