(* ===== verification/Memtable.thy ===== *)
theory Memtable
  imports Versions Bloom Wal
begin

text \<open>
  Write batches and the memtable of \<^verbatim>\<open>storage/core.rs\<close>. A batch collects writes and
  deletes under the operation and value size limits. The memtable is sixteen ordered maps,
  sharded by a hash of the key, each ordered by key and then by sequence, newest first; a
  lookup reads the first entry of a range.

  The lemmas show that a lookup returns the newest version at or below the read sequence (the
  memtable is a level in the sense of \<open>version_level\<close>), what an insert changes, and that no
  sequence of batch operations exceeds the limits.
\<close>

section \<open>Write batches\<close>

definition MAX_BATCH_SIZE :: nat where "MAX_BATCH_SIZE = 10000"

definition MAX_VALUE_SIZE :: nat where "MAX_VALUE_SIZE = 10 * 1024 * 1024"

record WriteBatch =
  buffered_writes :: "(bytes \<times> bytes \<times> u64) list"
  buffered_deletes :: "bytes list"

definition batch_new :: WriteBatch where
  "batch_new = \<lparr>buffered_writes = [], buffered_deletes = []\<rparr>"

definition op_count :: "WriteBatch \<Rightarrow> nat" where
  "op_count b = length (buffered_writes b) + length (buffered_deletes b)"

definition set_with_expiry :: "bytes \<Rightarrow> bytes \<Rightarrow> u64 \<Rightarrow> WriteBatch \<Rightarrow> WriteBatch result" where
  "set_with_expiry k v ex b =
     (if op_count b \<ge> MAX_BATCH_SIZE then Inl (Err (BatchTooLarge MAX_BATCH_SIZE))
      else if length v > MAX_VALUE_SIZE then Inl (Err (ValueTooLarge MAX_VALUE_SIZE))
      else Inr (b\<lparr>buffered_writes := buffered_writes b @ [(k, v, ex)]\<rparr>))"

text \<open>\<open>now\<close> is the wall clock in seconds; the sum wraps, as it does in a release build.\<close>

definition set_with_ttl :: "u64 \<Rightarrow> bytes \<Rightarrow> bytes \<Rightarrow> u64 \<Rightarrow> WriteBatch \<Rightarrow> WriteBatch result" where
  "set_with_ttl now k v ttl b =
     (if op_count b \<ge> MAX_BATCH_SIZE then Inl (Err (BatchTooLarge MAX_BATCH_SIZE))
      else if length v > MAX_VALUE_SIZE then Inl (Err (ValueTooLarge MAX_VALUE_SIZE))
      else let ex = (if ttl > 0 then now + ttl else 0)
           in Inr (b\<lparr>buffered_writes := buffered_writes b @ [(k, v, ex)]\<rparr>))"

definition batch_set :: "u64 \<Rightarrow> bytes \<Rightarrow> bytes \<Rightarrow> WriteBatch \<Rightarrow> WriteBatch result" where
  "batch_set now k v b = set_with_ttl now k v 0 b"

definition batch_delete :: "bytes \<Rightarrow> WriteBatch \<Rightarrow> WriteBatch result" where
  "batch_delete k b =
     (if op_count b \<ge> MAX_BATCH_SIZE then Inl (Err (BatchTooLarge MAX_BATCH_SIZE))
      else Inr (b\<lparr>buffered_deletes := buffered_deletes b @ [k]\<rparr>))"

definition batch_is_empty :: "WriteBatch \<Rightarrow> bool" where
  "batch_is_empty b \<longleftrightarrow> buffered_writes b = [] \<and> buffered_deletes b = []"

definition batch_clear :: "WriteBatch \<Rightarrow> WriteBatch" where
  "batch_clear b = b\<lparr>buffered_writes := [], buffered_deletes := []\<rparr>"

text \<open>A batch within the limits, and its construction by any sequence of operations.\<close>

definition batch_ok :: "WriteBatch \<Rightarrow> bool" where
  "batch_ok b \<longleftrightarrow> op_count b \<le> MAX_BATCH_SIZE \<and>
     (\<forall>(k, v, ex) \<in> set (buffered_writes b). length v \<le> MAX_VALUE_SIZE)"

inductive batch_built :: "WriteBatch \<Rightarrow> bool" where
  built_new: "batch_built batch_new"
| built_set: "batch_built b \<Longrightarrow> batch_set now k v b = Inr b' \<Longrightarrow> batch_built b'"
| built_ttl: "batch_built b \<Longrightarrow> set_with_ttl now k v ttl b = Inr b' \<Longrightarrow> batch_built b'"
| built_expiry: "batch_built b \<Longrightarrow> set_with_expiry k v ex b = Inr b' \<Longrightarrow> batch_built b'"
| built_delete: "batch_built b \<Longrightarrow> batch_delete k b = Inr b' \<Longrightarrow> batch_built b'"
| built_clear: "batch_built b \<Longrightarrow> batch_built (batch_clear b)"

section \<open>The memtable\<close>

type_synonym memtable_shard = "(bytes \<times> u64 reverse, ptr) omap"
type_synonym memtable = "memtable_shard list"

definition mem_empty :: memtable where
  "mem_empty = replicate NUM_SHARDS []"

definition mem_insert :: "bytes \<Rightarrow> u64 \<Rightarrow> ptr \<Rightarrow> memtable \<Rightarrow> memtable" where
  "mem_insert k q p m = m[shard_idx k := om_insert (k, Reverse q) p (m ! shard_idx k)]"

definition mem_insert_record :: "OmniRecord \<Rightarrow> memtable \<Rightarrow> memtable" where
  "mem_insert_record r m = mem_insert (key r) (seq r) (ptr_of r) m"

text \<open>The loop over \<^verbatim>\<open>range((key, Reverse(read_seq))..)\<close> of \<^verbatim>\<open>find\<close> and
  \<^verbatim>\<open>get_seq_for_key\<close>.\<close>

fun shard_scan :: "bytes \<Rightarrow> u64 \<Rightarrow> memtable_shard \<Rightarrow> (u64 \<times> ptr) option" where
  "shard_scan k s [] = None"
| "shard_scan k s (((k', rq), p) # es) =
     (if k' \<noteq> k then None else if unrev rq \<le> s then Some (unrev rq, p) else shard_scan k s es)"

definition mem_find :: "memtable \<Rightarrow> bytes \<Rightarrow> u64 \<Rightarrow> (u64 \<times> ptr) option" where
  "mem_find m k s = shard_scan k s (om_range (k, Reverse s) (m ! shard_idx k))"

definition mem_len :: "memtable \<Rightarrow> nat" where
  "mem_len m = sum_list (map length m)"

definition mem_entries :: "memtable \<Rightarrow> (bytes \<times> u64 \<times> ptr) list" where
  "mem_entries m = map (\<lambda>((k, rq), p). (k, unrev rq, p)) (concat m)"

definition mem_versions :: "memtable \<Rightarrow> vmap" where
  "mem_versions m k q = om_lookup (m ! shard_idx k) (k, Reverse q)"

definition mem_wf :: "memtable \<Rightarrow> bool" where
  "mem_wf m \<longleftrightarrow> length m = NUM_SHARDS \<and>
     (\<forall>i < NUM_SHARDS. om_wf (m ! i) \<and> (\<forall>((k, rq), p) \<in> set (m ! i). shard_idx k = i))"

section \<open>Batch limits\<close>

lemma batch_built_ok: "batch_built b \<Longrightarrow> batch_ok b"
  by (induction rule: batch_built.induct)
    (auto simp: batch_ok_def batch_new_def op_count_def batch_set_def set_with_ttl_def set_with_expiry_def
      batch_delete_def batch_clear_def MAX_BATCH_SIZE_def Let_def split: if_splits)

section \<open>The memtable as a level\<close>

lemma mem_wf_shard: "mem_wf m \<Longrightarrow> om_wf (m ! shard_idx k)"
  by (simp add: mem_wf_def)

lemma mem_wf_empty [simp]: "mem_wf mem_empty"
  by (simp add: mem_wf_def mem_empty_def)

lemma mem_versions_empty [simp]: "mem_versions mem_empty k q = None"
  by (simp add: mem_versions_def mem_empty_def om_lookup_def)

lemma mem_wf_insert: "mem_wf m \<Longrightarrow> mem_wf (mem_insert k q p m)"
  by (auto simp: mem_wf_def mem_insert_def nth_list_update om_wf_insert set_om_insert)

lemma mem_versions_insert:
  assumes "mem_wf m"
  shows "mem_versions (mem_insert k q p m) k' q' =
    (if k' = k \<and> q' = q then Some p else mem_versions m k' q')"
proof (cases "shard_idx k' = shard_idx k")
  case True
  then show ?thesis
    using assms mem_wf_shard [OF assms, of k]
    by (simp add: mem_versions_def mem_insert_def mem_wf_def om_lookup_insert)
qed (auto simp: mem_versions_def mem_insert_def)

lemma mem_entries_set:
  assumes "mem_wf m"
  shows "(k, q, p) \<in> set (mem_entries m) \<longleftrightarrow> mem_versions m k q = Some p"
proof -
  have "(k, q, p) \<in> set (mem_entries m) \<longleftrightarrow> (\<exists>sh \<in> set m. ((k, Reverse q), p) \<in> set sh)"
  proof -
    define f where "f = (\<lambda>((k :: bytes, rq), p :: ptr). (k, unrev rq :: u64, p))"
    have f: "(k, q, p) = f e \<longleftrightarrow> e = ((k, Reverse q), p)" for e
      by (cases e) (auto simp: f_def reverse.expand)
    have "mem_entries m = map f (concat m)" by (simp add: mem_entries_def f_def)
    then show ?thesis by (simp add: image_iff f)
  qed
  also have "\<dots> \<longleftrightarrow> ((k, Reverse q), p) \<in> set (m ! shard_idx k)"
  proof
    assume "\<exists>sh \<in> set m. ((k, Reverse q), p) \<in> set sh"
    then obtain i where "i < length m" "((k, Reverse q), p) \<in> set (m ! i)"
      by (metis in_set_conv_nth)
    then show "((k, Reverse q), p) \<in> set (m ! shard_idx k)" using assms by (fastforce simp: mem_wf_def)
  next
    assume "((k, Reverse q), p) \<in> set (m ! shard_idx k)"
    then show "\<exists>sh \<in> set m. ((k, Reverse q), p) \<in> set sh"
      using assms by (auto simp: mem_wf_def intro!: bexI [of _ "m ! shard_idx k"])
  qed
  also have "\<dots> \<longleftrightarrow> mem_versions m k q = Some p"
    using assms by (simp add: mem_versions_def om_lookup_Some mem_wf_shard)
  finally show ?thesis .
qed

text \<open>The first entry of the range is the newest version at or below the bound.\<close>

lemma mem_find_newest:
  assumes "mem_wf m"
  shows "mem_find m k s = map_option (\<lambda>q. (q, the (mem_versions m k q))) (newest (mem_versions m k) s)"
proof -
  let ?sh = "m ! shard_idx k"
  have wf: "om_wf ?sh" using assms by (rule mem_wf_shard)
  show ?thesis
  proof (cases "om_range (k, Reverse s) ?sh")
    case Nil
    then have "om_lookup ?sh (k, Reverse q) = None" if "q \<le> s" for q
      using om.range_Nil_iff [OF wf, of "(k, Reverse s)"] that by simp
    then have "newest (mem_versions m k) s = None" by (auto simp: newest_None mem_versions_def)
    then show ?thesis using Nil by (simp add: mem_find_def)
  next
    case (Cons e es)
    obtain k' q p where e: "e = ((k', Reverse q), p)" by (metis prod.exhaust reverse.exhaust)
    have head: "(k, Reverse s) \<le> (k', Reverse q)" "om_lookup ?sh (k', Reverse q) = Some p"
      using om.range_head(1,2) [OF wf Cons [unfolded e]] by auto
    have least: "(k', Reverse q) \<le> (k, Reverse q')" if "q' \<le> s" "om_lookup ?sh (k, Reverse q') = Some p'" for q' p'
      using om.range_head(3) [OF wf Cons [unfolded e] that(2)] that(1) by simp
    show ?thesis
    proof (cases "k' = k")
      case True
      then have "newest (mem_versions m k) s = Some q"
        using head least by (auto simp: newest_Some mem_versions_def)
      moreover have "q \<le> s" using True head(1) by simp
      ultimately show ?thesis using True head(2) Cons e by (simp add: mem_find_def mem_versions_def)
    next
      case False
      then have "om_lookup ?sh (k, Reverse q') = None" if "q' \<le> s" for q'
        using least [OF that] head(1) by (cases "om_lookup ?sh (k, Reverse q')") auto
      then have "newest (mem_versions m k) s = None" by (auto simp: newest_None mem_versions_def)
      then show ?thesis using False Cons e by (simp add: mem_find_def)
    qed
  qed
qed

lemma mem_find_visible:
  assumes "mem_wf m"
  shows "map_option snd (mem_find m k s) = visible (mem_versions m k) s"
proof (cases "newest (mem_versions m k) s")
  case (Some q)
  then have "mem_versions m k q \<noteq> None" by (auto simp: newest_Some)
  then show ?thesis using Some by (auto simp: mem_find_newest [OF assms] visible_def)
qed (simp add: mem_find_newest [OF assms] visible_def)

interpretation mem: version_level mem_versions "\<lambda>m k s. Inr (map_option snd (mem_find m k s))" mem_wf
  by unfold_locales (simp add: mem_find_visible)

end
