(* ===== verification/Group_Commit.thy ===== *)
theory Group_Commit
  imports Ordered_Map "HOL-Library.Multiset"
begin

text \<open>
  The group commit engine of \<^verbatim>\<open>runtime/hardening.rs\<close>: writers append to the log, then join a
  group whose leader performs one fsync for all of them. The operations on \<^verbatim>\<open>GroupState\<close>
  are functions of the state under its mutex; \<^verbatim>\<open>join_group\<close> is split where it releases that
  mutex, into the part before the condition variable wait (\<open>join_enter\<close>) and the part after
  each wake-up (\<open>join_wake\<close>). Epochs count fsyncs from 1 and are natural numbers.

  The writers of \<^verbatim>\<open>commit_batch\<close> run concurrently: a configuration holds the shared state, how
  far the log has been written and made durable, and the multiset of the phases the writers
  are in; \<open>gstep\<close> lets any one of them take its next step, spurious wake-ups included. An
  inductive invariant gives the properties: nobody is acknowledged before a sync that covers
  its append, epochs are handed out in order, and no writer waits on an idle engine.
\<close>

section \<open>The shared state\<close>

record GroupState =
  waiters :: "(nat, nat) omap"
  current_epoch :: nat
  completed_epoch :: nat
  next_epoch :: nat
  failures :: "nat \<Rightarrow> OmniError option"
  poisoned :: "OmniError option"

definition group_new :: GroupState where
  "group_new = \<lparr>waiters = [], current_epoch = 0, completed_epoch = 0, next_epoch = 1,
                failures = Map.empty, poisoned = None\<rparr>"

definition begin_next_sync :: "GroupState \<Rightarrow> nat \<times> GroupState" where
  "begin_next_sync s =
     (next_epoch s, s\<lparr>next_epoch := next_epoch s + 1, current_epoch := next_epoch s\<rparr>)"

definition release :: "nat \<Rightarrow> GroupState \<Rightarrow> OmniError option \<times> GroupState" where
  "release epoch s =
     (failures s epoch,
      case om_lookup (waiters s) epoch of
        None \<Rightarrow> s
      | Some cnt \<Rightarrow>
          if cnt - 1 = 0
          then s\<lparr>waiters := om_remove epoch (waiters s), failures := (failures s)(epoch := None)\<rparr>
          else s\<lparr>waiters := om_insert epoch (cnt - 1) (waiters s)\<rparr>)"

text \<open>The outcome of a pass through \<^verbatim>\<open>join_group\<close>: an error, a guard (as leader or
  follower), or a wait for an epoch.\<close>

datatype join_outcome = JoinErr OmniError | JoinLeader nat | JoinFollower nat | JoinWait nat

definition join_enter :: "GroupState \<Rightarrow> join_outcome \<times> GroupState" where
  "join_enter s =
     (case poisoned s of
        Some err \<Rightarrow> (JoinErr err, s)
      | None \<Rightarrow>
          if current_epoch s = 0
          then let (epoch, s') = begin_next_sync s in (JoinLeader epoch, s')
          else let needed = current_epoch s + 1;
                   cnt = (case om_lookup (waiters s) needed of None \<Rightarrow> 0 | Some c \<Rightarrow> c)
               in (JoinWait needed, s\<lparr>waiters := om_insert needed (cnt + 1) (waiters s)\<rparr>))"

definition join_wake :: "nat \<Rightarrow> GroupState \<Rightarrow> join_outcome \<times> GroupState" where
  "join_wake needed s =
     (if completed_epoch s \<ge> needed
      then let (failure, s') = release needed s
           in (case failure of Some err \<Rightarrow> JoinErr err | None \<Rightarrow> JoinFollower needed, s')
      else case poisoned s of
        Some err \<Rightarrow> (JoinErr err, snd (release needed s))
      | None \<Rightarrow>
          if current_epoch s = 0
          then let (epoch, s') = begin_next_sync s
               in (JoinLeader needed, snd (release needed s'))
          else (JoinWait needed, s))"

definition complete_sync :: "nat \<Rightarrow> OmniError option \<Rightarrow> GroupState \<Rightarrow> GroupState" where
  "complete_sync epoch err s =
     (let s1 = s\<lparr>completed_epoch := max (completed_epoch s) epoch, current_epoch := 0\<rparr>
      in case err of
           None \<Rightarrow> s1
         | Some e \<Rightarrow>
             let s2 = s1\<lparr>poisoned := Some e\<rparr>
             in if om_lookup (waiters s2) epoch \<noteq> None
                then s2\<lparr>failures := (failures s2)(epoch \<mapsto> e)\<rparr> else s2)"

definition stats :: "GroupState \<Rightarrow> nat \<times> nat" where
  "stats s = (completed_epoch s, sum_list (map snd (waiters s)))"

definition poison :: "OmniError \<Rightarrow> GroupState \<Rightarrow> GroupState" where
  "poison err s = s\<lparr>poisoned := Some err\<rparr>"

definition is_poisoned :: "GroupState \<Rightarrow> bool" where
  "is_poisoned s \<longleftrightarrow> poisoned s \<noteq> None"

section \<open>Writers\<close>

text \<open>A writer of \<^verbatim>\<open>commit_batch\<close> before its append, after it (at a log position), waiting in
  \<^verbatim>\<open>join_group\<close>, holding a leader guard, inside the fsync (which covers everything appended
  when it began), after a failed fsync it has yet to publish, and done.\<close>

datatype phase =
    Fresh
  | Appended nat
  | Waiting nat nat
  | Leading nat nat
  | Syncing nat nat nat
  | SyncFailed nat OmniError
  | Acked nat
  | Failed OmniError

record gconf =
  gstate :: GroupState
  glog :: nat
  gdurable :: nat
  procs :: "phase multiset"

definition joined :: "nat \<Rightarrow> join_outcome \<Rightarrow> phase" where
  "joined p j = (case j of JoinErr e \<Rightarrow> Failed e | JoinLeader e \<Rightarrow> Leading e p
                         | JoinFollower e \<Rightarrow> Acked p | JoinWait e \<Rightarrow> Waiting e p)"

text \<open>One step of one writer. A failed fsync poisons the engine and truncates the log to what
  is durable, if the truncation succeeds, before the leader publishes the failure.\<close>

inductive gstep :: "gconf \<Rightarrow> gconf \<Rightarrow> bool" where
  spawn: "gstep c (c\<lparr>procs := add_mset Fresh (procs c)\<rparr>)"
| append: "procs c = add_mset Fresh M \<Longrightarrow> \<not> is_poisoned (gstate c) \<Longrightarrow>
    gstep c (c\<lparr>glog := glog c + 1, procs := add_mset (Appended (glog c + 1)) M\<rparr>)"
| refuse: "procs c = add_mset Fresh M \<Longrightarrow> poisoned (gstate c) = Some e \<Longrightarrow>
    gstep c (c\<lparr>procs := add_mset (Failed e) M\<rparr>)"
| enter: "procs c = add_mset (Appended p) M \<Longrightarrow> join_enter (gstate c) = (j, s) \<Longrightarrow>
    gstep c (c\<lparr>gstate := s, procs := add_mset (joined p j) M\<rparr>)"
| wake: "procs c = add_mset (Waiting n p) M \<Longrightarrow> join_wake n (gstate c) = (j, s) \<Longrightarrow>
    gstep c (c\<lparr>gstate := s, procs := add_mset (joined p j) M\<rparr>)"
| sync_begin: "procs c = add_mset (Leading e p) M \<Longrightarrow>
    gstep c (c\<lparr>procs := add_mset (Syncing e p (glog c)) M\<rparr>)"
| sync_ok: "procs c = add_mset (Syncing e p u) M \<Longrightarrow>
    gstep c (c\<lparr>gstate := complete_sync e None (gstate c), gdurable := max (gdurable c) u,
               procs := add_mset (Acked p) M\<rparr>)"
| sync_err: "procs c = add_mset (Syncing e p u) M \<Longrightarrow> l \<in> {glog c, gdurable c} \<Longrightarrow>
    gstep c (c\<lparr>gstate := poison err (gstate c), glog := l, procs := add_mset (SyncFailed e err) M\<rparr>)"
| publish_err: "procs c = add_mset (SyncFailed e err) M \<Longrightarrow>
    gstep c (c\<lparr>gstate := complete_sync e (Some err) (gstate c), procs := add_mset (Failed err) M\<rparr>)"

definition ginit :: gconf where
  "ginit = \<lparr>gstate = group_new, glog = 0, gdurable = 0, procs = {#}\<rparr>"

definition greachable :: "gconf \<Rightarrow> bool" where
  "greachable c \<longleftrightarrow> gstep\<^sup>*\<^sup>* ginit c"

section \<open>The invariant\<close>

fun waits_for :: "nat \<Rightarrow> phase \<Rightarrow> bool" where
  "waits_for n (Waiting m p) = (m = n)"
| "waits_for n _ = False"

fun leads :: "phase \<Rightarrow> bool" where
  "leads (Leading e p) = True"
| "leads (Syncing e p u) = True"
| "leads (SyncFailed e err) = True"
| "leads _ = False"

abbreviation nwaiting :: "nat \<Rightarrow> phase multiset \<Rightarrow> nat" where
  "nwaiting n M \<equiv> size (filter_mset (waits_for n) M)"

fun phase_ok :: "gconf \<Rightarrow> phase \<Rightarrow> bool" where
  "phase_ok c (Appended p) \<longleftrightarrow> is_poisoned (gstate c) \<or> p \<le> glog c"
| "phase_ok c (Waiting n p) \<longleftrightarrow> n \<le> next_epoch (gstate c) \<and>
     (if n \<le> completed_epoch (gstate c) then failures (gstate c) n \<noteq> None \<or> p \<le> gdurable c
      else (is_poisoned (gstate c) \<or> p \<le> glog c) \<and>
           (\<forall>p' u. Syncing n p' u \<in># procs c \<longrightarrow> p \<le> u))"
| "phase_ok c (Leading e p) \<longleftrightarrow> \<not> is_poisoned (gstate c) \<and> p \<le> glog c \<and> e = current_epoch (gstate c)"
| "phase_ok c (Syncing e p u) \<longleftrightarrow> \<not> is_poisoned (gstate c) \<and> p \<le> u \<and> u \<le> glog c \<and>
     e = current_epoch (gstate c)"
| "phase_ok c (SyncFailed e err) \<longleftrightarrow> is_poisoned (gstate c) \<and> e = current_epoch (gstate c)"
| "phase_ok c (Acked p) \<longleftrightarrow> p \<le> gdurable c"
| "phase_ok c _ \<longleftrightarrow> True"

definition waiters_ok :: "GroupState \<Rightarrow> phase multiset \<Rightarrow> bool" where
  "waiters_ok s M \<longleftrightarrow> om_wf (waiters s) \<and>
     (\<forall>n. om_lookup (waiters s) n = (if nwaiting n M = 0 then None else Some (nwaiting n M)))"

definition epochs_ok :: "GroupState \<Rightarrow> phase multiset \<Rightarrow> bool" where
  "epochs_ok s M \<longleftrightarrow>
     (if current_epoch s = 0 then size (filter_mset leads M) = 0 \<and> next_epoch s = completed_epoch s + 1
      else size (filter_mset leads M) = 1 \<and> current_epoch s = completed_epoch s + 1 \<and>
           next_epoch s = current_epoch s + 1)"

definition ginv :: "gconf \<Rightarrow> bool" where
  "ginv c \<longleftrightarrow> waiters_ok (gstate c) (procs c) \<and> epochs_ok (gstate c) (procs c) \<and>
     gdurable c \<le> glog c \<and> (\<forall>ph \<in># procs c. phase_ok c ph)"

lemma waiters_ok_cong:
  "waiters s' = waiters s \<Longrightarrow> (\<And>n. nwaiting n M' = nwaiting n M) \<Longrightarrow> waiters_ok s M \<Longrightarrow> waiters_ok s' M'"
  by (simp add: waiters_ok_def)

lemma waiters_ok_queue:
  assumes "waiters_ok s M"
  shows "waiters_ok (s\<lparr>waiters := om_insert n ((case om_lookup (waiters s) n of None \<Rightarrow> 0 | Some c \<Rightarrow> c) + 1)
      (waiters s)\<rparr>) (add_mset (Waiting n p) M)"
  using assms by (auto simp: waiters_ok_def om_wf_insert om_lookup_insert)

lemma waiters_ok_release:
  assumes "waiters_ok s (add_mset (Waiting n p) M)" and "\<And>m. \<not> waits_for m ph"
  shows "waiters_ok (snd (release n s)) (add_mset ph M)"
  using assms by (auto simp: waiters_ok_def release_def om_wf_insert om_wf_remove om_lookup_insert
      om_lookup_remove split: option.splits)

text \<open>Releasing a slot keeps the counters, and the failure of an epoch for as long as another
  writer still waits for that epoch.\<close>

lemma release_fields [simp]:
  "current_epoch (snd (release n s)) = current_epoch s"
  "completed_epoch (snd (release n s)) = completed_epoch s"
  "next_epoch (snd (release n s)) = next_epoch s"
  "poisoned (snd (release n s)) = poisoned s"
  "is_poisoned (snd (release n s)) = is_poisoned s"
  by (simp_all add: release_def is_poisoned_def split: option.split)

lemma release_failures:
  assumes "waiters_ok s (add_mset (Waiting n p) M)" and "Waiting m q \<in># M"
  shows "failures (snd (release n s)) m = failures s m"
proof (cases "m = n")
  case True
  then have "nwaiting n M \<noteq> 0" using assms(2) by (auto dest!: multi_member_split)
  moreover have "om_lookup (waiters s) n = Some (Suc (nwaiting n M))"
    using assms(1) by (simp add: waiters_ok_def)
  ultimately show ?thesis using True by (auto simp: release_def)
qed (auto simp: release_def split: option.splits)

lemma fst_release [simp]: "fst (release n s) = failures s n"
  by (simp add: release_def)

lemma epochs_ok_cong:
  "current_epoch s' = current_epoch s \<Longrightarrow> completed_epoch s' = completed_epoch s \<Longrightarrow>
   next_epoch s' = next_epoch s \<Longrightarrow> size (filter_mset leads M') = size (filter_mset leads M) \<Longrightarrow>
   epochs_ok s M \<Longrightarrow> epochs_ok s' M'"
  by (auto simp: epochs_ok_def split: if_splits)

lemma no_other_leader:
  assumes "epochs_ok s (add_mset ph M)" and "leads ph"
  shows "\<forall>x \<in># M. \<not> leads x" and "current_epoch s \<noteq> 0"
  using assms by (auto simp: epochs_ok_def split: if_splits)

section \<open>Preservation\<close>

lemma ginv_init: "ginv ginit"
  by (simp add: ginv_def ginit_def group_new_def waiters_ok_def epochs_ok_def om_lookup_def)

text \<open>A step that replaces the phase of one writer, keeps every other writer's condition and
  changes neither which epochs are waited for nor who leads.\<close>

lemma ginv_replace:
  assumes inv: "ginv c" and M: "procs c = add_mset ph M" and c': "procs c' = add_mset ph' M"
    and s: "waiters (gstate c') = waiters (gstate c)" "current_epoch (gstate c') = current_epoch (gstate c)"
      "completed_epoch (gstate c') = completed_epoch (gstate c)" "next_epoch (gstate c') = next_epoch (gstate c)"
    and same: "\<And>n. waits_for n ph' = waits_for n ph" "leads ph' = leads ph"
    and d: "gdurable c' \<le> glog c'" and new: "phase_ok c' ph'"
    and others: "\<And>x. x \<in># M \<Longrightarrow> phase_ok c x \<Longrightarrow> phase_ok c' x"
  shows "ginv c'"
proof -
  have "waiters_ok (gstate c') (procs c')"
    by (rule waiters_ok_cong [of _ "gstate c" _ "procs c"]) (use inv s same in \<open>auto simp: ginv_def M c'\<close>)
  moreover have "epochs_ok (gstate c') (procs c')"
    by (rule epochs_ok_cong [of _ "gstate c" _ "procs c"]) (use inv s same in \<open>auto simp: ginv_def M c'\<close>)
  ultimately show ?thesis using inv d new others by (auto simp: ginv_def M c')
qed

lemma ginv_append:
  assumes "ginv c" and "procs c = add_mset Fresh M" and "\<not> is_poisoned (gstate c)"
  shows "ginv (c\<lparr>glog := glog c + 1, procs := add_mset (Appended (glog c + 1)) M\<rparr>)"
proof (rule ginv_replace [OF assms(1,2)])
  fix x assume "x \<in># M" "phase_ok c x"
  then show "phase_ok (c\<lparr>glog := glog c + 1, procs := add_mset (Appended (glog c + 1)) M\<rparr>) x"
    using assms(2) by (cases x) auto
qed (use assms in \<open>auto simp: ginv_def\<close>)

lemma ginv_refuse:
  assumes "ginv c" and "procs c = add_mset Fresh M"
  shows "ginv (c\<lparr>procs := add_mset (Failed e) M\<rparr>)"
proof (rule ginv_replace [OF assms])
  fix x assume "x \<in># M" "phase_ok c x"
  then show "phase_ok (c\<lparr>procs := add_mset (Failed e) M\<rparr>) x" using assms(2) by (cases x) auto
qed (use assms in \<open>auto simp: ginv_def\<close>)

lemma ginv_sync_begin:
  assumes "ginv c" and "procs c = add_mset (Leading e p) M"
  shows "ginv (c\<lparr>procs := add_mset (Syncing e p (glog c)) M\<rparr>)"
proof (rule ginv_replace [OF assms])
  have ok: "phase_ok c (Leading e p)" using assms by (simp add: ginv_def)
  then show "phase_ok (c\<lparr>procs := add_mset (Syncing e p (glog c)) M\<rparr>) (Syncing e p (glog c))" by simp
  fix x assume "x \<in># M" "phase_ok c x"
  then show "phase_ok (c\<lparr>procs := add_mset (Syncing e p (glog c)) M\<rparr>) x"
    using assms(2) ok by (cases x) auto
qed (use assms in \<open>auto simp: ginv_def\<close>)

lemma ginv_sync_err:
  assumes inv: "ginv c" and M: "procs c = add_mset (Syncing e p u) M" and "l \<in> {glog c, gdurable c}"
  shows "ginv (c\<lparr>gstate := poison err (gstate c), glog := l, procs := add_mset (SyncFailed e err) M\<rparr>)"
proof (rule ginv_replace [OF inv M])
  have ok: "phase_ok c (Syncing e p u)" and nl: "\<forall>x \<in># M. \<not> leads x"
    using inv M no_other_leader(1) [of "gstate c"] by (auto simp: ginv_def)
  fix x assume x: "x \<in># M" "phase_ok c x"
  then have "\<not> leads x" using nl by blast
  then show "phase_ok (c\<lparr>gstate := poison err (gstate c), glog := l, procs := add_mset (SyncFailed e err) M\<rparr>) x"
    using x M by (cases x) (auto simp: poison_def is_poisoned_def)
qed (use assms in \<open>auto simp: ginv_def poison_def is_poisoned_def\<close>)

lemma ginv_sync_ok:
  assumes inv: "ginv c" and M: "procs c = add_mset (Syncing e p u) M"
  shows "ginv (c\<lparr>gstate := complete_sync e None (gstate c), gdurable := max (gdurable c) u,
      procs := add_mset (Acked p) M\<rparr>)" (is "ginv ?c")
proof -
  have ok: "phase_ok c (Syncing e p u)" and nl: "\<forall>x \<in># M. \<not> leads x" and cur: "current_epoch (gstate c) \<noteq> 0"
    and w: "waiters_ok (gstate c) (procs c)" and ep: "epochs_ok (gstate c) (procs c)"
    and d: "gdurable c \<le> glog c" and all: "\<forall>x \<in># M. phase_ok c x"
    using inv M no_other_leader [of "gstate c"] by (auto simp: ginv_def)
  have "waiters_ok (gstate ?c) (procs ?c)"
    by (rule waiters_ok_cong [OF _ _ w]) (auto simp: M complete_sync_def)
  moreover have "epochs_ok (gstate ?c) (procs ?c)"
    using ep ok nl cur by (auto simp: epochs_ok_def complete_sync_def M)
  moreover have "phase_ok ?c x" if x: "x \<in># M" for x
  proof -
    have x': "phase_ok c x" "\<not> leads x" using all nl x by auto
    show ?thesis
    proof (cases x)
      case (Waiting n q)
      have "completed_epoch (gstate c) < e" "e = current_epoch (gstate c)"
        using ep ok cur by (auto simp: epochs_ok_def split: if_splits)
      moreover have "q \<le> u" if "n = e"
        using x'(1) that M \<open>completed_epoch (gstate c) < e\<close> by (auto simp: Waiting)
      moreover have "\<not> is_poisoned (gstate c)" using ok by simp
      ultimately show ?thesis
        using x' ep M nl by (auto simp: Waiting complete_sync_def epochs_ok_def is_poisoned_def split: if_splits)
    qed (use x' in \<open>auto simp: complete_sync_def is_poisoned_def\<close>)
  qed
  ultimately show ?thesis using ok d by (auto simp: ginv_def)
qed

lemma ginv_publish_err:
  assumes inv: "ginv c" and M: "procs c = add_mset (SyncFailed e err) M"
  shows "ginv (c\<lparr>gstate := complete_sync e (Some err) (gstate c), procs := add_mset (Failed err) M\<rparr>)"
    (is "ginv ?c")
proof -
  have ok: "phase_ok c (SyncFailed e err)" and nl: "\<forall>x \<in># M. \<not> leads x" and cur: "current_epoch (gstate c) \<noteq> 0"
    and w: "waiters_ok (gstate c) (procs c)" and ep: "epochs_ok (gstate c) (procs c)"
    and d: "gdurable c \<le> glog c" and all: "\<forall>x \<in># M. phase_ok c x"
    using inv M no_other_leader [of "gstate c"] by (auto simp: ginv_def)
  have fields: "completed_epoch (gstate ?c) = max (completed_epoch (gstate c)) e"
    "current_epoch (gstate ?c) = 0" "next_epoch (gstate ?c) = next_epoch (gstate c)"
    "waiters (gstate ?c) = waiters (gstate c)" "is_poisoned (gstate ?c)"
    by (auto simp: complete_sync_def is_poisoned_def Let_def)
  have "waiters_ok (gstate ?c) (procs ?c)"
    by (rule waiters_ok_cong [OF _ _ w]) (auto simp: M complete_sync_def Let_def)
  moreover have "epochs_ok (gstate ?c) (procs ?c)"
    using ep ok nl cur unfolding epochs_ok_def fields by (auto simp: M)
  moreover have "phase_ok ?c x" if x: "x \<in># M" for x
  proof -
    have x': "phase_ok c x" "\<not> leads x" using all nl x by auto
    show ?thesis
    proof (cases x)
      case (Waiting n q)
      have e: "e = completed_epoch (gstate c) + 1"
        using ep ok cur by (auto simp: epochs_ok_def split: if_splits)
      have "failures (gstate ?c) n \<noteq> None" if "n = e"
      proof -
        have "nwaiting e (procs c) \<noteq> 0" using x Waiting that M by (auto dest!: multi_member_split)
        then have "om_lookup (waiters (gstate c)) e \<noteq> None" using w by (simp add: waiters_ok_def)
        then show ?thesis using that by (simp add: complete_sync_def Let_def)
      qed
      moreover have "failures (gstate ?c) n = failures (gstate c) n" if "n \<noteq> e"
        using that by (simp add: complete_sync_def Let_def)
      ultimately show ?thesis
        using x' M nl fields e by (auto simp: Waiting le_Suc_eq)
    qed (use x' fields in auto)
  qed
  ultimately show ?thesis using d by (auto simp: ginv_def)
qed

lemma ginv_enter:
  assumes inv: "ginv c" and M: "procs c = add_mset (Appended p) M" and j: "join_enter (gstate c) = (j, s)"
  shows "ginv (c\<lparr>gstate := s, procs := add_mset (joined p j) M\<rparr>)" (is "ginv ?c")
proof -
  have ok: "phase_ok c (Appended p)" and w: "waiters_ok (gstate c) (procs c)"
    and ep: "epochs_ok (gstate c) (procs c)" and d: "gdurable c \<le> glog c" and all: "\<forall>x \<in># M. phase_ok c x"
    using inv M by (auto simp: ginv_def)
  consider err where "poisoned (gstate c) = Some err" "j = JoinErr err" "s = gstate c"
    | "poisoned (gstate c) = None" "current_epoch (gstate c) = 0" "j = JoinLeader (next_epoch (gstate c))"
      "s = (gstate c)\<lparr>next_epoch := next_epoch (gstate c) + 1, current_epoch := next_epoch (gstate c)\<rparr>"
    | "poisoned (gstate c) = None" "current_epoch (gstate c) \<noteq> 0" "j = JoinWait (current_epoch (gstate c) + 1)"
      "s = (gstate c)\<lparr>waiters := om_insert (current_epoch (gstate c) + 1)
         ((case om_lookup (waiters (gstate c)) (current_epoch (gstate c) + 1) of None \<Rightarrow> 0 | Some n \<Rightarrow> n) + 1)
         (waiters (gstate c))\<rparr>"
    using j by (auto simp: join_enter_def begin_next_sync_def Let_def split: option.splits if_splits)
  then show ?thesis
  proof cases
    case (1 err)
    show ?thesis
    proof (rule ginv_replace [OF inv M])
      fix x assume "x \<in># M" "phase_ok c x"
      then show "phase_ok ?c x" using M 1 by (cases x) (auto simp: joined_def)
    qed (use 1 d in \<open>auto simp: joined_def\<close>)
  next
    case 2
    have "waiters_ok (gstate ?c) (procs ?c)"
      by (rule waiters_ok_cong [OF _ _ w]) (auto simp: M 2 joined_def)
    moreover have "epochs_ok (gstate ?c) (procs ?c)" using ep by (auto simp: epochs_ok_def 2 M joined_def)
    moreover have "phase_ok ?c x" if "x \<in># M" for x
    proof -
      have "\<not> leads x" using ep that by (auto simp: epochs_ok_def 2 M)
      moreover have "phase_ok c x" using all that by blast
      ultimately show ?thesis using M by (cases x) (auto simp: 2 joined_def is_poisoned_def)
    qed
    ultimately show ?thesis using ok d by (auto simp: ginv_def 2 joined_def is_poisoned_def)
  next
    case 3
    have "waiters_ok (gstate c) M" by (rule waiters_ok_cong [OF _ _ w]) (auto simp: M)
    then have "waiters_ok (gstate ?c) (procs ?c)"
      using waiters_ok_queue [of "gstate c" M "current_epoch (gstate c) + 1" p] by (simp add: 3 joined_def)
    moreover have "epochs_ok (gstate ?c) (procs ?c)" using ep by (auto simp: epochs_ok_def 3 M joined_def)
    moreover have "phase_ok ?c x" if "x \<in># M" for x
      using all that M by (cases x) (auto simp: 3 joined_def is_poisoned_def)
    moreover have "phase_ok ?c (joined p j)"
    proof -
      have "\<not> current_epoch (gstate c) + 1 \<le> completed_epoch (gstate c)"
        "current_epoch (gstate c) + 1 = next_epoch (gstate c)"
        using ep 3(2) by (auto simp: epochs_ok_def)
      moreover have "Syncing (current_epoch (gstate c) + 1) p' u \<notin># M" for p' u
        using all by (metis n_not_Suc_n Suc_eq_plus1 phase_ok.simps(4))
      ultimately show ?thesis using ok 3(1) M by (auto simp: 3 joined_def is_poisoned_def)
    qed
    ultimately show ?thesis using d by (auto simp: ginv_def)
  qed
qed

lemma ginv_leave:
  assumes inv: "ginv c" and M: "procs c = add_mset (Waiting n p) M"
    and ph: "\<And>m. \<not> waits_for m ph" "\<not> leads ph"
    and ok: "phase_ok (c\<lparr>gstate := snd (release n (gstate c)), procs := add_mset ph M\<rparr>) ph"
  shows "ginv (c\<lparr>gstate := snd (release n (gstate c)), procs := add_mset ph M\<rparr>)" (is "ginv ?c")
proof -
  have w: "waiters_ok (gstate c) (add_mset (Waiting n p) M)" and ep: "epochs_ok (gstate c) (procs c)"
    and d: "gdurable c \<le> glog c" and all: "\<forall>x \<in># M. phase_ok c x"
    using inv M by (auto simp: ginv_def)
  have "waiters_ok (gstate ?c) (procs ?c)" using waiters_ok_release [OF w ph(1)] by simp
  moreover have "epochs_ok (gstate ?c) (procs ?c)"
    by (rule epochs_ok_cong [OF _ _ _ _ ep]) (use ph in \<open>auto simp: M\<close>)
  moreover have "phase_ok ?c x" if "x \<in># M" for x
  proof -
    have x: "phase_ok c x" using all that by blast
    have "Syncing m q u \<noteq> ph" for m q u using ph(2) by auto
    then show ?thesis
      using x M that release_failures [OF w] by (cases x) (auto split: if_splits)
  qed
  ultimately show ?thesis using ok d by (auto simp: ginv_def)
qed

lemma ginv_promote:
  assumes inv: "ginv c" and M: "procs c = add_mset (Waiting n p) M"
    and idle: "current_epoch (gstate c) = 0" "\<not> is_poisoned (gstate c)" "completed_epoch (gstate c) < n"
  shows "n = next_epoch (gstate c)"
    and "ginv (c\<lparr>gstate := snd (release n (snd (begin_next_sync (gstate c)))),
                 procs := add_mset (Leading n p) M\<rparr>)" (is "ginv ?c")
proof -
  have w: "waiters_ok (gstate c) (add_mset (Waiting n p) M)" and ep: "epochs_ok (gstate c) (procs c)"
    and d: "gdurable c \<le> glog c" and all: "\<forall>x \<in># M. phase_ok c x" and ok: "phase_ok c (Waiting n p)"
    using inv M by (auto simp: ginv_def)
  show n: "n = next_epoch (gstate c)" using ok ep idle by (auto simp: epochs_ok_def)
  let ?s = "snd (begin_next_sync (gstate c))"
  have s: "current_epoch ?s = n" "completed_epoch ?s = completed_epoch (gstate c)" "next_epoch ?s = n + 1"
    "waiters ?s = waiters (gstate c)" "failures ?s = failures (gstate c)" "is_poisoned ?s = is_poisoned (gstate c)"
    using n by (simp_all add: begin_next_sync_def is_poisoned_def)
  have w': "waiters_ok ?s (add_mset (Waiting n p) M)" using w s by (simp add: waiters_ok_def)
  have "waiters_ok (gstate ?c) (procs ?c)" using waiters_ok_release [OF w'] by simp
  moreover have "epochs_ok (gstate ?c) (procs ?c)" using ep idle n s by (auto simp: epochs_ok_def M)
  moreover have "phase_ok ?c x" if x: "x \<in># M" for x
  proof -
    have "\<not> leads x" using ep x idle by (auto simp: epochs_ok_def M)
    moreover have "phase_ok c x" using all x by blast
    ultimately show ?thesis
      using M x n s release_failures [OF w'] by (cases x) (auto split: if_splits)
  qed
  moreover have "p \<le> glog c" using ok idle by auto
  ultimately show "ginv ?c" using d idle s by (auto simp: ginv_def)
qed

lemma ginv_wake:
  assumes inv: "ginv c" and M: "procs c = add_mset (Waiting n p) M" and j: "join_wake n (gstate c) = (j, s)"
  shows "ginv (c\<lparr>gstate := s, procs := add_mset (joined p j) M\<rparr>)" (is "ginv ?c")
proof -
  have ok: "phase_ok c (Waiting n p)" using inv M by (auto simp: ginv_def)
  show ?thesis
  proof (cases "n \<le> completed_epoch (gstate c)")
    case True
    then have j': "j = (case failures (gstate c) n of Some err \<Rightarrow> JoinErr err | None \<Rightarrow> JoinFollower n)"
      and s: "s = snd (release n (gstate c))"
      using j by (simp_all add: join_wake_def split_beta)
    show ?thesis unfolding s
    proof (rule ginv_leave [OF inv M])
      show "phase_ok (c\<lparr>gstate := snd (release n (gstate c)), procs := add_mset (joined p j) M\<rparr>) (joined p j)"
        using ok True by (auto simp: j' joined_def split: option.split)
    qed (simp_all add: j' joined_def split: option.split)
  next
    case False
    show ?thesis
    proof (cases "poisoned (gstate c)")
      case (Some err)
      then have j': "j = JoinErr err" and s: "s = snd (release n (gstate c))"
        using j False by (simp_all add: join_wake_def)
      show ?thesis unfolding s by (rule ginv_leave [OF inv M]) (simp_all add: j' joined_def)
    next
      case None
      show ?thesis
      proof (cases "current_epoch (gstate c) = 0")
        case True
        then have "j = JoinLeader n" "s = snd (release n (snd (begin_next_sync (gstate c))))"
          using j False None by (simp_all add: join_wake_def split_beta)
        then show ?thesis
          using ginv_promote(2) [OF inv M True] False None by (simp add: joined_def is_poisoned_def)
      next
        case busy: False
        then have "j = JoinWait n" "s = gstate c" using j False None by (simp_all add: join_wake_def)
        then have "?c = c" using M by (simp add: joined_def)
        then show ?thesis using inv by simp
      qed
    qed
  qed
qed

lemma ginv_spawn: "ginv c \<Longrightarrow> ginv (c\<lparr>procs := add_mset Fresh (procs c)\<rparr>)"
proof -
  assume inv: "ginv c"
  have "phase_ok (c\<lparr>procs := add_mset Fresh (procs c)\<rparr>) x" if "x \<in># procs c" for x
    using inv that by (cases x) (auto simp: ginv_def)
  then show ?thesis using inv by (auto simp: ginv_def waiters_ok_def epochs_ok_def)
qed

lemma ginv_step: "gstep c c' \<Longrightarrow> ginv c \<Longrightarrow> ginv c'"
  by (induction rule: gstep.induct)
    (rule ginv_spawn ginv_append ginv_refuse ginv_enter ginv_wake ginv_sync_begin ginv_sync_ok
      ginv_sync_err ginv_publish_err; assumption)+

lemma reachable_ginv: "greachable c \<Longrightarrow> ginv c"
  unfolding greachable_def by (induction rule: rtranclp_induct) (auto intro: ginv_init ginv_step)

section \<open>A run with a leader and a queued follower\<close>

definition demo_state :: "nat \<Rightarrow> nat \<Rightarrow> nat \<Rightarrow> (nat, nat) omap \<Rightarrow> GroupState" where
  "demo_state cur fin nxt w = \<lparr>waiters = w, current_epoch = cur, completed_epoch = fin,
     next_epoch = nxt, failures = Map.empty, poisoned = None\<rparr>"

definition demo_conf :: "GroupState \<Rightarrow> nat \<Rightarrow> nat \<Rightarrow> phase multiset \<Rightarrow> gconf" where
  "demo_conf s l d M = \<lparr>gstate = s, glog = l, gdurable = d, procs = M\<rparr>"

lemmas demo_defs = demo_conf_def demo_state_def group_new_def joined_def is_poisoned_def
  begin_next_sync_def om_lookup_def

definition demo_idle :: gconf where
  "demo_idle = demo_conf (demo_state 0 1 2 [(2, 1)]) 2 2 {#Acked 1, Waiting 2 2#}"

lemma demo_reachable: "greachable demo_idle"
proof -
  have "gstep ginit (demo_conf group_new 0 0 {#Fresh#})"
    using spawn [of ginit] by (simp add: ginit_def demo_conf_def)
  also have "gstep\<^sup>*\<^sup>* \<dots> (demo_conf group_new 0 0 {#Fresh, Fresh#})"
    using spawn [of "demo_conf group_new 0 0 {#Fresh#}"] by (simp add: demo_conf_def)
  also have "gstep\<^sup>*\<^sup>* \<dots> (demo_conf group_new 1 0 {#Appended 1, Fresh#})"
    using append [of "demo_conf group_new 0 0 {#Fresh, Fresh#}" "{#Fresh#}"]
    by (simp add: demo_defs r_into_rtranclp)
  also have "gstep\<^sup>*\<^sup>* \<dots> (demo_conf group_new 2 0 {#Appended 1, Appended 2#})"
    using append [of "demo_conf group_new 1 0 {#Appended 1, Fresh#}" "{#Appended 1#}"]
    by (simp add: demo_defs r_into_rtranclp add_mset_commute numeral_2_eq_2)
  also have "gstep\<^sup>*\<^sup>* \<dots> (demo_conf (demo_state 1 0 2 []) 2 0 {#Leading 1 1, Appended 2#})"
    using enter [of "demo_conf group_new 2 0 {#Appended 1, Appended 2#}" 1 "{#Appended 2#}" "JoinLeader 1" "demo_state 1 0 2 []"]
    by (simp add: demo_defs join_enter_def r_into_rtranclp numeral_2_eq_2)
  also have "gstep\<^sup>*\<^sup>* \<dots> (demo_conf (demo_state 1 0 2 [(2, 1)]) 2 0 {#Leading 1 1, Waiting 2 2#})"
    using enter [of "demo_conf (demo_state 1 0 2 []) 2 0 {#Leading 1 1, Appended 2#}" 2 "{#Leading 1 1#}" "JoinWait 2" "demo_state 1 0 2 [(2, 1)]"]
    by (simp add: demo_defs join_enter_def r_into_rtranclp add_mset_commute numeral_2_eq_2)
  also have "gstep\<^sup>*\<^sup>* \<dots> (demo_conf (demo_state 1 0 2 [(2, 1)]) 2 0 {#Syncing 1 1 2, Waiting 2 2#})"
    using sync_begin [of "demo_conf (demo_state 1 0 2 [(2, 1)]) 2 0 {#Leading 1 1, Waiting 2 2#}" 1 1 "{#Waiting 2 2#}"]
    by (simp add: demo_defs r_into_rtranclp)
  also have "gstep\<^sup>*\<^sup>* \<dots> demo_idle"
    using sync_ok [of "demo_conf (demo_state 1 0 2 [(2, 1)]) 2 0 {#Syncing 1 1 2, Waiting 2 2#}" 1 1 2 "{#Waiting 2 2#}"]
    by (simp add: demo_defs demo_idle_def complete_sync_def r_into_rtranclp)
  finally show ?thesis unfolding greachable_def .
qed

section \<open>Properties\<close>

text \<open>C5. No writer is acknowledged before its append is durable. In every interleaving of any
  number of writers, with fsyncs that succeed or fail at will, a writer whose \<^verbatim>\<open>join_group\<close> and
  sync succeeded appended at a position a completed fsync covers, and what is durable was
  appended.\<close>

theorem group_commit_durable:
  assumes "greachable c" and "Acked p \<in># procs c"
  shows "p \<le> gdurable c \<and> gdurable c \<le> glog c"
  using reachable_ginv [OF assms(1)] assms(2) by (auto simp: ginv_def)

theorem group_commit_durable_witness: "1 \<le> gdurable demo_idle \<and> gdurable demo_idle \<le> glog demo_idle"
  by (rule group_commit_durable [OF demo_reachable]) (simp add: demo_idle_def demo_conf_def)

text \<open>C15. Epochs are sequential and nobody waits on an idle engine. In every reachable
  configuration, a writer that wakes up either leaves the queue or some other writer is in the
  middle of a sync; and when the writer takes over as leader, the epoch it is handed is the one
  it was waiting for, so the assertion in \<^verbatim>\<open>join_group\<close> holds.\<close>

theorem group_commit_progress:
  assumes "greachable c" and "Waiting n p \<in># procs c"
  shows "(fst (join_wake n (gstate c)) \<noteq> JoinWait n \<or> (\<exists>ph \<in># procs c. leads ph)) \<and>
    (fst (join_wake n (gstate c)) = JoinLeader n \<longrightarrow> fst (begin_next_sync (gstate c)) = n)"
proof -
  have inv: "ginv c" using assms(1) by (rule reachable_ginv)
  obtain M where M: "procs c = add_mset (Waiting n p) M" using assms(2) by (metis multi_member_split)
  have "fst (join_wake n (gstate c)) \<noteq> JoinWait n \<or> current_epoch (gstate c) \<noteq> 0"
    by (auto simp: join_wake_def split_beta split: option.split)
  moreover have "\<exists>ph \<in># procs c. leads ph" if "current_epoch (gstate c) \<noteq> 0"
    using inv that by (auto simp: ginv_def epochs_ok_def dest!: size_eq_Suc_imp_elem)
  moreover have "fst (begin_next_sync (gstate c)) = n" if "fst (join_wake n (gstate c)) = JoinLeader n"
  proof -
    have "completed_epoch (gstate c) < n" "\<not> is_poisoned (gstate c)" "current_epoch (gstate c) = 0"
      using that by (auto simp: join_wake_def is_poisoned_def split_beta split: if_splits option.splits)
    then show ?thesis using ginv_promote(1) [OF inv M] by (simp add: begin_next_sync_def)
  qed
  ultimately show ?thesis by blast
qed

theorem group_commit_progress_witness:
  "fst (join_wake 2 (gstate demo_idle)) = JoinLeader 2 \<and> fst (begin_next_sync (gstate demo_idle)) = 2"
proof
  show "fst (join_wake 2 (gstate demo_idle)) = JoinLeader 2"
    by (simp add: demo_idle_def demo_conf_def demo_state_def join_wake_def begin_next_sync_def)
  with group_commit_progress [OF demo_reachable, of 2 2]
  show "fst (begin_next_sync (gstate demo_idle)) = 2"
    by (simp add: demo_idle_def demo_conf_def)
qed

end
