(* ===== verification/Engine_Read.thy ===== *)
theory Engine_Read
  imports Sstable Memtable Group_Commit
begin

text \<open>
  The storage engine of \<^verbatim>\<open>storage/core.rs\<close>: its state and its read path (\<^verbatim>\<open>find\<close>,
  \<^verbatim>\<open>scan\<close>, \<^verbatim>\<open>get_seq_for_key\<close>). The state is what the struct \<^verbatim>\<open>OmniKV\<close> and the roots
  it publishes hold, with files as their contents: the heap file, the tables a handle maps, the
  files on disk by path. What the engine takes from other crates is the record \<open>env\<close>: the
  CRC-32, the LZ4 codec and the floating-point sizes of Bloom filters.

  A database denotes a map from keys and sequences to cells: a value or a deletion, with an
  expiry. The lemmas show that reads compute what that map says: the newest cell at or below
  the read sequence, filtered by deletion and expiry, whatever the split over memtables and
  tables and whatever the block cache holds.
\<close>

section \<open>State\<close>

record env =
  crc_of :: "bytes \<Rightarrow> u32"
  lz4_compress :: "bytes \<Rightarrow> bytes"
  lz4_decompress :: "bytes \<Rightarrow> bytes option"
  bloom_dims :: "nat \<Rightarrow> nat \<times> nat"

text \<open>A mapped table: its bytes, its Bloom filter and its path.\<close>

type_synonym handle = "bytes \<times> BloomFilter \<times> bytes"

record Manifest =
  heap_path :: bytes
  base_path :: bytes
  m_sstables :: "bytes list"
  m_l1_sstables :: "bytes list"
  max_seq :: u64
  format_version :: u32

record StorageRoots =
  base_mmap :: bytes
  base_bloom :: BloomFilter
  sstables :: "handle list"
  l1_sstables :: "handle list"
  memtable :: memtable
  frozen_memtables :: "memtable list"
  manifest :: Manifest

record CompactionPolicy =
  l0_compaction_trigger :: nat
  l1_compaction_trigger :: nat
  l0_write_stall_threshold :: nat
  write_stall_wait_attempts :: nat
  write_stall_wait_ms :: u64

text \<open>The engine. \<open>heap\<close> is the contents of the heap file and \<open>heap_durable\<close> the length an
  fsync has covered; \<open>files\<close> are the table files by path, \<open>bloom_files\<close> the filter files by
  the path of their table, and \<open>manifest_file\<close> is the manifest on disk.\<close>

record OmniKV =
  roots :: StorageRoots
  global_seq :: u64
  heap :: bytes
  heap_durable :: nat
  heap_offset :: u64
  wal :: WriteAheadLog
  active_snapshots :: "(u64, nat) omap"
  replica_retention_floors :: "(bytes, u64) omap"
  block_cache :: "u64 \<Rightarrow> bytes option"
  compaction_policy :: CompactionPolicy
  group_commit :: GroupState
  files :: "bytes \<Rightarrow> bytes option"
  bloom_files :: "bytes \<Rightarrow> BloomFilter option"
  manifest_file :: "Manifest option"
  manifest_path :: bytes
  file_seq :: u64

definition UNCOMPRESSED_FLAG :: u64 where
  "UNCOMPRESSED_FLAG = push_bit 63 1"

definition raw_len :: "u64 \<Rightarrow> nat" where
  "raw_len l = unat (l AND NOT UNCOMPRESSED_FLAG)"

section \<open>Reading a value from the heap\<close>

text \<open>\<^verbatim>\<open>read_from_heap_into\<close> past the cache: a positional read of exactly the payload, its
  checksum, and decompression unless the length carries the flag.\<close>

definition heap_value :: "env \<Rightarrow> bytes \<Rightarrow> ptr \<Rightarrow> bytes result" where
  "heap_value e h = (\<lambda>(off, len, pcrc, ex).
     let n = raw_len len; o1 = unat off; buf = slice o1 (o1 + n) h in
     if n \<noteq> 0 \<and> o1 + n > length h then Inl (Err (IoError ''failed to fill whole buffer''))
     else if crc_of e buf \<noteq> pcrc then Inl (Err (IoError ''Payload CRC32 mismatch!''))
     else if len AND UNCOMPRESSED_FLAG \<noteq> 0 then Inr (utf8_lossy buf)
     else case lz4_decompress e buf of
       None \<Rightarrow> Inl (Err (IoError ''LZ4 Error''))
     | Some d \<Rightarrow> Inr (utf8_lossy d))"

definition read_from_heap :: "env \<Rightarrow> ptr \<Rightarrow> OmniKV \<Rightarrow> bytes result \<times> OmniKV" where
  "read_from_heap e p db =
     (case block_cache db (fst p) of
        Some v \<Rightarrow> (Inr v, db)
      | None \<Rightarrow>
          (case heap_value e (heap db) p of
             Inl err \<Rightarrow> (Inl err, db)
           | Inr v \<Rightarrow> (Inr v, db\<lparr>block_cache := (block_cache db)(fst p \<mapsto> v)\<rparr>)))"

section \<open>Point lookups\<close>

definition handle_find :: "env \<Rightarrow> handle \<Rightarrow> bytes \<Rightarrow> u64 \<Rightarrow> ptr option result" where
  "handle_find e = (\<lambda>(data, bloom, path) k s.
     bind_res (might_contain bloom (hash_key k)) (\<lambda>b.
       if b then sst_find (crc_of e) data k s else Inr None))"

definition or_else :: "'p option result \<Rightarrow> 'p option result \<Rightarrow> 'p option result" where
  "or_else a b = bind_res a (\<lambda>r. case r of Some p \<Rightarrow> Inr (Some p) | None \<Rightarrow> b)"

definition base_handle :: "StorageRoots \<Rightarrow> handle" where
  "base_handle r = (base_mmap r, base_bloom r, [])"

text \<open>The search of \<^verbatim>\<open>find\<close>: memtable, frozen memtables, L0, L1 (each newest first), base.\<close>

definition find_ptr :: "env \<Rightarrow> StorageRoots \<Rightarrow> bytes \<Rightarrow> u64 \<Rightarrow> ptr option result" where
  "find_ptr e r k s =
     or_else (Inr (map_option snd (mem_find (memtable r) k s)))
    (or_else (search_levels (\<lambda>m. Inr (map_option snd (mem_find m k s))) (rev (frozen_memtables r)))
    (or_else (search_levels (\<lambda>t. handle_find e t k s) (rev (sstables r)))
    (or_else (search_levels (\<lambda>t. handle_find e t k s) (rev (l1_sstables r)))
       (handle_find e (base_handle r) k s))))"

definition expired :: "u64 \<Rightarrow> u64 \<Rightarrow> bool" where
  "expired now ex \<longleftrightarrow> ex > 0 \<and> ex \<le> now"

definition db_find :: "env \<Rightarrow> u64 \<Rightarrow> bytes \<Rightarrow> u64 \<Rightarrow> OmniKV \<Rightarrow> bytes option result \<times> OmniKV" where
  "db_find e now k s db =
     (case find_ptr e (roots db) k s of
        Inl err \<Rightarrow> (Inl err, db)
      | Inr None \<Rightarrow> (Inr None, db)
      | Inr (Some (off, len, pcrc, ex)) \<Rightarrow>
          if len = 0 then (Inr None, db)
          else if expired now ex then (Inr None, db)
          else (case read_from_heap e (off, len, pcrc, ex) db of
                  (Inl err, db') \<Rightarrow> (Inl err, db')
                | (Inr v, db') \<Rightarrow> (Inr (Some v), db')))"

section \<open>Scans\<close>

type_synonym candidate = "bytes \<times> u64 \<times> ptr"

definition shard_candidates :: "bytes \<Rightarrow> bytes \<Rightarrow> u64 \<Rightarrow> memtable_shard \<Rightarrow> candidate list" where
  "shard_candidates start stop s sh =
     map (\<lambda>((k, rq), p). (k, unrev rq, p))
       (filter (\<lambda>((k, rq), p). unrev rq \<le> s)
         (takeWhile (\<lambda>((k, rq), p). k \<le> stop) (om_range (start, Reverse s) sh)))"

definition mem_candidates :: "bytes \<Rightarrow> bytes \<Rightarrow> u64 \<Rightarrow> memtable \<Rightarrow> candidate list" where
  "mem_candidates start stop s m = concat (map (shard_candidates start stop s) m)"

definition table_candidates ::
  "env \<Rightarrow> bytes \<Rightarrow> bytes \<Rightarrow> u64 \<Rightarrow> bytes \<Rightarrow> candidate list result" where
  "table_candidates e start stop s data =
     bind_res (iter_from (crc_of e) data start) (\<lambda>rs.
       Inr (map (\<lambda>r. (key r, seq r, ptr_of r))
             (filter (\<lambda>r. start \<le> key r \<and> is_valid (crc_of e) r \<and> seq r \<le> s)
               (takeWhile (\<lambda>r. key r \<le> stop) rs))))"

fun collect_tables :: "(bytes \<Rightarrow> candidate list result) \<Rightarrow> bytes list \<Rightarrow> candidate list result" where
  "collect_tables f [] = Inr []"
| "collect_tables f (d # ds) =
     bind_res (f d) (\<lambda>cs. bind_res (collect_tables f ds) (\<lambda>rest. Inr (cs @ rest)))"

text \<open>\<^verbatim>\<open>Vec::dedup_by\<close> on an equal key: of a run of equal keys the first element stays.\<close>

fun dedup_on :: "('a \<Rightarrow> 'k) \<Rightarrow> 'a list \<Rightarrow> 'a list" where
  "dedup_on f [] = []"
| "dedup_on f [c] = [c]"
| "dedup_on f (c # d # cs) = (if f d = f c then dedup_on f (c # cs) else c # dedup_on f (d # cs))"

text \<open>\<^verbatim>\<open>scan_iter_inner\<close>. The unstable sort by key and descending sequence is a sort on those
  two fields; candidates that agree on both are versions of one write.\<close>

definition scan_candidates :: "env \<Rightarrow> bytes \<Rightarrow> bytes \<Rightarrow> u64 \<Rightarrow> StorageRoots \<Rightarrow> candidate list result" where
  "scan_candidates e start stop s r =
     bind_res (collect_tables (table_candidates e start stop s)
                 (map fst (rev (sstables r)) @ map fst (l1_sstables r) @ [base_mmap r]))
       (\<lambda>ts. let cs = mem_candidates start stop s (memtable r) @
                      concat (map (mem_candidates start stop s) (rev (frozen_memtables r))) @ ts
             in Inr (dedup_on fst (sort_key (\<lambda>c. (fst c, Reverse (fst (snd c)))) cs)))"

text \<open>\<^verbatim>\<open>try_next\<close>, run until the candidates are used up or a read fails.\<close>

fun scan_loop :: "env \<Rightarrow> u64 \<Rightarrow> candidate list \<Rightarrow> OmniKV \<Rightarrow> (bytes \<times> bytes) list result \<times> OmniKV" where
  "scan_loop e now [] db = (Inr [], db)"
| "scan_loop e now ((k, q, (off, len, pcrc, ex)) # cs) db =
     (if len = 0 \<or> expired now ex then scan_loop e now cs db
      else case read_from_heap e (off, len, pcrc, ex) db of
        (Inl err, db') \<Rightarrow> (Inl err, db')
      | (Inr v, db') \<Rightarrow>
          (case scan_loop e now cs db' of
             (Inl err, db'') \<Rightarrow> (Inl err, db'')
           | (Inr rest, db'') \<Rightarrow> (Inr ((utf8_lossy k, v) # rest), db'')))"

definition db_scan ::
  "env \<Rightarrow> u64 \<Rightarrow> bytes \<Rightarrow> bytes \<Rightarrow> u64 \<Rightarrow> OmniKV \<Rightarrow> (bytes \<times> bytes) list result \<times> OmniKV" where
  "db_scan e now start stop s db =
     (case scan_candidates e start stop s (roots db) of
        Inl err \<Rightarrow> (Inl err, db)
      | Inr cs \<Rightarrow> scan_loop e now cs db)"

section \<open>The sequence of the latest version\<close>

fun seq_scan :: "(bytes \<Rightarrow> u32) \<Rightarrow> bytes \<Rightarrow> u64 \<Rightarrow> OmniRecord list \<Rightarrow> u64 \<Rightarrow> u64" where
  "seq_scan crc k s [] best = best"
| "seq_scan crc k s (r # rs) best =
     (if key r > k then best
      else seq_scan crc k s rs
        (if key r = k \<and> is_valid crc r \<and> seq r \<le> s \<and> seq r > best then seq r else best))"

definition handle_seq :: "env \<Rightarrow> handle \<Rightarrow> bytes \<Rightarrow> u64 \<Rightarrow> u64 option result" where
  "handle_seq e = (\<lambda>(data, bloom, path) k s.
     bind_res (might_contain bloom (hash_key k)) (\<lambda>b.
       if \<not> b then Inr None
       else bind_res (iter_from (crc_of e) data k) (\<lambda>rs.
              let best = seq_scan (crc_of e) k s rs 0
              in Inr (if best > 0 then Some best else None))))"

definition get_seq_for_key :: "env \<Rightarrow> bytes \<Rightarrow> u64 \<Rightarrow> StorageRoots \<Rightarrow> u64 result" where
  "get_seq_for_key e k s r =
     bind_res
      (or_else (Inr (map_option fst (mem_find (memtable r) k s)))
      (or_else (search_levels (\<lambda>m. Inr (map_option fst (mem_find m k s))) (rev (frozen_memtables r)))
      (or_else (search_levels (\<lambda>t. handle_seq e t k s) (rev (sstables r)))
      (or_else (search_levels (\<lambda>t. handle_seq e t k s) (rev (l1_sstables r)))
         (handle_seq e (base_handle r) k s)))))
      (\<lambda>q. Inr (case q of None \<Rightarrow> 0 | Some q \<Rightarrow> q))"

section \<open>What a database denotes\<close>

text \<open>Tables hold one pointer per version.\<close>

definition rec_functional :: "OmniRecord list \<Rightarrow> bool" where
  "rec_functional rs \<longleftrightarrow> (\<forall>r \<in> set rs. \<forall>r' \<in> set rs. key r = key r' \<and> seq r = seq r' \<longrightarrow> ptr_of r = ptr_of r')"

text \<open>A base file that holds no table yet is 4096 zero bytes.\<close>

definition table_data :: "env \<Rightarrow> bytes \<Rightarrow> bool" where
  "table_data e data \<longleftrightarrow>
     (\<exists>rs. data = sst_bytes rs \<and> table_ok (crc_of e) rs \<and> block_aligned rs \<and> rec_functional rs) \<or>
     (data = replicate 4096 0 \<and> crc_of e (replicate 38 0) \<noteq> 0)"

definition table_records :: "env \<Rightarrow> bytes \<Rightarrow> OmniRecord list" where
  "table_records e data = sst_iter (crc_of e) data 0"

definition bloom_ok :: "BloomFilter \<Rightarrow> OmniRecord list \<Rightarrow> bool" where
  "bloom_ok bf rs \<longleftrightarrow> bloom_wf bf \<and> (\<forall>r \<in> set rs. covers bf (hash_key (key r)))"

definition handle_ok :: "env \<Rightarrow> handle \<Rightarrow> bool" where
  "handle_ok e = (\<lambda>(data, bloom, path). table_data e data \<and> bloom_ok bloom (table_records e data))"

definition handle_versions :: "env \<Rightarrow> handle \<Rightarrow> vmap" where
  "handle_versions e = (\<lambda>(data, bloom, path). rec_versions (table_records e data))"

definition levels :: "env \<Rightarrow> StorageRoots \<Rightarrow> bytes \<Rightarrow> (u64 \<Rightarrow> ptr option) list" where
  "levels e r k =
     mem_versions (memtable r) k # map (\<lambda>m. mem_versions m k) (rev (frozen_memtables r)) @
     map (\<lambda>t. handle_versions e t k) (rev (sstables r)) @
     map (\<lambda>t. handle_versions e t k) (rev (l1_sstables r)) @
     [handle_versions e (base_handle r) k]"

definition db_versions :: "env \<Rightarrow> StorageRoots \<Rightarrow> vmap" where
  "db_versions e r k = merge_levels (levels e r k)"

type_synonym cell = "bytes option \<times> u64"

definition cell_of :: "env \<Rightarrow> bytes \<Rightarrow> ptr \<Rightarrow> cell" where
  "cell_of e h = (\<lambda>(off, len, pcrc, ex).
     (if len = 0 then None
      else case heap_value e h (off, len, pcrc, ex) of Inr v \<Rightarrow> Some v | Inl _ \<Rightarrow> None, ex))"

definition db_cells :: "env \<Rightarrow> OmniKV \<Rightarrow> bytes \<Rightarrow> u64 \<Rightarrow> cell option" where
  "db_cells e db k q = map_option (cell_of e (heap db)) (db_versions e (roots db) k q)"

text \<open>The specification of a read at sequence \<open>s\<close> and time \<open>now\<close>.\<close>

definition spec_read :: "(bytes \<Rightarrow> u64 \<Rightarrow> cell option) \<Rightarrow> u64 \<Rightarrow> bytes \<Rightarrow> u64 \<Rightarrow> bytes option" where
  "spec_read a now k s =
     (case visible (a k) s of
        None \<Rightarrow> None
      | Some (v, ex) \<Rightarrow> if expired now ex then None else v)"

definition roots_ok :: "env \<Rightarrow> StorageRoots \<Rightarrow> bool" where
  "roots_ok e r \<longleftrightarrow> mem_wf (memtable r) \<and> (\<forall>m \<in> set (frozen_memtables r). mem_wf m) \<and>
     (\<forall>t \<in> set (sstables r). handle_ok e t) \<and> (\<forall>t \<in> set (l1_sstables r). handle_ok e t) \<and>
     handle_ok e (base_handle r) \<and> (\<forall>k. sorted_wrt above (levels e r k))"

text \<open>Every live pointer is readable inside the heap region handed out so far; the block cache
  agrees with the heap on live pointers, and pointers to one offset carry one value, so filling
  the cache keeps it right.\<close>

definition live :: "env \<Rightarrow> StorageRoots \<Rightarrow> ptr set" where
  "live e r = {p. \<exists>k q. db_versions e r k q = Some p}"

definition ptr_ok :: "env \<Rightarrow> OmniKV \<Rightarrow> ptr \<Rightarrow> bool" where
  "ptr_ok e db p \<longleftrightarrow> fst (snd p) \<noteq> 0 \<longrightarrow>
     0 < raw_len (fst (snd p)) \<and> unat (fst p) + raw_len (fst (snd p)) \<le> heap_durable db \<and>
     unat (fst p) + raw_len (fst (snd p)) \<le> unat (heap_offset db) \<and>
     (\<exists>v. heap_value e (heap db) p = Inr v \<and> block_cache db (fst p) \<in> {None, Some v})"

definition same_values :: "env \<Rightarrow> bytes \<Rightarrow> ptr set \<Rightarrow> bool" where
  "same_values e h P \<longleftrightarrow> (\<forall>p \<in> P. \<forall>p' \<in> P. fst (snd p) \<noteq> 0 \<and> fst (snd p') \<noteq> 0 \<and> fst p = fst p' \<longrightarrow>
     heap_value e h p = heap_value e h p')"

definition db_ok :: "env \<Rightarrow> OmniKV \<Rightarrow> bool" where
  "db_ok e db \<longleftrightarrow> roots_ok e (roots db) \<and> heap_durable db \<le> length (heap db) \<and>
     (\<forall>k q p. db_versions e (roots db) k q = Some p \<longrightarrow>
       utf8_valid k \<and> length k < 65536 \<and> 0 < q \<and> q < global_seq db) \<and>
     (\<forall>p \<in> live e (roots db). ptr_ok e db p) \<and> same_values e (heap db) (live e (roots db)) \<and>
     (\<forall>off v. block_cache db off = Some v \<longrightarrow> off < heap_offset db) \<and> 0 < global_seq db"

section \<open>Tables as levels\<close>

lemma slice_replicate: "j \<le> n \<Longrightarrow> slice i j (replicate n x) = replicate (j - i) x"
  by (simp add: slice_def)

lemma le_zero [simp]:
  "le_u16 (replicate n 0) = 0" "le_u32 (replicate n 0) = 0" "le_u64 (replicate n 0) = 0"
proof -
  have "le_dec (replicate n 0) = 0" by (induction n) auto
  then show "le_u16 (replicate n 0) = 0" "le_u32 (replicate n 0) = 0" "le_u64 (replicate n 0) = 0"
    by (simp_all add: le_u16_def le_u32_def le_u64_def)
qed

lemma zero_le [simp]: "u16_le 0 = replicate 2 0" "u32_le 0 = replicate 4 0" "u64_le 0 = replicate 8 0"
proof -
  have "le_enc n 0 = replicate n 0" for n by (induction n) auto
  then show "u16_le 0 = replicate 2 0" "u32_le 0 = replicate 4 0" "u64_le 0 = replicate 8 0"
    by (simp_all add: u16_le_def u32_le_def u64_le_def)
qed

lemma decode_zeros:
  assumes "crc (replicate 38 0) \<noteq> 0"
  shows "decode crc (replicate 4096 0) = None"
proof -
  let ?r = "\<lparr>seq = 0, key = [], offset = 0, rlength = 0, crc32 = 0, payload_crc32 = 0, expiry = 0\<rparr>"
  have "crc_input ?r = replicate 38 0"
    by (simp add: crc_input_def flip: replicate_add)
  then have "\<not> is_valid crc ?r" using assms by (simp add: is_valid_def compute_crc_def)
  then show ?thesis
    by (simp add: decode_def Let_def slice_replicate)
qed

lemma zeros_no_trailer: "\<not> has_trailer (replicate 4096 0)"
proof -
  have "hd (replicate 8 0 :: bytes) \<noteq> hd MAGIC" by (simp add: MAGIC_def)
  then have "replicate 8 0 \<noteq> MAGIC" by metis
  then show ?thesis by (simp add: has_trailer_def)
qed

lemma zero_table:
  assumes "crc (replicate 38 0) \<noteq> 0"
  shows "iter_from crc (replicate 4096 0) k = Inr []" and "sst_iter crc (replicate 4096 0) 0 = []"
proof -
  show it: "sst_iter crc (replicate 4096 0) 0 = []"
    using decode_zeros [of crc, OF assms] sst_iter.simps [of crc "replicate 4096 0" 0] zeros_no_trailer
    by simp
  show "iter_from crc (replicate 4096 0) k = Inr []"
    unfolding iter_from_def get_block_for_key_def using zeros_no_trailer it by simp
qed

text \<open>The records a table yields are valid and in key order, and a scan from a key is a suffix of
  them that misses nothing at or after the key.\<close>

lemma table_iter:
  assumes "table_data e data"
  shows "(\<forall>r \<in> set (table_records e data). storable (crc_of e) r) \<and>
    sorted (map key (table_records e data)) \<and> rec_functional (table_records e data) \<and>
    (\<exists>i. iter_from (crc_of e) data start = Inr (drop i (table_records e data)) \<and>
       (\<forall>r \<in> set (take i (table_records e data)). key r < start))"
  using assms unfolding table_data_def
proof (elim disjE exE conjE)
  fix rs assume d: "data = sst_bytes rs" and ok: "table_ok (crc_of e) rs" "block_aligned rs"
    and rf: "rec_functional rs"
  have "table_records e data = rs"
    using sst_iter_records [OF ok(1), of 0] by (simp add: table_records_def d)
  then show ?thesis using ok rf block_start_split [OF ok, of start] by (simp add: d table_ok_def)
next
  assume d: "data = replicate 4096 0" and z: "crc_of e (replicate 38 0) \<noteq> 0"
  then have "table_records e data = []" by (simp add: table_records_def zero_table)
  then show ?thesis using zero_table(1) [of "crc_of e" start, OF z] by (auto simp: d rec_functional_def)
qed

lemma table_find:
  assumes "table_data e data"
  shows "sst_find (crc_of e) data k s = Inr (visible (rec_versions (table_records e data) k) s)"
proof -
  let ?rs = "table_records e data"
  obtain i where it: "iter_from (crc_of e) data k = Inr (drop i ?rs)"
    and lt: "\<forall>r \<in> set (take i ?rs). key r < k" and st: "\<forall>r \<in> set ?rs. storable (crc_of e) r"
    and so: "sorted (map key ?rs)" using table_iter [OF assms, of k] by blast
  have "filter (\<lambda>r. key r = k) (take i ?rs) = []" using lt by (auto simp: filter_empty_conv)
  then have f: "filter (\<lambda>r. key r = k) (drop i ?rs) = filter (\<lambda>r. key r = k) ?rs"
    using filter_append [of "\<lambda>r. key r = k" "take i ?rs" "drop i ?rs"] by simp
  have "sorted (map key (drop i ?rs))" using so by (simp add: drop_map [symmetric] sorted_wrt_drop)
  moreover have "\<forall>r \<in> set (drop i ?rs). is_valid (crc_of e) r"
    using st in_set_dropD [of _ i ?rs] by (simp add: storable_def)
  ultimately show ?thesis
    using it find_scan_visible [of "drop i ?rs" "crc_of e" k s] f by (simp add: sst_find_def rec_versions_def)
qed

lemma rec_versions_None: "(\<forall>r \<in> set rs. key r \<noteq> k) \<Longrightarrow> rec_versions rs k = Map.empty"
  by (auto simp: rec_versions_def filter_empty_conv)

text \<open>A filter that answers no is right: the table holds no version of the key.\<close>

lemma bloom_miss:
  assumes "bloom_ok bf rs" and "\<not> covers bf (hash_key k)"
  shows "rec_versions rs k = Map.empty"
  using assms by (intro rec_versions_None) (auto simp: bloom_ok_def)

lemma handle_find_visible:
  "handle_ok e t \<Longrightarrow> handle_find e t k s = Inr (visible (handle_versions e t k) s)"
  using bloom_miss
  by (cases t) (auto simp: handle_ok_def handle_find_def handle_versions_def bloom_ok_def might_contain_iff table_find)

interpretation hnd: version_level "handle_versions e" "handle_find e" "handle_ok e" for e
  by unfold_locales (rule handle_find_visible)

section \<open>Lookups compute the specification\<close>

lemma or_else_Inr [simp]:
  "or_else (Inr a) (Inr b) = Inr (case a of None \<Rightarrow> b | Some p \<Rightarrow> Some p)"
  by (simp add: or_else_def split: option.split)

lemma first_visible_single: "first_visible [l] s = visible l s"
  by (simp split: option.split)

lemma find_ptr_visible:
  assumes "roots_ok e r"
  shows "find_ptr e r k s = Inr (visible (db_versions e r k) s)"
proof -
  have ok: "mem_wf (memtable r)" "\<forall>m \<in> set (rev (frozen_memtables r)). mem_wf m"
    "\<forall>t \<in> set (rev (sstables r)). handle_ok e t" "\<forall>t \<in> set (rev (l1_sstables r)). handle_ok e t"
    "handle_ok e (base_handle r)" and so: "sorted_wrt above (levels e r k)"
    using assms by (auto simp: roots_ok_def)
  have "find_ptr e r k s = Inr (first_visible (levels e r k) s)"
    unfolding find_ptr_def mem.search_visible [OF ok(2)] hnd.search_visible [OF ok(3)]
      hnd.search_visible [OF ok(4)] handle_find_visible [OF ok(5)] mem_find_visible [OF ok(1)]
    by (simp add: levels_def first_visible_append first_visible_single del: first_visible.simps(1)
        split: option.split) (simp add: first_visible_append first_visible_single split: option.split)
  then show ?thesis using first_visible_merge [OF so] by (simp add: db_versions_def)
qed

lemma visible_map: "visible (\<lambda>q. map_option f (m q)) s = map_option f (visible m s)"
proof -
  have "dom (\<lambda>q. map_option f (m q)) = dom m" by auto
  then have "newest (\<lambda>q. map_option f (m q)) s = newest m s" by (simp add: newest_def)
  then show ?thesis by (cases "newest m s") (auto simp: visible_def)
qed

lemma visible_member: "visible m s = Some p \<Longrightarrow> \<exists>q \<le> s. m q = Some p"
  by (auto simp: visible_Some newest_Some)

lemma db_okD:
  assumes "db_ok e db"
  shows "roots_ok e (roots db)" and "heap_durable db \<le> length (heap db)"
    and "db_versions e (roots db) k q = Some p \<Longrightarrow>
      utf8_valid k \<and> length k < 65536 \<and> 0 < q \<and> q < global_seq db"
    and "p \<in> live e (roots db) \<Longrightarrow> ptr_ok e db p" and "same_values e (heap db) (live e (roots db))"
    and "block_cache db off = Some v \<Longrightarrow> off < heap_offset db" and "0 < global_seq db"
  using assms unfolding db_ok_def by blast+

lemma same_valuesD:
  assumes "same_values e h P" and "p \<in> P" and "p' \<in> P" and "fst (snd p) \<noteq> 0" and "fst (snd p') \<noteq> 0"
    and "fst p = fst p'"
  shows "heap_value e h p = heap_value e h p'"
  using assms unfolding same_values_def by blast

text \<open>A cached read and a read from the file return the same value, and filling the cache keeps
  the database as it was.\<close>

lemma read_live:
  assumes ok: "db_ok e db" and p: "p \<in> live e (roots db)" "fst (snd p) \<noteq> 0"
  shows "\<exists>v db'. heap_value e (heap db) p = Inr v \<and> read_from_heap e p db = (Inr v, db') \<and> db_ok e db' \<and>
    roots db' = roots db \<and> heap db' = heap db \<and> (\<exists>c. db' = db\<lparr>block_cache := c\<rparr>)"
proof -
  have "ptr_ok e db p" using ok p by (simp add: db_ok_def)
  then obtain v where v: "heap_value e (heap db) p = Inr v" "block_cache db (fst p) \<in> {None, Some v}"
    and off: "unat (fst p) < unat (heap_offset db)"
    using p(2) by (auto simp: ptr_ok_def)
  show ?thesis
  proof (cases "block_cache db (fst p)")
    case (Some w)
    then have "read_from_heap e p db = (Inr v, db)" using v by (simp add: read_from_heap_def)
    then show ?thesis
      using ok v(1) by (intro exI [of _ v] exI [of _ db]) (auto intro: exI [of _ "block_cache db"])
  next
    case None
    let ?db = "db\<lparr>block_cache := (block_cache db)(fst p \<mapsto> v)\<rparr>"
    have "read_from_heap e p db = (Inr v, ?db)" using v None by (simp add: read_from_heap_def)
    moreover have "ptr_ok e ?db p'" if p': "p' \<in> live e (roots db)" for p'
    proof -
      have old: "ptr_ok e db p'" using ok p' by (simp add: db_ok_def)
      have "heap_value e (heap db) p' = Inr v" if "fst p' = fst p" "fst (snd p') \<noteq> 0"
        using same_valuesD [OF db_okD(5) [OF ok] p' p(1) that(2) p(2) that(1)] v(1) by simp
      then show ?thesis using old by (auto simp: ptr_ok_def)
    qed
    moreover have "o1 < heap_offset db" if "((block_cache db)(fst p \<mapsto> v)) o1 = Some w" for o1 w
      using off that db_okD(6) [OF ok, of o1] by (auto simp: word_less_nat_alt split: if_splits)
    ultimately have "read_from_heap e p db = (Inr v, ?db)" "db_ok e ?db"
      using ok by (simp_all add: db_ok_def)
    then show ?thesis using v(1) by (intro exI [of _ v] exI [of _ ?db]) auto
  qed
qed

lemma find_spec:
  assumes ok: "db_ok e db"
  shows "\<exists>c. db_find e now k s db = (Inr (spec_read (db_cells e db) now k s), db\<lparr>block_cache := c\<rparr>) \<and>
    db_ok e (db\<lparr>block_cache := c\<rparr>)"
proof -
  have fp: "find_ptr e (roots db) k s = Inr (visible (db_versions e (roots db) k) s)"
    using ok by (simp add: db_ok_def find_ptr_visible)
  have cells: "visible (db_cells e db k) s = map_option (cell_of e (heap db)) (visible (db_versions e (roots db) k) s)"
    unfolding db_cells_def by (rule visible_map)
  show ?thesis
  proof (cases "visible (db_versions e (roots db) k) s")
    case None
    then show ?thesis
      using ok cells by (intro exI [of _ "block_cache db"]) (simp add: db_find_def fp spec_read_def)
  next
    case (Some p)
    obtain off len pcrc ex where p: "p = (off, len, pcrc, ex)" by (cases p)
    have live: "p \<in> live e (roots db)" using visible_member [OF Some] by (auto simp: live_def)
    show ?thesis
    proof (cases "len = 0 \<or> expired now ex")
      case True
      then show ?thesis
        using ok cells Some
        by (intro exI [of _ "block_cache db"]) (auto simp: db_find_def fp spec_read_def p cell_of_def)
    next
      case False
      then obtain v c where v: "heap_value e (heap db) p = Inr v"
        "read_from_heap e p db = (Inr v, db\<lparr>block_cache := c\<rparr>)" "db_ok e (db\<lparr>block_cache := c\<rparr>)"
        using read_live [OF ok live] by (auto simp: p)
      then show ?thesis
        using cells Some False by (intro exI [of _ c]) (simp add: db_find_def fp spec_read_def p cell_of_def)
    qed
  qed
qed

section \<open>Scans compute the specification\<close>

lemma visible_newest: "visible m s = Some p \<longleftrightarrow> (\<exists>q. newest m s = Some q \<and> m q = Some p)"
  by (rule visible_Some)

lemma takeWhile_sorted:
  fixes f :: "'a \<Rightarrow> 'b::linorder"
  shows "sorted (map f xs) \<Longrightarrow> set (takeWhile (\<lambda>x. f x \<le> b) xs) = {x \<in> set xs. f x \<le> b}"
  by (induction xs) fastforce+

lemma shard_candidates_set:
  assumes "om_wf sh"
  shows "(k, q, p) \<in> set (shard_candidates start stop s sh) \<longleftrightarrow>
    ((k, Reverse q), p) \<in> set sh \<and> start \<le> k \<and> k \<le> stop \<and> q \<le> s"
proof -
  define es where "es = om_range (start, Reverse s) sh"
  have es: "set es = {x \<in> set sh. (start, Reverse s) \<le> fst x}" using assms by (simp add: es_def om_range_set)
  have "sorted (map fst es)"
    using om_wf_range [OF assms] unfolding es_def om_wf_def by (simp add: strict_sorted_imp_sorted)
  then have "sorted (map (\<lambda>x. fst (fst x)) es)"
    by (induction es) (auto simp: less_eq_prod_def less_imp_le)
  then have tw: "set (takeWhile (\<lambda>x. fst (fst x) \<le> stop) es) = {x \<in> set es. fst (fst x) \<le> stop}"
    by (rule takeWhile_sorted)
  have cs: "shard_candidates start stop s sh =
      map (\<lambda>x. (fst (fst x), unrev (snd (fst x)), snd x))
        (filter (\<lambda>x. unrev (snd (fst x)) \<le> s) (takeWhile (\<lambda>x. fst (fst x) \<le> stop) es))"
    by (simp add: shard_candidates_def es_def case_prod_beta')
  have "(k, q, p) \<in> set (shard_candidates start stop s sh) \<longleftrightarrow>
      (\<exists>x \<in> set es. fst (fst x) \<le> stop \<and> unrev (snd (fst x)) \<le> s \<and>
         fst (fst x) = k \<and> unrev (snd (fst x)) = q \<and> snd x = p)"
    unfolding cs set_map set_filter tw image_iff prod.inject by blast
  also have "\<dots> \<longleftrightarrow> ((k, Reverse q), p) \<in> set es \<and> k \<le> stop \<and> q \<le> s"
    by (metis fst_conv prod.collapse reverse.collapse reverse.sel snd_conv)
  also have "\<dots> \<longleftrightarrow> ((k, Reverse q), p) \<in> set sh \<and> start \<le> k \<and> k \<le> stop \<and> q \<le> s"
    by (auto simp: es less_eq_reverse_def)
  finally show ?thesis .
qed

lemma mem_candidates_set:
  assumes "mem_wf m"
  shows "(k, q, p) \<in> set (mem_candidates start stop s m) \<longleftrightarrow>
    mem_versions m k q = Some p \<and> start \<le> k \<and> k \<le> stop \<and> q \<le> s"
proof -
  have wf: "om_wf sh" if "sh \<in> set m" for sh using assms that by (auto simp: mem_wf_def in_set_conv_nth)
  have "(k, q, p) \<in> set (mem_candidates start stop s m) \<longleftrightarrow>
      (\<exists>sh \<in> set m. ((k, Reverse q), p) \<in> set sh) \<and> start \<le> k \<and> k \<le> stop \<and> q \<le> s"
    unfolding mem_candidates_def by (auto simp: shard_candidates_set wf)
  also have "(\<exists>sh \<in> set m. ((k, Reverse q), p) \<in> set sh) \<longleftrightarrow> mem_versions m k q = Some p"
  proof -
    have "mem_versions m k q = Some p \<longleftrightarrow> ((k, Reverse q), p) \<in> set (m ! shard_idx k)"
      using assms by (simp add: mem_versions_def om_lookup_Some mem_wf_shard)
    moreover have "i = shard_idx k" if "i < length m" "((k, Reverse q), p) \<in> set (m ! i)" for i
      using assms that by (fastforce simp: mem_wf_def)
    moreover have "m ! shard_idx k \<in> set m" using assms by (simp add: mem_wf_def)
    ultimately show ?thesis by (metis in_set_conv_nth)
  qed
  finally show ?thesis .
qed

lemma rec_versions_iff:
  assumes "rec_functional rs"
  shows "rec_versions rs k q = Some p \<longleftrightarrow> (\<exists>r \<in> set rs. key r = k \<and> seq r = q \<and> ptr_of r = p)"
proof
  assume "rec_versions rs k q = Some p"
  then show "\<exists>r \<in> set rs. key r = k \<and> seq r = q \<and> ptr_of r = p"
    by (auto simp: rec_versions_def dest!: map_of_SomeD)
next
  assume "\<exists>r \<in> set rs. key r = k \<and> seq r = q \<and> ptr_of r = p"
  then obtain r where r: "r \<in> set rs" "key r = k" "seq r = q" "ptr_of r = p" by blast
  then have "rec_versions rs k q \<noteq> None"
    by (auto simp: rec_versions_def map_of_eq_None_iff image_iff)
  then obtain p' where p': "rec_versions rs k q = Some p'" by blast
  then obtain r' where "r' \<in> set rs" "key r' = k" "seq r' = q" "ptr_of r' = p'"
    by (auto simp: rec_versions_def dest!: map_of_SomeD)
  with r assms have "p' = p" unfolding rec_functional_def by metis
  with p' show "rec_versions rs k q = Some p" by simp
qed

lemma table_candidates_set:
  assumes "table_data e data"
  shows "\<exists>cs. table_candidates e start stop s data = Inr cs \<and>
    (\<forall>k q p. (k, q, p) \<in> set cs \<longleftrightarrow>
       rec_versions (table_records e data) k q = Some p \<and> start \<le> k \<and> k \<le> stop \<and> q \<le> s)"
proof -
  let ?rs = "table_records e data"
  obtain i where it: "iter_from (crc_of e) data start = Inr (drop i ?rs)"
    and lt: "\<forall>r \<in> set (take i ?rs). key r < start" and st: "\<forall>r \<in> set ?rs. storable (crc_of e) r"
    and so: "sorted (map key ?rs)" and rf: "rec_functional ?rs" using table_iter [OF assms, of start] by blast
  let ?cs = "map (\<lambda>r. (key r, seq r, ptr_of r))
      (filter (\<lambda>r. start \<le> key r \<and> is_valid (crc_of e) r \<and> seq r \<le> s)
        (takeWhile (\<lambda>r. key r \<le> stop) (drop i ?rs)))"
  have tw: "set (takeWhile (\<lambda>r. key r \<le> stop) (drop i ?rs)) = {r \<in> set (drop i ?rs). key r \<le> stop}"
    by (rule takeWhile_sorted) (use so in \<open>simp add: drop_map [symmetric] sorted_wrt_drop\<close>)
  have in_drop: "r \<in> set (drop i ?rs) \<longleftrightarrow> r \<in> set ?rs" if "start \<le> key r" for r
    using lt that by (metis Un_iff append_take_drop_id not_less set_append)
  have "(k, q, p) \<in> set ?cs \<longleftrightarrow>
      (\<exists>r \<in> set ?rs. key r = k \<and> seq r = q \<and> ptr_of r = p) \<and> start \<le> k \<and> k \<le> stop \<and> q \<le> s" for k q p
    using in_drop st by (auto simp: tw storable_def image_iff)
  then show ?thesis using it by (simp add: table_candidates_def rec_versions_iff [OF rf])
qed

lemma collect_tables_set:
  assumes "\<And>d. d \<in> set ds \<Longrightarrow> \<exists>cs. f d = Inr cs \<and> (\<forall>c. c \<in> set cs \<longleftrightarrow> P d c)"
  shows "\<exists>cs. collect_tables f ds = Inr cs \<and> (\<forall>c. c \<in> set cs \<longleftrightarrow> (\<exists>d \<in> set ds. P d c))"
  using assms
proof (induction ds)
  case (Cons d ds)
  have "\<exists>cs. f d = Inr cs \<and> (\<forall>c. c \<in> set cs \<longleftrightarrow> P d c)" by (rule Cons.prems) simp
  then obtain cs where cs: "f d = Inr cs" "\<And>c. c \<in> set cs \<longleftrightarrow> P d c" by blast
  have "\<exists>cs. collect_tables f ds = Inr cs \<and> (\<forall>c. c \<in> set cs \<longleftrightarrow> (\<exists>d \<in> set ds. P d c))"
    by (rule Cons.IH, rule Cons.prems) simp
  then obtain cs' where cs': "collect_tables f ds = Inr cs'" "\<And>c. c \<in> set cs' \<longleftrightarrow> (\<exists>d \<in> set ds. P d c)"
    by blast
  have "c \<in> set (cs @ cs') \<longleftrightarrow> (\<exists>x \<in> set (d # ds). P x c)" for c unfolding set_append Un_iff cs(2) cs'(2) by simp
  then show ?case using cs(1) cs'(1) by (intro exI [of _ "cs @ cs'"]) simp
qed simp

lemma db_versions_iff:
  assumes "roots_ok e r"
  shows "db_versions e r k q = Some p \<longleftrightarrow>
    mem_versions (memtable r) k q = Some p \<or>
    (\<exists>m \<in> set (frozen_memtables r). mem_versions m k q = Some p) \<or>
    (\<exists>t \<in> set (sstables r). handle_versions e t k q = Some p) \<or>
    (\<exists>t \<in> set (l1_sstables r). handle_versions e t k q = Some p) \<or>
    handle_versions e (base_handle r) k q = Some p"
proof -
  have so: "sorted_wrt above (levels e r k)" using assms by (simp add: roots_ok_def)
  show ?thesis
    unfolding db_versions_def merge_levels_iff [OF so] by (simp add: levels_def bex_Un) blast
qed

lemma handle_versions_data: "handle_versions e t k = rec_versions (table_records e (fst t)) k"
  by (simp add: handle_versions_def split_beta)

lemma scan_candidates_set:
  assumes "roots_ok e r"
  shows "\<exists>cs. scan_candidates e start stop s r = Inr (dedup_on fst (sort_key (\<lambda>c. (fst c, Reverse (fst (snd c)))) cs)) \<and>
    (\<forall>k q p. (k, q, p) \<in> set cs \<longleftrightarrow> db_versions e r k q = Some p \<and> start \<le> k \<and> k \<le> stop \<and> q \<le> s)"
proof -
  let ?ds = "map fst (rev (sstables r)) @ map fst (l1_sstables r) @ [base_mmap r]"
  let ?P = "\<lambda>d (k, q, p). rec_versions (table_records e d) k q = Some p \<and> start \<le> k \<and> k \<le> stop \<and> q \<le> s"
  have "table_data e d" if "d \<in> set ?ds" for d
    using assms that by (auto simp: roots_ok_def handle_ok_def base_handle_def)
  then have "\<exists>cs. table_candidates e start stop s d = Inr cs \<and> (\<forall>c. c \<in> set cs \<longleftrightarrow> ?P d c)" if "d \<in> set ?ds" for d
    using table_candidates_set [of e d start stop s] that by (simp add: split_paired_All)
  then obtain ts where ts: "collect_tables (table_candidates e start stop s) ?ds = Inr ts"
    "\<And>c. c \<in> set ts \<longleftrightarrow> (\<exists>d \<in> set ?ds. ?P d c)"
    using collect_tables_set [of ?ds _ ?P] by blast
  have mem: "mem_wf (memtable r)" "\<And>m. m \<in> set (frozen_memtables r) \<Longrightarrow> mem_wf m"
    using assms by (auto simp: roots_ok_def)
  let ?cs = "mem_candidates start stop s (memtable r) @
      concat (map (mem_candidates start stop s) (rev (frozen_memtables r))) @ ts"
  have "(k, q, p) \<in> set ?cs \<longleftrightarrow> db_versions e r k q = Some p \<and> start \<le> k \<and> k \<le> stop \<and> q \<le> s" for k q p
  proof -
    have "(k, q, p) \<in> set ts \<longleftrightarrow> ((\<exists>t \<in> set (sstables r). handle_versions e t k q = Some p) \<or>
        (\<exists>t \<in> set (l1_sstables r). handle_versions e t k q = Some p) \<or>
        handle_versions e (base_handle r) k q = Some p) \<and> start \<le> k \<and> k \<le> stop \<and> q \<le> s"
      unfolding ts(2) by (auto simp: handle_versions_data base_handle_def)
    moreover have "(k, q, p) \<in> set (concat (map (mem_candidates start stop s) (rev (frozen_memtables r)))) \<longleftrightarrow>
        (\<exists>m \<in> set (frozen_memtables r). mem_versions m k q = Some p) \<and> start \<le> k \<and> k \<le> stop \<and> q \<le> s"
      by (auto simp: mem_candidates_set mem)
    ultimately show ?thesis
      unfolding db_versions_iff [OF assms] by (simp add: mem_candidates_set mem) blast
  qed
  moreover have "scan_candidates e start stop s r = Inr (dedup_on fst (sort_key (\<lambda>c. (fst c, Reverse (fst (snd c)))) ?cs))"
    by (simp add: scan_candidates_def ts Let_def)
  ultimately show ?thesis by blast
qed

text \<open>In a list sorted by key and descending sequence, deduplication keeps the newest version of
  each key.\<close>

lemma dedup_newest:
  fixes kf :: "'a \<Rightarrow> 'k::linorder" and qf :: "'a \<Rightarrow> 'q::linorder"
  assumes "sorted (map (\<lambda>c. (kf c, Reverse (qf c))) cs)"
    and "\<forall>c \<in> set cs. \<forall>c' \<in> set cs. kf c = kf c' \<and> qf c = qf c' \<longrightarrow> c = c'"
  shows "sorted_wrt (<) (map kf (dedup_on kf cs)) \<and>
    (\<forall>c. c \<in> set (dedup_on kf cs) \<longleftrightarrow> c \<in> set cs \<and> (\<forall>c' \<in> set cs. kf c' = kf c \<longrightarrow> qf c' \<le> qf c))"
  using assms
proof (induction kf cs rule: dedup_on.induct)
  case (3 kf c d cs)
  have le: "(kf c, Reverse (qf c)) \<le> (kf x, Reverse (qf x))" if "x \<in> set (d # cs)" for x
    using "3.prems"(1) that by auto
  have uniq: "x = c" if "x \<in> set (d # cs)" "kf x = kf c" "qf x = qf c" for x
    using bspec [OF bspec [OF "3.prems"(2), of x], of c] that by simp
  show ?case
  proof (cases "kf d = kf c")
    case True
    have IH: "sorted_wrt (<) (map kf (dedup_on kf (c # cs))) \<and>
      (\<forall>x. x \<in> set (dedup_on kf (c # cs)) \<longleftrightarrow> x \<in> set (c # cs) \<and>
         (\<forall>c' \<in> set (c # cs). kf c' = kf x \<longrightarrow> qf c' \<le> qf x))"
    proof (rule "3.IH"(1) [OF True])
      show "sorted (map (\<lambda>c. (kf c, Reverse (qf c))) (c # cs))" using "3.prems"(1) by simp
      show "\<forall>x \<in> set (c # cs). \<forall>y \<in> set (c # cs). kf x = kf y \<and> qf x = qf y \<longrightarrow> x = y"
        by (intro ballI impI, rule "3.prems"(2) [rule_format]) auto
    qed
    have d: "qf d \<le> qf c" using le [of d] True by simp
    have "d = c" if "qf c \<le> qf d" using uniq [of d] d that True by simp
    then show ?thesis using IH True d by auto
  next
    case False
    have lt: "kf c < kf x" if "x \<in> set (d # cs)" for x
    proof -
      have "kf c < kf d" using le [of d] False by (auto simp: less_eq_prod_def)
      moreover have "(kf d, Reverse (qf d)) \<le> (kf x, Reverse (qf x))" using "3.prems"(1) that by auto
      ultimately show ?thesis by (auto simp: less_eq_prod_def)
    qed
    have IH: "sorted_wrt (<) (map kf (dedup_on kf (d # cs))) \<and>
      (\<forall>x. x \<in> set (dedup_on kf (d # cs)) \<longleftrightarrow> x \<in> set (d # cs) \<and>
         (\<forall>c' \<in> set (d # cs). kf c' = kf x \<longrightarrow> qf c' \<le> qf x))"
    proof (rule "3.IH"(2) [OF False])
      show "sorted (map (\<lambda>c. (kf c, Reverse (qf c))) (d # cs))" using "3.prems"(1) by simp
      show "\<forall>x \<in> set (d # cs). \<forall>y \<in> set (d # cs). kf x = kf y \<and> qf x = qf y \<longrightarrow> x = y"
        by (intro ballI impI, rule "3.prems"(2) [rule_format]) auto
    qed
    define ds where "ds = dedup_on kf (d # cs)"
    have "\<forall>x \<in> set ds. kf c < kf x" using IH lt unfolding ds_def by blast
    moreover have "kf x \<noteq> kf c" if "x \<in> set (d # cs)" for x using lt [OF that] by simp
    moreover have "dedup_on kf (c # d # cs) = c # ds" using False by (simp add: ds_def)
    ultimately show ?thesis using IH [folded ds_def] by auto
  qed
qed auto

text \<open>The candidates are the newest visible version of every key in range, in key order.\<close>

lemma scan_candidates_newest:
  assumes ok: "roots_ok e r"
  shows "\<exists>cs. scan_candidates e start stop s r = Inr cs \<and> sorted_wrt (<) (map fst cs) \<and>
    (\<forall>k q p. (k, q, p) \<in> set cs \<longleftrightarrow>
       start \<le> k \<and> k \<le> stop \<and> newest (db_versions e r k) s = Some q \<and> db_versions e r k q = Some p)"
proof -
  obtain cs where cs: "scan_candidates e start stop s r =
      Inr (dedup_on fst (sort_key (\<lambda>c. (fst c, Reverse (fst (snd c)))) cs))"
    and mem: "\<And>k q p. (k, q, p) \<in> set cs \<longleftrightarrow> db_versions e r k q = Some p \<and> start \<le> k \<and> k \<le> stop \<and> q \<le> s"
    using scan_candidates_set [OF ok, of start stop s] by blast
  let ?s = "sort_key (\<lambda>c. (fst c, Reverse (fst (snd c)))) cs"
  have "c = c'" if c: "c \<in> set cs" "c' \<in> set cs" and eq: "fst c = fst c'" "fst (snd c) = fst (snd c')" for c c'
  proof -
    have "(fst c, fst (snd c), snd (snd c)) \<in> set cs" "(fst c, fst (snd c), snd (snd c')) \<in> set cs"
      using c by (simp, simp add: eq)
    then have "snd (snd c) = snd (snd c')" unfolding mem by simp
    then show ?thesis using eq by (simp add: prod_eq_iff)
  qed
  then have "\<forall>c \<in> set ?s. \<forall>c' \<in> set ?s. fst c = fst c' \<and> fst (snd c) = fst (snd c') \<longrightarrow> c = c'" by simp
  then have dd: "sorted_wrt (<) (map fst (dedup_on fst ?s)) \<and>
    (\<forall>c. c \<in> set (dedup_on fst ?s) \<longleftrightarrow> c \<in> set ?s \<and>
      (\<forall>c' \<in> set ?s. fst c' = fst c \<longrightarrow> fst (snd c') \<le> fst (snd c)))"
    by (intro dedup_newest) simp_all
  note so = dd [THEN conjunct1] and d = dd [THEN conjunct2, rule_format, unfolded set_sort]
  have "(k, q, p) \<in> set (dedup_on fst ?s) \<longleftrightarrow>
     start \<le> k \<and> k \<le> stop \<and> newest (db_versions e r k) s = Some q \<and> db_versions e r k q = Some p" for k q p
  proof -
    have "(k, q, p) \<in> set (dedup_on fst ?s) \<longleftrightarrow> (k, q, p) \<in> set cs \<and> (\<forall>q' p'. (k, q', p') \<in> set cs \<longrightarrow> q' \<le> q)"
      unfolding d by (metis fst_conv prod.collapse snd_conv)
    also have "\<dots> \<longleftrightarrow> start \<le> k \<and> k \<le> stop \<and> newest (db_versions e r k) s = Some q \<and> db_versions e r k q = Some p"
      unfolding mem newest_version by blast
    finally show ?thesis .
  qed
  with cs so show ?thesis by blast
qed

definition cand_value :: "env \<Rightarrow> bytes \<Rightarrow> u64 \<Rightarrow> candidate \<Rightarrow> (bytes \<times> bytes) option" where
  "cand_value e h now c =
     (if expired now (snd (cell_of e h (snd (snd c)))) then None
      else map_option (Pair (utf8_lossy (fst c))) (fst (cell_of e h (snd (snd c)))))"

lemma scan_loop_spec:
  assumes "db_ok e db" and "\<forall>c \<in> set cs. snd (snd c) \<in> live e (roots db)"
  shows "\<exists>c. scan_loop e now cs db = (Inr (List.map_filter (cand_value e (heap db) now) cs), db\<lparr>block_cache := c\<rparr>) \<and>
    db_ok e (db\<lparr>block_cache := c\<rparr>)"
  using assms
proof (induction cs arbitrary: db)
  case Nil
  then show ?case by (intro exI [of _ "block_cache db"]) (simp add: map_filter_simps)
next
  case (Cons c cs)
  obtain k q off len pc ex where c: "c = (k, q, (off, len, pc, ex))" by (metis prod.exhaust)
  let ?p = "(off, len, pc, ex)"
  have live: "?p \<in> live e (roots db)" "\<forall>c \<in> set cs. snd (snd c) \<in> live e (roots db)"
    using Cons.prems(2) by (simp_all add: c)
  show ?case
  proof (cases "len = 0 \<or> expired now ex")
    case True
    then have "cand_value e (heap db) now c = None" by (auto simp: cand_value_def cell_of_def c)
    then show ?thesis using True Cons.IH [OF Cons.prems(1) live(2)] by (simp add: c map_filter_simps)
  next
    case False
    obtain v c1 where v: "heap_value e (heap db) ?p = Inr v"
      "read_from_heap e ?p db = (Inr v, db\<lparr>block_cache := c1\<rparr>)" "db_ok e (db\<lparr>block_cache := c1\<rparr>)"
      using read_live [OF Cons.prems(1) live(1)] False by auto
    have cand: "cand_value e (heap db) now c = Some (utf8_lossy k, v)"
      using v(1) False by (simp add: cand_value_def cell_of_def c)
    obtain c2 where "scan_loop e now cs (db\<lparr>block_cache := c1\<rparr>) =
        (Inr (List.map_filter (cand_value e (heap db) now) cs), db\<lparr>block_cache := c2\<rparr>)"
      "db_ok e (db\<lparr>block_cache := c2\<rparr>)"
      using Cons.IH [OF v(3)] live(2) by auto
    then show ?thesis using False v(2) cand by (intro exI [of _ c2]) (simp add: c map_filter_simps)
  qed
qed

lemma set_map_filter_iff: "y \<in> set (List.map_filter f xs) \<longleftrightarrow> (\<exists>x \<in> set xs. f x = Some y)"
  by (induction xs) (auto simp: map_filter_simps split: option.split)

lemma sorted_map_filter:
  fixes cs :: "('k::linorder \<times> 'b) list"
  assumes "sorted_wrt (<) (map fst cs)" and "\<And>c y. c \<in> set cs \<Longrightarrow> f c = Some y \<Longrightarrow> fst y = fst c"
  shows "sorted_wrt (<) (map fst (List.map_filter f cs))"
  using assms
proof (induction cs)
  case (Cons c cs)
  have IH: "sorted_wrt (<) (map fst (List.map_filter f cs))" using Cons by simp
  have "fst c < fst y" if y: "y \<in> set (List.map_filter f cs)" for y
  proof -
    obtain x where "x \<in> set cs" "f x = Some y" using y by (auto simp: set_map_filter_iff)
    then show ?thesis using Cons.prems(1) Cons.prems(2) [of x y] by auto
  qed
  then show ?case using IH Cons.prems(2) [of c] by (auto simp: map_filter_simps split: option.split)
qed (simp add: map_filter_simps)

text \<open>A collected scan returns, in key order, exactly the keys in range that a point read at the
  same sequence and time finds, each with the value that read returns.\<close>

lemma scan_spec:
  assumes ok: "db_ok e db"
  shows "\<exists>kvs c. db_scan e now start stop s db = (Inr kvs, db\<lparr>block_cache := c\<rparr>) \<and>
    db_ok e (db\<lparr>block_cache := c\<rparr>) \<and> sorted_wrt (<) (map fst kvs) \<and>
    (\<forall>k v. (k, v) \<in> set kvs \<longleftrightarrow> start \<le> k \<and> k \<le> stop \<and> spec_read (db_cells e db) now k s = Some v)"
proof -
  obtain cs where cs: "scan_candidates e start stop s (roots db) = Inr cs" "sorted_wrt (<) (map fst cs)"
    and mem: "\<And>k q p. (k, q, p) \<in> set cs \<longleftrightarrow> start \<le> k \<and> k \<le> stop \<and>
      newest (db_versions e (roots db) k) s = Some q \<and> db_versions e (roots db) k q = Some p"
    using scan_candidates_newest [OF db_okD(1) [OF ok], of start stop s] by blast
  have mem': "start \<le> fst c \<and> fst c \<le> stop \<and> newest (db_versions e (roots db) (fst c)) s = Some (fst (snd c)) \<and>
      db_versions e (roots db) (fst c) (fst (snd c)) = Some (snd (snd c))" if "c \<in> set cs" for c
    using that mem [of "fst c" "fst (snd c)" "snd (snd c)"] by simp
  have live: "\<forall>c \<in> set cs. snd (snd c) \<in> live e (roots db)" unfolding live_def using mem' by blast
  have valid: "utf8_lossy (fst c) = fst c" if "c \<in> set cs" for c
    using mem' [OF that] db_okD(3) [OF ok] utf8_lossy_valid by blast
  let ?kvs = "List.map_filter (cand_value e (heap db) now) cs"
  obtain c where c: "scan_loop e now cs db = (Inr ?kvs, db\<lparr>block_cache := c\<rparr>)" "db_ok e (db\<lparr>block_cache := c\<rparr>)"
    using scan_loop_spec [OF ok live] by blast
  have "sorted_wrt (<) (map fst ?kvs)"
    by (rule sorted_map_filter [OF cs(2)]) (auto simp: cand_value_def valid split: if_splits)
  moreover have "(k, v) \<in> set ?kvs \<longleftrightarrow> start \<le> k \<and> k \<le> stop \<and> spec_read (db_cells e db) now k s = Some v" for k v
  proof -
    have read: "spec_read (db_cells e db) now k s = Some v \<longleftrightarrow>
        (\<exists>q p. newest (db_versions e (roots db) k) s = Some q \<and> db_versions e (roots db) k q = Some p \<and>
           fst (cell_of e (heap db) p) = Some v \<and> \<not> expired now (snd (cell_of e (heap db) p)))" (is "_ \<longleftrightarrow> ?R")
    proof -
      have "visible (db_cells e db k) s = map_option (cell_of e (heap db)) (visible (db_versions e (roots db) k) s)"
        unfolding db_cells_def by (rule visible_map)
      then have "spec_read (db_cells e db) now k s = Some v \<longleftrightarrow> (\<exists>p. visible (db_versions e (roots db) k) s = Some p \<and>
          fst (cell_of e (heap db) p) = Some v \<and> \<not> expired now (snd (cell_of e (heap db) p)))"
        unfolding spec_read_def by (cases "visible (db_versions e (roots db) k) s") (auto simp: split_beta)
      then show ?thesis unfolding visible_Some by blast
    qed
    have "(k, v) \<in> set ?kvs \<longleftrightarrow> (\<exists>c \<in> set cs. cand_value e (heap db) now c = Some (k, v))"
      by (rule set_map_filter_iff)
    also have "\<dots> \<longleftrightarrow> (\<exists>c \<in> set cs. fst c = k \<and> fst (cell_of e (heap db) (snd (snd c))) = Some v \<and>
        \<not> expired now (snd (cell_of e (heap db) (snd (snd c)))))"
      using valid by (auto simp: cand_value_def)
    also have "\<dots> \<longleftrightarrow> (\<exists>q p. (k, q, p) \<in> set cs \<and> fst (cell_of e (heap db) p) = Some v \<and>
        \<not> expired now (snd (cell_of e (heap db) p)))"
      by (metis fst_conv prod.collapse snd_conv)
    also have "\<dots> \<longleftrightarrow> start \<le> k \<and> k \<le> stop \<and> ?R" unfolding mem by blast
    finally show ?thesis using read by blast
  qed
  ultimately show ?thesis using c cs(1) by (intro exI [of _ ?kvs] exI [of _ c]) (simp add: db_scan_def)
qed

section \<open>The sequence of a key\<close>

lemma seq_scan_newest:
  "sorted (map key rs) \<Longrightarrow> (\<forall>r \<in> set rs. is_valid crc r) \<Longrightarrow>
     seq_scan crc k s rs b = (case newest (rec_versions rs k) s of None \<Rightarrow> b | Some q \<Rightarrow> max b q)"
proof (induction rs arbitrary: b)
  case Nil
  have "rec_versions [] k = Map.empty" by (simp add: rec_versions_def)
  then show ?case by simp
next
  case (Cons r rs)
  have IH: "seq_scan crc k s rs b = (case newest (rec_versions rs k) s of None \<Rightarrow> b | Some q \<Rightarrow> max b q)" for b
    using Cons by simp
  show ?case
  proof (cases "key r > k")
    case True
    then have "rec_versions (r # rs) k = Map.empty"
      using Cons.prems(1) by (intro rec_versions_None) auto
    then show ?thesis using True by simp
  next
    case False
    show ?thesis
    proof (cases "key r = k")
      case True
      then have "rec_versions (r # rs) k = (rec_versions rs k)(seq r \<mapsto> ptr_of r)" by (simp add: rec_versions_def)
      then have n: "newest (rec_versions (r # rs) k) s =
          (if seq r \<le> s then Some (case newest (rec_versions rs k) s of None \<Rightarrow> seq r | Some q \<Rightarrow> max (seq r) q)
           else newest (rec_versions rs k) s)" by (simp only: newest_update)
      show ?thesis
        unfolding n using True Cons.prems(2) by (simp add: IH max_def split: option.split) force
    next
      case False
      then have "rec_versions (r # rs) k = rec_versions rs k" by (simp add: rec_versions_def)
      then show ?thesis using False \<open>\<not> key r > k\<close> by (simp add: IH)
    qed
  qed
qed

lemma handle_seq_newest:
  assumes "handle_ok e t" and "\<forall>q. handle_versions e t k q \<noteq> None \<longrightarrow> 0 < q"
  shows "handle_seq e t k s = Inr (newest (handle_versions e t k) s)"
proof -
  obtain data bloom path where t: "t = (data, bloom, path)" by (metis prod.exhaust)
  let ?rs = "table_records e data"
  have td: "table_data e data" and bl: "bloom_ok bloom ?rs" and hv: "handle_versions e t k = rec_versions ?rs k"
    using assms(1) by (simp_all add: handle_ok_def handle_versions_def t)
  show ?thesis
  proof (cases "covers bloom (hash_key k)")
    case False
    then show ?thesis
      using bl bloom_miss [OF bl False] hv by (simp add: handle_seq_def t bloom_ok_def might_contain_iff)
  next
    case True
    obtain i where it: "iter_from (crc_of e) data k = Inr (drop i ?rs)"
      and lt: "\<forall>r \<in> set (take i ?rs). key r < k" and st: "\<forall>r \<in> set ?rs. storable (crc_of e) r"
      and so: "sorted (map key ?rs)" using table_iter [OF td, of k] by blast
    have "filter (\<lambda>r. key r = k) (take i ?rs) = []" using lt by (auto simp: filter_empty_conv)
    then have f: "rec_versions (drop i ?rs) k = rec_versions ?rs k"
      using filter_append [of "\<lambda>r. key r = k" "take i ?rs" "drop i ?rs"] by (simp add: rec_versions_def)
    have "seq_scan (crc_of e) k s (drop i ?rs) 0 =
        (case newest (rec_versions ?rs k) s of None \<Rightarrow> 0 | Some q \<Rightarrow> max 0 q)"
      unfolding f [symmetric]
    proof (rule seq_scan_newest)
      show "sorted (map key (drop i ?rs))" using so by (simp add: drop_map [symmetric] sorted_wrt_drop)
      show "\<forall>r \<in> set (drop i ?rs). is_valid (crc_of e) r"
        using st in_set_dropD [of _ i ?rs] by (simp add: storable_def)
    qed
    moreover have "0 < q" if "newest (rec_versions ?rs k) s = Some q" for q
      using assms(2) that unfolding hv newest_Some by blast
    ultimately show ?thesis
      using True bl it hv by (auto simp: handle_seq_def t bloom_ok_def might_contain_iff split: option.split)
  qed
qed

lemma search_newest:
  "(\<forall>l \<in> set ls. f l = Inr (newest (c l) s)) \<Longrightarrow> search_levels f ls = Inr (first_newest (map c ls) s)"
  by (induction ls) (auto split: option.split)

lemma first_newest_append:
  "first_newest (xs @ ys) s = (case first_newest xs s of None \<Rightarrow> first_newest ys s | Some p \<Rightarrow> Some p)"
  by (induction xs) (auto split: option.split)

lemma mem_find_fst: "mem_wf m \<Longrightarrow> map_option fst (mem_find m k s) = newest (mem_versions m k) s"
  by (simp add: mem_find_newest option.map_comp comp_def option.map_ident)

lemma get_seq_spec:
  assumes ok: "roots_ok e r" and pos: "\<And>q. db_versions e r k q \<noteq> None \<Longrightarrow> 0 < q"
  shows "get_seq_for_key e k s r = Inr (case newest (db_versions e r k) s of None \<Rightarrow> 0 | Some q \<Rightarrow> q)"
proof -
  have so: "sorted_wrt above (levels e r k)" using ok by (simp add: roots_ok_def)
  have pos': "0 < q" if "l \<in> set (levels e r k)" "l q \<noteq> None" for l q
    using pos [of q] merge_levels_iff [OF so, of q] that unfolding db_versions_def by blast
  have m: "map_option fst (mem_find (memtable r) k s) = newest (mem_versions (memtable r) k) s"
    using ok by (simp add: roots_ok_def mem_find_fst)
  have f: "search_levels (\<lambda>m. Inr (map_option fst (mem_find m k s))) (rev (frozen_memtables r)) =
      Inr (first_newest (map (\<lambda>m. mem_versions m k) (rev (frozen_memtables r))) s)"
    using ok by (intro search_newest) (simp add: roots_ok_def mem_find_fst)
  have h: "handle_seq e t k s = Inr (newest (handle_versions e t k) s)"
    if "t \<in> set (sstables r) \<or> t \<in> set (l1_sstables r) \<or> t = base_handle r" for t
  proof (rule handle_seq_newest)
    show "handle_ok e t" using ok that by (auto simp: roots_ok_def)
    have "handle_versions e t k \<in> set (levels e r k)" using that by (auto simp: levels_def)
    then show "\<forall>q. handle_versions e t k q \<noteq> None \<longrightarrow> 0 < q" using pos' by blast
  qed
  have l0: "search_levels (\<lambda>t. handle_seq e t k s) (rev (sstables r)) =
      Inr (first_newest (map (\<lambda>t. handle_versions e t k) (rev (sstables r))) s)"
    by (rule search_newest) (simp add: h)
  have l1: "search_levels (\<lambda>t. handle_seq e t k s) (rev (l1_sstables r)) =
      Inr (first_newest (map (\<lambda>t. handle_versions e t k) (rev (l1_sstables r))) s)"
    by (rule search_newest) (simp add: h)
  have single: "first_newest [l] s = newest l s" for l :: "u64 \<Rightarrow> ptr option" by (simp split: option.split)
  have "get_seq_for_key e k s r = Inr (case first_newest (levels e r k) s of None \<Rightarrow> 0 | Some q \<Rightarrow> q)"
    unfolding get_seq_for_key_def m f l0 l1 h [of "base_handle r", simplified] levels_def
    by (simp add: first_newest_append single split: option.split)
  then show ?thesis unfolding first_newest_merge [OF so] db_versions_def .
qed

end
