(* ===== verification/Engine_Write.thy ===== *)
theory Engine_Write
  imports Engine_Read
begin

text \<open>
  The write path of the engine: \<^verbatim>\<open>commit_batch_local_locked\<close> in its phases (backpressure,
  compression and checksums, reservation of sequences and heap space, heap and log writes, group
  commit, publication in the memtable), snapshots and replica retention pins. Every system call
  takes its outcome from the record \<open>commit_io\<close>; a writer that finds another leader in its group
  gets that leader's outcome from there too.

  The lemmas show that a successful commit adds exactly the cells of the batch, in the order of
  the batch, at fresh sequences, and keeps the invariant of the database; that a failed commit
  changes no read; and that the retention floor bounds every registered reader.
\<close>

section \<open>Preparing a batch\<close>

definition prep_value :: "env \<Rightarrow> bytes \<Rightarrow> bytes \<times> u64" where
  "prep_value e v =
     (if length v < 64 then (v, word_of_nat (length v) OR UNCOMPRESSED_FLAG)
      else let c = lz4_compress e v in (c, word_of_nat (length c)))"

type_synonym prepped = "bytes \<times> bytes \<times> u64 \<times> u32 \<times> u64"

definition prep_writes :: "env \<Rightarrow> (bytes \<times> bytes \<times> u64) list \<Rightarrow> prepped list" where
  "prep_writes e ws = map (\<lambda>(k, v, ex). let (bs, len) = prep_value e v in (k, bs, len, crc_of e bs, ex)) ws"

definition total_heap_bytes :: "prepped list \<Rightarrow> u64" where
  "total_heap_bytes ps = sum_list (map (\<lambda>(k, bs, len, pc, ex). len AND NOT UNCOMPRESSED_FLAG) ps)"

definition payload :: "prepped list \<Rightarrow> bytes" where
  "payload ps = concat (map (\<lambda>(k, bs, len, pc, ex). bs) ps)"

fun write_recs :: "env \<Rightarrow> u64 \<Rightarrow> u64 \<Rightarrow> prepped list \<Rightarrow> OmniRecord list" where
  "write_recs e q off [] = []"
| "write_recs e q off ((k, bs, len, pc, ex) # ps) =
     record_new (crc_of e) q k off len pc ex # write_recs e (q + 1) (off + (len AND NOT UNCOMPRESSED_FLAG)) ps"

fun delete_recs :: "env \<Rightarrow> u64 \<Rightarrow> bytes list \<Rightarrow> OmniRecord list" where
  "delete_recs e q [] = []"
| "delete_recs e q (k # ks) = record_new (crc_of e) q k 0 0 0 0 # delete_recs e (q + 1) ks"

text \<open>The records of a batch: writes, then deletes, then the commit marker, which carries their
  number.\<close>

definition batch_records :: "env \<Rightarrow> u64 \<Rightarrow> u64 \<Rightarrow> prepped list \<Rightarrow> bytes list \<Rightarrow> OmniRecord list" where
  "batch_records e q off ps ks =
     (let n = length ps + length ks
      in write_recs e q off ps @ delete_recs e (q + word_of_nat (length ps)) ks @
         [record_new (crc_of e) (q + word_of_nat n) COMMIT_MARKER (word_of_nat n) 0 0 0])"

section \<open>Committing\<close>

text \<open>Outcomes of the system calls: the table counts seen while stalled, how many bytes of the
  payload reached the heap before an error, the log write, the two fsyncs, the truncation of the
  log after a failed one, and the outcome published by another leader.\<close>

record commit_io =
  stall_samples :: "nat list"
  heap_write :: "nat option"
  wal_flush :: flush_io
  heap_sync :: bool
  wal_fsync :: bool
  discard_flush :: flush_io
  discard_trunc :: trunc_io
  group_outcome :: "OmniError option"

definition write_stalled :: "commit_io \<Rightarrow> OmniKV \<Rightarrow> bool" where
  "write_stalled io db \<longleftrightarrow>
     length (sstables (roots db)) \<ge> l0_write_stall_threshold (compaction_policy db) \<and>
     (\<forall>n \<in> set (take (write_stall_wait_attempts (compaction_policy db)) (stall_samples io)).
        n \<ge> l0_write_stall_threshold (compaction_policy db))"

definition reserve :: "nat \<Rightarrow> u64 \<Rightarrow> OmniKV \<Rightarrow> OmniKV" where
  "reserve n bytes db =
     db\<lparr>global_seq := global_seq db + word_of_nat (n + 1), heap_offset := heap_offset db + bytes\<rparr>"

definition heap_put :: "nat \<Rightarrow> bytes \<Rightarrow> OmniKV \<Rightarrow> OmniKV" where
  "heap_put pos bs db = (if bs = [] then db else db\<lparr>heap := write_at pos bs (heap db)\<rparr>)"

definition sync_group_commit_files :: "commit_io \<Rightarrow> OmniKV \<Rightarrow> OmniError option \<times> OmniKV" where
  "sync_group_commit_files io db =
     (let db1 = (if heap_sync io then db\<lparr>heap_durable := length (heap db)\<rparr> else db);
          w = (if heap_sync io then snd (wal_sync (wal_fsync io) (wal db1)) else wal db1);
          err = (if \<not> heap_sync io then Some (IoError ''group commit heap fsync failed'')
                 else case fst (wal_sync (wal_fsync io) (wal db1)) of
                   Inr _ \<Rightarrow> None | Inl _ \<Rightarrow> Some (IoError ''group commit wal fsync failed''))
      in case err of
           None \<Rightarrow> (None, db1\<lparr>wal := w\<rparr>)
         | Some e \<Rightarrow> (Some e, db1\<lparr>group_commit := poison e (group_commit db1),
                                  wal := snd (discard_undurable (discard_flush io) (discard_trunc io) w)\<rparr>))"

text \<open>Joining the group: as leader, sync and publish the outcome; otherwise take the outcome of
  the leader.\<close>

definition group_sync :: "commit_io \<Rightarrow> OmniKV \<Rightarrow> OmniError option \<times> OmniKV" where
  "group_sync io db =
     (case join_enter (group_commit db) of
        (JoinErr e, g) \<Rightarrow> (Some e, db\<lparr>group_commit := g\<rparr>)
      | (JoinLeader epoch, g) \<Rightarrow>
          (let (err, db') = sync_group_commit_files io (db\<lparr>group_commit := g\<rparr>)
           in (err, db'\<lparr>group_commit := complete_sync epoch err (group_commit db')\<rparr>))
      | (j, g) \<Rightarrow> (group_outcome io, db))"

definition publish :: "OmniRecord list \<Rightarrow> OmniKV \<Rightarrow> OmniKV" where
  "publish rs db = db\<lparr>roots := (roots db)\<lparr>memtable :=
     fold mem_insert_record (filter (\<lambda>r. \<not> is_marker r) rs) (memtable (roots db))\<rparr>\<rparr>"

definition commit_batch_local :: "env \<Rightarrow> commit_io \<Rightarrow> WriteBatch \<Rightarrow> OmniKV \<Rightarrow> u64 result \<times> OmniKV" where
  "commit_batch_local e io tx db =
     (if write_stalled io db then (Inl (Err WriteStall), db)
      else
        let ps = prep_writes e (buffered_writes tx); ks = buffered_deletes tx;
            n = length ps + length ks; q = global_seq db; off = heap_offset db;
            db1 = reserve n (total_heap_bytes ps) db; rs = batch_records e q off ps ks in
        case heap_write io of
          Some m \<Rightarrow> (Inl (Err (IoError ''heap pwrite'')), heap_put (unat off) (take m (payload ps)) db1)
        | None \<Rightarrow>
            let db2 = heap_put (unat off) (payload ps) db1 in
            if is_poisoned (group_commit db2)
            then (Inl (Err (IoError ''group commit engine poisoned by an earlier fsync failure'')), db2)
            else case append_batch_nosync (crc_of e) (wal_flush io) rs (wal db2) of
              (Inl err, w) \<Rightarrow> (Inl err, db2\<lparr>wal := w\<rparr>)
            | (Inr _, w) \<Rightarrow>
                (case group_sync io (db2\<lparr>wal := w\<rparr>) of
                   (Some err, db3) \<Rightarrow> (Inl (Err err), db3)
                 | (None, db3) \<Rightarrow> (Inr (q + word_of_nat n), publish rs db3)))"

section \<open>Snapshots and retention pins\<close>

definition snapshot :: "OmniKV \<Rightarrow> u64 \<times> OmniKV" where
  "snapshot db =
     (let s = (if global_seq db = 0 then 0 else global_seq db - 1);
          c = (case om_lookup (active_snapshots db) s of None \<Rightarrow> 0 | Some c \<Rightarrow> c)
      in (s, db\<lparr>active_snapshots := om_insert s (c + 1) (active_snapshots db)\<rparr>))"

definition unregister_snapshot :: "u64 \<Rightarrow> OmniKV \<Rightarrow> OmniKV" where
  "unregister_snapshot s db =
     (case om_lookup (active_snapshots db) s of
        None \<Rightarrow> db
      | Some c \<Rightarrow> if c - 1 = 0 then db\<lparr>active_snapshots := om_remove s (active_snapshots db)\<rparr>
                  else db\<lparr>active_snapshots := om_insert s (c - 1) (active_snapshots db)\<rparr>)"

definition oldest_active_snapshot :: "OmniKV \<Rightarrow> u64 option" where
  "oldest_active_snapshot db = (case active_snapshots db of [] \<Rightarrow> None | (s, _) # _ \<Rightarrow> Some s)"

definition min_active_snapshot :: "OmniKV \<Rightarrow> u64" where
  "min_active_snapshot db = (case active_snapshots db of
     [] \<Rightarrow> (if global_seq db = 0 then 0 else global_seq db - 1) | (s, _) # _ \<Rightarrow> s)"

definition pin_replica_retention :: "bytes \<Rightarrow> u64 \<Rightarrow> OmniKV \<Rightarrow> unit result \<times> OmniKV" where
  "pin_replica_retention rid s db =
     (let r = trim rid in
      if r = [] then (Inl (Err (IoError ''replica retention id must not be empty'')), db)
      else (Inr (), db\<lparr>replica_retention_floors := om_insert r s (replica_retention_floors db)\<rparr>))"

definition release_replica_retention :: "bytes \<Rightarrow> OmniKV \<Rightarrow> unit result \<times> OmniKV" where
  "release_replica_retention rid db =
     (Inr (), db\<lparr>replica_retention_floors := om_remove (trim rid) (replica_retention_floors db)\<rparr>)"

definition min_replica_retention :: "OmniKV \<Rightarrow> u64 option" where
  "min_replica_retention db = (case map snd (replica_retention_floors db) of
     [] \<Rightarrow> None | x # xs \<Rightarrow> Some (fold min xs x))"

definition compaction_retention_floor :: "OmniKV \<Rightarrow> u64 option" where
  "compaction_retention_floor db =
     (case (oldest_active_snapshot db, min_replica_retention db) of
        (Some s, Some r) \<Rightarrow> Some (min s r)
      | (Some s, None) \<Rightarrow> Some s
      | (None, Some r) \<Rightarrow> Some r
      | (None, None) \<Rightarrow> None)"

section \<open>Smaller operations\<close>

definition validate_policy :: "CompactionPolicy \<Rightarrow> CompactionPolicy result" where
  "validate_policy p =
     (if l0_compaction_trigger p = 0
      then Inl (Err (InvalidCompactionPolicy ''l0_compaction_trigger must be greater than 0''))
      else if l1_compaction_trigger p = 0
      then Inl (Err (InvalidCompactionPolicy ''l1_compaction_trigger must be greater than 0''))
      else if l0_write_stall_threshold p \<le> l0_compaction_trigger p
      then Inl (Err (InvalidCompactionPolicy ''l0_write_stall_threshold must be greater than l0_compaction_trigger''))
      else Inr p)"

definition default_policy :: CompactionPolicy where
  "default_policy = \<lparr>l0_compaction_trigger = 4, l1_compaction_trigger = 4, l0_write_stall_threshold = 12,
     write_stall_wait_attempts = 50, write_stall_wait_ms = 100\<rparr>"

definition set_compaction_policy :: "CompactionPolicy \<Rightarrow> OmniKV \<Rightarrow> unit result \<times> OmniKV" where
  "set_compaction_policy p db = (case validate_policy p of
     Inl e \<Rightarrow> (Inl e, db) | Inr p' \<Rightarrow> (Inr (), db\<lparr>compaction_policy := p'\<rparr>))"

definition append_to_heap :: "nat option \<Rightarrow> bool \<Rightarrow> bytes \<Rightarrow> OmniKV \<Rightarrow> u64 result \<times> OmniKV" where
  "append_to_heap fail sync_ok data db =
     (let off = heap_offset db in
      case fail of
        Some m \<Rightarrow> (Inl (Err (IoError ''heap write'')), heap_put (unat off) (take m data) db)
      | None \<Rightarrow>
          let db1 = heap_put (unat off) data db in
          if \<not> sync_ok then (Inl (Err (IoError ''heap sync'')), db1)
          else (Inr off, db1\<lparr>heap_durable := length (heap db1), heap_offset := off + word_of_nat (length data)\<rparr>))"

definition insert_replica_record ::
  "bytes \<Rightarrow> u64 \<Rightarrow> u64 \<Rightarrow> u64 \<Rightarrow> u32 \<Rightarrow> u64 \<Rightarrow> OmniKV \<Rightarrow> OmniKV" where
  "insert_replica_record k q off len pc ex db =
     db\<lparr>roots := (roots db)\<lparr>memtable := mem_insert k q (off, len, pc, ex) (memtable (roots db))\<rparr>,
        global_seq := max (global_seq db) (q + 1)\<rparr>"

definition memtable_size :: "OmniKV \<Rightarrow> nat" where
  "memtable_size db = mem_len (memtable (roots db)) + sum_list (map mem_len (frozen_memtables (roots db)))"

section \<open>What a batch means\<close>

fun write_cells :: "u64 \<Rightarrow> (bytes \<times> bytes \<times> u64) list \<Rightarrow> ((bytes \<times> u64) \<times> cell) list" where
  "write_cells q [] = []"
| "write_cells q ((k, v, ex) # ws) = ((k, q), (Some v, ex)) # write_cells (q + 1) ws"

fun delete_cells :: "u64 \<Rightarrow> bytes list \<Rightarrow> ((bytes \<times> u64) \<times> cell) list" where
  "delete_cells q [] = []"
| "delete_cells q (k # ks) = ((k, q), (None, 0)) # delete_cells (q + 1) ks"

definition batch_cells :: "u64 \<Rightarrow> WriteBatch \<Rightarrow> ((bytes \<times> u64) \<times> cell) list" where
  "batch_cells q tx = write_cells q (buffered_writes tx) @
     delete_cells (q + word_of_nat (length (buffered_writes tx))) (buffered_deletes tx)"

definition apply_batch ::
  "u64 \<Rightarrow> WriteBatch \<Rightarrow> (bytes \<Rightarrow> u64 \<Rightarrow> cell option) \<Rightarrow> bytes \<Rightarrow> u64 \<Rightarrow> cell option" where
  "apply_batch q tx a k s = (case map_of (batch_cells q tx) (k, s) of Some c \<Rightarrow> Some c | None \<Rightarrow> a k s)"

text \<open>What the engine relies on: the LZ4 codec round-trips and its output is bounded, as its
  documentation states.\<close>

definition env_ok :: "env \<Rightarrow> bool" where
  "env_ok e \<longleftrightarrow> (\<forall>v. lz4_decompress e (lz4_compress e v) = Some v \<and> 0 < length (lz4_compress e v) \<and>
     length (lz4_compress e v) \<le> 24 + 2 * length v)"

text \<open>Batches whose keys can be stored and read back: Rust strings that fit the key length field
  and differ from the marker, with values that are non-empty and within the size limit.\<close>

definition key_ok :: "bytes \<Rightarrow> bool" where
  "key_ok k \<longleftrightarrow> utf8_valid k \<and> length k < 65536 \<and> k \<noteq> COMMIT_MARKER"

definition value_ok :: "bytes \<Rightarrow> bool" where
  "value_ok v \<longleftrightarrow> utf8_valid v \<and> 0 < length v \<and> length v \<le> MAX_VALUE_SIZE"

definition tx_ok :: "WriteBatch \<Rightarrow> bool" where
  "tx_ok tx \<longleftrightarrow> batch_ok tx \<and> (\<forall>w \<in> set (buffered_writes tx). key_ok (fst w) \<and> value_ok (fst (snd w))) \<and>
     (\<forall>k \<in> set (buffered_deletes tx). key_ok k)"

definition io_ok :: "commit_io \<Rightarrow> bool" where
  "io_ok io \<longleftrightarrow> heap_write io = None \<and> wal_flush io = Flushed \<and> heap_sync io \<and> wal_fsync io"

definition group_idle :: "GroupState \<Rightarrow> bool" where
  "group_idle g \<longleftrightarrow> current_epoch g = 0 \<and> poisoned g = None"

text \<open>Room for the batch: neither the sequence nor the heap offset wraps.\<close>

definition room_for :: "env \<Rightarrow> WriteBatch \<Rightarrow> OmniKV \<Rightarrow> bool" where
  "room_for e tx db \<longleftrightarrow> unat (global_seq db) + op_count tx + 1 < 2 ^ 64 \<and>
     unat (heap_offset db) + length (payload (prep_writes e (buffered_writes tx))) < 2 ^ 63"

section \<open>Flags and payloads\<close>

lemma nat_bit_63: "n < 2 ^ 63 \<Longrightarrow> \<not> bit (word_of_nat n :: u64) 63"
  unfolding bit_of_nat_iff by (simp add: bit_iff_odd)

lemma flag_bits:
  assumes "n < 2 ^ 63"
  shows "(word_of_nat n OR UNCOMPRESSED_FLAG) AND NOT UNCOMPRESSED_FLAG = (word_of_nat n :: u64)"
    and "(word_of_nat n OR UNCOMPRESSED_FLAG) AND UNCOMPRESSED_FLAG \<noteq> (0 :: u64)"
    and "word_of_nat n AND NOT UNCOMPRESSED_FLAG = (word_of_nat n :: u64)"
    and "word_of_nat n AND UNCOMPRESSED_FLAG = (0 :: u64)"
proof -
  have b: "bit UNCOMPRESSED_FLAG i \<longleftrightarrow> i = 63" for i
    unfolding UNCOMPRESSED_FLAG_def push_bit_of_1 bit_exp_iff by auto
  note n = nat_bit_63 [OF assms]
  show "(word_of_nat n OR UNCOMPRESSED_FLAG) AND NOT UNCOMPRESSED_FLAG = (word_of_nat n :: u64)"
    by (rule bit_word_eqI) (use n in \<open>auto simp: bit_and_iff bit_or_iff bit_not_iff b\<close>)
  show "word_of_nat n AND NOT UNCOMPRESSED_FLAG = (word_of_nat n :: u64)"
    by (rule bit_word_eqI) (use n in \<open>auto simp: bit_and_iff bit_not_iff b\<close>)
  show "word_of_nat n AND UNCOMPRESSED_FLAG = (0 :: u64)"
    by (rule bit_word_eqI) (use n in \<open>auto simp: bit_and_iff b\<close>)
  have "bit ((word_of_nat n OR UNCOMPRESSED_FLAG) AND UNCOMPRESSED_FLAG :: u64) 63"
    by (simp add: bit_and_iff bit_or_iff b)
  then show "(word_of_nat n OR UNCOMPRESSED_FLAG) AND UNCOMPRESSED_FLAG \<noteq> (0 :: u64)" by fastforce
qed

lemma unat_small: "n < 2 ^ 63 \<Longrightarrow> unat (word_of_nat n :: u64) = n"
  by (simp add: unat_of_nat)

lemma prep_value_ok:
  assumes e: "env_ok e" and v: "value_ok v" and p: "prep_value e v = (bs, len)"
  shows "len AND NOT UNCOMPRESSED_FLAG = word_of_nat (length bs)" and "raw_len len = length bs"
    and "0 < length bs" and "length bs < 2 ^ 62" and "len \<noteq> 0"
    and "\<And>h off ex. unat off + length bs \<le> length h \<Longrightarrow> slice (unat off) (unat off + length bs) h = bs \<Longrightarrow>
      heap_value e h (off, len, crc_of e bs, ex) = Inr v"
proof -
  have vl: "0 < length v" "length v \<le> 10485760" "utf8_valid v"
    using v by (simp_all add: value_ok_def MAX_VALUE_SIZE_def)
  have c: "lz4_decompress e (lz4_compress e v) = Some v" "0 < length (lz4_compress e v)"
    "length (lz4_compress e v) \<le> 24 + 2 * length v" using e by (auto simp: env_ok_def)
  consider (small) "bs = v" "len = word_of_nat (length v) OR UNCOMPRESSED_FLAG" "length v < 64"
    | (big) "bs = lz4_compress e v" "len = word_of_nat (length bs)"
    using p by (auto simp: prep_value_def Let_def split: if_splits)
  then have all: "len AND NOT UNCOMPRESSED_FLAG = word_of_nat (length bs) \<and> 0 < length bs \<and> length bs < 2 ^ 62 \<and>
     len \<noteq> 0 \<and> (if len AND UNCOMPRESSED_FLAG \<noteq> 0 then bs = v else lz4_decompress e bs = Some v)"
  proof cases
    case small
    then show ?thesis using vl flag_bits(1,2) [of "length v"] by auto
  next
    case big
    have "length bs < 2 ^ 62" using vl(2) c(3) big by simp
    then show ?thesis using big c flag_bits(3,4) [of "length bs"] unat_small [of "length bs"] by auto
  qed
  then show f: "len AND NOT UNCOMPRESSED_FLAG = word_of_nat (length bs)" "0 < length bs" "length bs < 2 ^ 62" "len \<noteq> 0"
    by simp_all
  then show r: "raw_len len = length bs" by (simp add: raw_len_def unat_small)
  show "heap_value e h (off, len, crc_of e bs, ex) = Inr v"
    if "unat off + length bs \<le> length h" "slice (unat off) (unat off + length bs) h = bs" for h off ex
    using that all vl(3) by (auto simp: heap_value_def r Let_def utf8_lossy_valid split: if_splits)
qed

section \<open>Heap writes\<close>

lemma length_write_at: "length (write_at pos d f) = max (length f) (pos + length d)"
  by (auto simp: write_at_def max_def min_def)

lemma write_at_inside: "slice pos (pos + length d) (write_at pos d f) = d"
  by (simp add: write_at_def slice_def)

lemma write_at_below:
  assumes "j \<le> pos" and "j \<le> length f"
  shows "slice i j (write_at pos d f) = slice i j f"
proof -
  have "take j (write_at pos d f) = take j f" using assms by (simp add: write_at_def min_def)
  then show ?thesis unfolding slice_def by (metis take_drop drop_take)
qed

lemma heap_value_cong:
  assumes "slice (unat (fst p)) (unat (fst p) + raw_len (fst (snd p))) h' =
      slice (unat (fst p)) (unat (fst p) + raw_len (fst (snd p))) h"
    and "unat (fst p) + raw_len (fst (snd p)) \<le> length h" and "unat (fst p) + raw_len (fst (snd p)) \<le> length h'"
  shows "heap_value e h' p = heap_value e h p"
  using assms by (cases p) (simp add: heap_value_def Let_def)

lemma heap_put_below:
  assumes "unat (fst p) + raw_len (fst (snd p)) \<le> pos" and "unat (fst p) + raw_len (fst (snd p)) \<le> length (heap db)"
  shows "heap_value e (heap (heap_put pos d db)) p = heap_value e (heap db) p"
proof (cases "d = []")
  case False
  then show ?thesis
    using assms by (intro heap_value_cong) (simp_all add: heap_put_def write_at_below length_write_at)
qed (simp add: heap_put_def)

lemma heap_put_length: "length (heap db) \<le> length (heap (heap_put pos d db))"
  by (simp add: heap_put_def length_write_at)

lemma heap_put_inside:
  "d \<noteq> [] \<Longrightarrow> slice pos (pos + length d) (heap (heap_put pos d db)) = d \<and>
     pos + length d \<le> length (heap (heap_put pos d db))"
  by (simp add: heap_put_def write_at_inside length_write_at)

lemma heap_put_simps [simp]:
  "roots (heap_put pos d db) = roots db" "global_seq (heap_put pos d db) = global_seq db"
  "heap_durable (heap_put pos d db) = heap_durable db" "heap_offset (heap_put pos d db) = heap_offset db"
  "wal (heap_put pos d db) = wal db" "block_cache (heap_put pos d db) = block_cache db"
  "group_commit (heap_put pos d db) = group_commit db"
  by (simp_all add: heap_put_def)

section \<open>The records of a batch\<close>

lemma payload_Cons: "payload ((k, bs, len, pc, ex) # ps) = bs @ payload ps"
  by (simp add: payload_def)

lemma total_heap_bytes_payload:
  assumes "env_ok e" and "\<forall>w \<in> set ws. value_ok (fst (snd w))"
  shows "total_heap_bytes (prep_writes e ws) = word_of_nat (length (payload (prep_writes e ws)))"
  using assms(2)
proof (induction ws)
  case (Cons w ws)
  obtain k v ex where w: "w = (k, v, ex)" by (metis prod.exhaust)
  obtain bs len where p: "prep_value e v = (bs, len)" by force
  have "len AND NOT UNCOMPRESSED_FLAG = word_of_nat (length bs)"
    using prep_value_ok(1) [OF assms(1) _ p] Cons.prems by (simp add: w)
  then show ?case
    using Cons by (simp add: prep_writes_def w p total_heap_bytes_def payload_def)
qed (simp add: prep_writes_def total_heap_bytes_def payload_def)

text \<open>A record whose value lies in the heap between two bounds.\<close>

definition rec_in :: "env \<Rightarrow> bytes \<Rightarrow> nat \<Rightarrow> nat \<Rightarrow> OmniRecord \<Rightarrow> bool" where
  "rec_in e h lo hi r \<longleftrightarrow> rlength r \<noteq> 0 \<and> 0 < raw_len (rlength r) \<and> lo \<le> unat (offset r) \<and>
     unat (offset r) + raw_len (rlength r) \<le> hi \<and> (\<exists>v. heap_value e h (ptr_of r) = Inr v)"

lemma write_recs_ok:
  assumes e: "env_ok e"
  shows "(\<forall>w \<in> set ws. value_ok (fst (snd w))) \<Longrightarrow> ps = prep_writes e ws \<Longrightarrow>
    hi = unat off + length (payload ps) \<Longrightarrow> hi < 2 ^ 63 \<Longrightarrow> hi \<le> length h \<Longrightarrow>
    slice (unat off) hi h = payload ps \<Longrightarrow>
    map (\<lambda>r. ((key r, seq r), cell_of e h (ptr_of r))) (write_recs e q off ps) = write_cells q ws \<and>
    (\<forall>r \<in> set (write_recs e q off ps). rec_in e h (unat off) hi r) \<and>
    distinct (map offset (write_recs e q off ps))"
proof (induction ws arbitrary: ps q off)
  case Nil
  then show ?case by (simp add: prep_writes_def)
next
  case (Cons w ws)
  obtain k v ex where w: "w = (k, v, ex)" by (metis prod.exhaust)
  obtain bs len where p: "prep_value e v = (bs, len)" by force
  let ?ps = "prep_writes e ws"
  have v: "value_ok v" using Cons.prems(1) by (simp add: w)
  note pv = prep_value_ok [OF e v p]
  have ps: "ps = (k, bs, len, crc_of e bs, ex) # ?ps"
    using Cons.prems(2) by (simp add: prep_writes_def w p)
  have pl: "payload ps = bs @ payload ?ps" by (simp add: ps payload_Cons)
  let ?off = "off + (len AND NOT UNCOMPRESSED_FLAG)"
  have off': "unat ?off = unat off + length bs"
  proof -
    have "unat off + length bs < 2 ^ 64" using Cons.prems(3,4) pl by simp
    then show ?thesis using pv(1,4) by (simp add: unat_word_ariths unat_small)
  qed
  have hi': "hi = unat ?off + length (payload ?ps)" using Cons.prems(3) pl off' by simp
  have drop: "slice (unat off) hi h = slice (unat off) (unat off + length bs) h @ slice (unat off + length bs) hi h"
    using Cons.prems(3) pl unfolding slice_def
    by (simp add: take_add [symmetric] add.commute flip: drop_drop)
  have sl: "slice (unat off) (unat off + length bs) h = bs" "slice (unat ?off) hi h = payload ?ps"
    using Cons.prems(3,5,6) pl off' drop by (auto simp: append_eq_append_conv)
  have IH: "map (\<lambda>r. ((key r, seq r), cell_of e h (ptr_of r))) (write_recs e (q + 1) ?off ?ps) = write_cells (q + 1) ws \<and>
    (\<forall>r \<in> set (write_recs e (q + 1) ?off ?ps). rec_in e h (unat ?off) hi r) \<and>
    distinct (map offset (write_recs e (q + 1) ?off ?ps))"
    using Cons.IH [OF _ refl hi' Cons.prems(4,5) sl(2)] Cons.prems(1) by simp
  have hv: "heap_value e h (off, len, crc_of e bs, ex) = Inr v"
    by (rule pv(6)) (use Cons.prems(3,5) pl sl(1) in auto)
  have inr: "rec_in e h (unat ?off) hi r" if "r \<in> set (write_recs e (q + 1) ?off ?ps)" for r
    using IH that by blast
  have "unat off < unat (offset r)" if "r \<in> set (write_recs e (q + 1) ?off ?ps)" for r
    using inr [OF that] off' pv(3) unfolding rec_in_def by linarith
  then have "off \<notin> offset ` set (write_recs e (q + 1) ?off ?ps)" by auto
  moreover have "rec_in e h (unat off) hi r" if "r \<in> set (write_recs e (q + 1) ?off ?ps)" for r
    using inr [OF that] off' by (simp add: rec_in_def)
  ultimately show ?case
    using IH hv pv hi' off' by (auto simp: ps w ptr_of_def cell_of_def rec_in_def)
qed

section \<open>Publishing records\<close>

definition new_ptrs :: "OmniRecord list \<Rightarrow> bytes \<times> u64 \<Rightarrow> ptr option" where
  "new_ptrs rs = map_of (map (\<lambda>r. ((key r, seq r), ptr_of r)) rs)"

lemma new_ptrs_Some: "new_ptrs rs (k, q) = Some p \<Longrightarrow> \<exists>r \<in> set rs. key r = k \<and> seq r = q \<and> ptr_of r = p"
  unfolding new_ptrs_def by (drule map_of_SomeD) auto

lemma fold_mem_insert:
  assumes "mem_wf m" and "distinct (map seq rs)"
  shows "mem_wf (fold mem_insert_record rs m) \<and>
    mem_versions (fold mem_insert_record rs m) k q =
      (case new_ptrs rs (k, q) of Some p \<Rightarrow> Some p | None \<Rightarrow> mem_versions m k q)"
  using assms
proof (induction rs arbitrary: m)
  case Nil
  then show ?case by (simp add: new_ptrs_def)
next
  case (Cons r rs)
  let ?m = "mem_insert_record r m"
  have "mem_wf ?m" using Cons.prems(1) by (simp add: mem_insert_record_def mem_wf_insert)
  then have IH: "mem_wf (fold mem_insert_record rs ?m)"
    "mem_versions (fold mem_insert_record rs ?m) k q =
      (case new_ptrs rs (k, q) of Some p \<Rightarrow> Some p | None \<Rightarrow> mem_versions ?m k q)"
    using Cons.IH [of ?m] Cons.prems(2) by simp_all
  have none: "new_ptrs rs (key r, seq r) = None"
  proof (rule ccontr)
    assume "new_ptrs rs (key r, seq r) \<noteq> None"
    then obtain p where "new_ptrs rs (key r, seq r) = Some p" by blast
    then have "seq r \<in> seq ` set rs" by (metis new_ptrs_Some imageI)
    then show False using Cons.prems(2) by simp
  qed
  have mv: "mem_versions ?m k q = (if k = key r \<and> q = seq r then Some (ptr_of r) else mem_versions m k q)"
    using Cons.prems(1) by (simp add: mem_insert_record_def mem_versions_insert)
  have np: "new_ptrs (r # rs) (k, q) = (if k = key r \<and> q = seq r then Some (ptr_of r) else new_ptrs rs (k, q))"
    by (auto simp: new_ptrs_def)
  show ?case
  proof (cases "k = key r \<and> q = seq r")
    case True
    then show ?thesis using IH none mv np by simp
  next
    case False
    then show ?thesis using IH mv np by (simp only: if_False fold_simps)
  qed
qed

text \<open>Adding records at fresh sequences, with their values past the old end of the heap, keeps the
  invariant and adds exactly their cells.\<close>

lemma db_versions_publish:
  assumes ok: "roots_ok e (roots db)" and d: "distinct (map seq rs)"
    and nm: "\<forall>r \<in> set rs. \<not> is_marker r"
    and fresh: "\<And>k q q' p. db_versions e (roots db) k q = Some p \<Longrightarrow> q' \<in> seq ` set rs \<Longrightarrow> q < q'"
  shows "roots_ok e (roots (publish rs db)) \<and>
    db_versions e (roots (publish rs db)) k q =
      (case new_ptrs rs (k, q) of Some p \<Rightarrow> Some p | None \<Rightarrow> db_versions e (roots db) k q)"
proof -
  let ?r = "roots db" and ?r' = "roots (publish rs db)"
  let ?m = "fold mem_insert_record rs (memtable ?r)"
  have r': "?r' = ?r\<lparr>memtable := ?m\<rparr>" using nm by (simp add: publish_def filter_id_conv)
  have wf: "mem_wf (memtable ?r)" using ok by (simp add: roots_ok_def)
  note m = fold_mem_insert [OF wf d]
  have lv: "levels e ?r' k = mem_versions ?m k # tl (levels e ?r k)" for k
    by (simp add: levels_def r' base_handle_def)
  have lv0: "levels e ?r k = mem_versions (memtable ?r) k # tl (levels e ?r k)" for k
    by (simp add: levels_def)
  have so: "sorted_wrt above (levels e ?r k)" for k using ok by (simp add: roots_ok_def)
  have so': "sorted_wrt above (mem_versions (memtable ?r) k # tl (levels e ?r k))" for k
    using so [of k] unfolding lv0 [symmetric] .
  have old: "db_versions e ?r k q = Some p" if "l \<in> set (levels e ?r k)" "l q = Some p" for k l q p
    unfolding db_versions_def using merge_levels_iff [OF so [of k], of q p] that by blast
  have "above (mem_versions ?m k) l" if l: "l \<in> set (tl (levels e ?r k))" for k l
    unfolding above_def
  proof (intro allI impI, elim conjE)
    fix q p q' p' assume q: "mem_versions ?m k q = Some p" and q': "l q' = Some p'"
    have l': "l \<in> set (levels e ?r k)" using l by (rule list.set_sel(2) [rotated]) (simp add: levels_def)
    show "q' < q \<or> q' = q \<and> p' = p"
    proof (cases "new_ptrs rs (k, q)")
      case None
      then have "mem_versions (memtable ?r) k q = Some p" using q m [of k q] by simp
      moreover have "above (mem_versions (memtable ?r) k) l" using so' [of k] l by simp
      ultimately show ?thesis using q' unfolding above_def by blast
    next
      case (Some p1)
      then have "q \<in> seq ` set rs" using new_ptrs_Some [OF Some] by auto
      then show ?thesis using fresh [OF old [OF l' q']] by blast
    qed
  qed
  moreover have "sorted_wrt above (tl (levels e ?r k))" for k using so' [of k] by simp
  ultimately have "sorted_wrt above (levels e ?r' k)" for k unfolding lv by simp
  then have "roots_ok e ?r'" using ok m by (simp add: roots_ok_def r' base_handle_def)
  moreover have "db_versions e ?r' k q = (case new_ptrs rs (k, q) of Some p \<Rightarrow> Some p | None \<Rightarrow> db_versions e ?r k q)"
  proof -
    have "db_versions e ?r k = merge_levels (tl (levels e ?r k)) ++ mem_versions (memtable ?r) k"
      by (simp add: db_versions_def levels_def)
    moreover have "db_versions e ?r' k = merge_levels (tl (levels e ?r k)) ++ mem_versions ?m k"
      by (simp add: db_versions_def lv)
    ultimately show ?thesis using m [of k q] by (simp add: map_add_def split: option.split)
  qed
  ultimately show ?thesis by blast
qed

lemma cell_of_cong:
  "(fst (snd p) \<noteq> 0 \<Longrightarrow> heap_value e h' p = heap_value e h p) \<Longrightarrow> cell_of e h' p = cell_of e h p"
  by (cases p) (simp add: cell_of_def)

lemma db_ok_publish:
  assumes ok: "db_ok e db" and nm: "\<forall>r \<in> set rs. key_ok (key r)" and d: "distinct (map seq rs)"
    and frame: "roots db1 = roots db" "block_cache db1 = block_cache db" "heap_durable db \<le> heap_durable db1"
      "heap_durable db1 \<le> length (heap db1)" "heap_offset db \<le> heap_offset db1" "global_seq db \<le> global_seq db1"
    and keep: "\<And>p. p \<in> live e (roots db) \<Longrightarrow> fst (snd p) \<noteq> 0 \<Longrightarrow>
      heap_value e (heap db1) p = heap_value e (heap db) p"
    and seqs: "\<forall>r \<in> set rs. global_seq db \<le> seq r \<and> seq r < global_seq db1"
    and vals: "\<forall>r \<in> set rs. rlength r \<noteq> 0 \<longrightarrow> rec_in e (heap db1) (unat (heap_offset db)) hi r"
    and hi: "hi \<le> heap_durable db1" "hi \<le> unat (heap_offset db1)"
    and offs: "\<forall>r \<in> set rs. \<forall>r' \<in> set rs. rlength r \<noteq> 0 \<and> rlength r' \<noteq> 0 \<and> offset r = offset r' \<longrightarrow> r = r'"
  shows "db_ok e (publish rs db1) \<and>
    db_cells e (publish rs db1) k q =
      (case new_ptrs rs (k, q) of Some p \<Rightarrow> Some (cell_of e (heap db1) p) | None \<Rightarrow> db_cells e db k q)"
proof -
  let ?db = "publish rs db1"
  have fields: "heap ?db = heap db1" "heap_durable ?db = heap_durable db1" "heap_offset ?db = heap_offset db1"
    "block_cache ?db = block_cache db" "global_seq ?db = global_seq db1"
    by (simp_all add: publish_def frame)
  have nomark: "\<forall>r \<in> set rs. \<not> is_marker r" using nm by (simp add: is_marker_iff key_ok_def)
  have fresh: "q < q'" if old: "db_versions e (roots db1) k q = Some p" and q': "q' \<in> seq ` set rs" for k q q' p
  proof -
    obtain r where "r \<in> set rs" "q' = seq r" using q' by blast
    then have "global_seq db \<le> q'" using seqs by blast
    moreover have "q < global_seq db" using db_okD(3) [OF ok, of k q p] old by (simp add: frame)
    ultimately show ?thesis by simp
  qed
  have rok: "roots_ok e (roots db1)" using db_okD(1) [OF ok] by (simp add: frame)
  have v: "roots_ok e (roots ?db) \<and> db_versions e (roots ?db) k q =
      (case new_ptrs rs (k, q) of Some p \<Rightarrow> Some p | None \<Rightarrow> db_versions e (roots db) k q)" for k q
    unfolding frame(1) [symmetric] by (rule db_versions_publish [OF rok d nomark]) (rule fresh)
  have old: "ptr_ok e ?db p" if p: "p \<in> live e (roots db)" for p
    using db_okD(4) [OF ok p] keep [OF p] frame
    by (auto simp: ptr_ok_def fields word_le_nat_alt)
  have new: "ptr_ok e ?db (ptr_of r)" if r: "r \<in> set rs" for r
  proof (cases "rlength r = 0")
    case False
    then have ri: "rec_in e (heap db1) (unat (heap_offset db)) hi r" using vals r by blast
    moreover have "block_cache db (offset r) = None"
      using ri db_okD(6) [OF ok, of "offset r"] by (cases "block_cache db (offset r)") (auto simp: rec_in_def word_less_nat_alt)
    ultimately show ?thesis using hi by (auto simp: ptr_ok_def ptr_of_def fields rec_in_def)
  qed (simp add: ptr_ok_def ptr_of_def)
  have live: "p \<in> live e (roots db) \<or> (\<exists>r \<in> set rs. p = ptr_of r)" if p: "p \<in> live e (roots ?db)" for p
  proof -
    obtain k q where "db_versions e (roots ?db) k q = Some p" using p unfolding live_def by blast
    then show ?thesis using v [of k q] new_ptrs_Some [of rs k q p] unfolding live_def
      by (cases "new_ptrs rs (k, q)") (simp, blast, simp, metis)
  qed
  have disj: "fst p \<noteq> offset r" if "p \<in> live e (roots db)" "fst (snd p) \<noteq> 0" "r \<in> set rs" "rlength r \<noteq> 0" for p r
    using db_okD(4) [OF ok that(1)] vals that by (auto simp: ptr_ok_def rec_in_def)
  have "same_values e (heap ?db) (live e (roots ?db))"
    unfolding same_values_def
  proof (intro ballI impI, elim conjE)
    fix p p' assume pp: "p \<in> live e (roots ?db)" "p' \<in> live e (roots ?db)" "fst (snd p) \<noteq> 0" "fst (snd p') \<noteq> 0" "fst p = fst p'"
    consider "p \<in> live e (roots db)" "p' \<in> live e (roots db)"
      | r r' where "r \<in> set rs" "r' \<in> set rs" "p = ptr_of r" "p' = ptr_of r'"
      | r where "p \<in> live e (roots db)" "r \<in> set rs" "p' = ptr_of r"
      | r where "p' \<in> live e (roots db)" "r \<in> set rs" "p = ptr_of r"
      using live [OF pp(1)] live [OF pp(2)] by blast
    then show "heap_value e (heap ?db) p = heap_value e (heap ?db) p'"
    proof cases
      case 1
      then show ?thesis
        using same_valuesD [OF db_okD(5) [OF ok] 1 pp(3-5)] keep [OF 1(1) pp(3)] keep [OF 1(2) pp(4)]
        by (simp add: fields)
    next
      case (2 r r')
      then have "r = r'" using offs [rule_format, of r r'] pp(3-5) by (simp add: ptr_of_def)
      then show ?thesis using 2 by simp
    next
      case (3 r)
      then show ?thesis using disj [of p r] pp(3-5) by (simp add: ptr_of_def)
    next
      case (4 r)
      then show ?thesis using disj [of p' r] pp(3-5) by (simp add: ptr_of_def)
    qed
  qed
  moreover have "utf8_valid k \<and> length k < 65536 \<and> 0 < q \<and> q < global_seq ?db" if vk: "db_versions e (roots ?db) k q = Some p" for k q p
  proof (cases "new_ptrs rs (k, q)")
    case None
    then show ?thesis using v [of k q] vk db_okD(3) [OF ok, of k q p] frame by (auto simp: fields)
  next
    case (Some p1)
    then obtain r where "r \<in> set rs" "key r = k" "seq r = q" using new_ptrs_Some by blast
    then show ?thesis using nm seqs db_okD(7) [OF ok] by (auto simp: fields key_ok_def)
  qed
  moreover have "\<forall>p \<in> live e (roots ?db). ptr_ok e ?db p" using live old new by blast
  moreover have "off < heap_offset ?db" if "block_cache ?db off = Some w" for off w
    using that db_okD(6) [OF ok, of off w] frame by (auto simp: fields)
  ultimately have "db_ok e ?db"
    using v db_okD(7) [OF ok] frame unfolding db_ok_def fields by auto
  moreover have "db_cells e ?db k q = (case new_ptrs rs (k, q) of Some p \<Rightarrow> Some (cell_of e (heap db1) p) | None \<Rightarrow> db_cells e db k q)"
  proof (cases "new_ptrs rs (k, q)")
    case None
    have "cell_of e (heap db1) p = cell_of e (heap db) p" if vp: "db_versions e (roots db) k q = Some p" for p
    proof (rule cell_of_cong)
      have "p \<in> live e (roots db)" unfolding live_def using vp by blast
      then show "fst (snd p) \<noteq> 0 \<Longrightarrow> heap_value e (heap db1) p = heap_value e (heap db) p" by (rule keep)
    qed
    then show ?thesis using None v [of k q] by (cases "db_versions e (roots db) k q") (simp_all add: db_cells_def fields)
  qed (use v [of k q] in \<open>simp add: db_cells_def fields\<close>)
  ultimately show ?thesis by blast
qed

section \<open>Frame: writes past the end of the heap change no read\<close>

definition extends_db :: "env \<Rightarrow> OmniKV \<Rightarrow> OmniKV \<Rightarrow> bool" where
  "extends_db e db db1 \<longleftrightarrow> roots db1 = roots db \<and> block_cache db1 = block_cache db \<and>
     heap_durable db \<le> heap_durable db1 \<and> heap_durable db1 \<le> length (heap db1) \<and>
     heap_offset db \<le> heap_offset db1 \<and> global_seq db \<le> global_seq db1 \<and>
     (\<forall>p \<in> live e (roots db). fst (snd p) \<noteq> 0 \<longrightarrow> heap_value e (heap db1) p = heap_value e (heap db) p)"

lemma extends_db_ok:
  assumes "db_ok e db" and "extends_db e db db1"
  shows "db_ok e db1 \<and> db_cells e db1 = db_cells e db"
proof -
  have "db_ok e (publish [] db1) \<and> db_cells e (publish [] db1) k q =
      (case new_ptrs [] (k, q) of Some p \<Rightarrow> Some (cell_of e (heap db1) p) | None \<Rightarrow> db_cells e db k q)" for k q
    by (rule db_ok_publish [OF assms(1), where hi = 0]) (use assms(2) in \<open>simp_all add: extends_db_def\<close>)
  moreover have "publish [] db1 = db1" by (simp add: publish_def)
  ultimately show ?thesis by (simp add: new_ptrs_def fun_eq_iff)
qed

lemma group_sync_frame:
  assumes "group_sync io db = (err, db')"
  shows "roots db' = roots db \<and> block_cache db' = block_cache db \<and> heap db' = heap db \<and>
    heap_offset db' = heap_offset db \<and> global_seq db' = global_seq db \<and>
    heap_durable db' \<in> {heap_durable db, length (heap db)}"
  using assms
  by (auto simp: group_sync_def sync_group_commit_files_def Let_def split: prod.splits join_outcome.splits
      option.splits if_splits sum.splits)

lemma reserve_simps [simp]:
  "roots (reserve n t db) = roots db" "heap (reserve n t db) = heap db"
  "heap_durable (reserve n t db) = heap_durable db" "wal (reserve n t db) = wal db"
  "block_cache (reserve n t db) = block_cache db" "group_commit (reserve n t db) = group_commit db"
  by (simp_all add: reserve_def)

lemma reserve_bounds:
  assumes "env_ok e" and "tx_ok tx" and "room_for e tx db"
  defines "ps \<equiv> prep_writes e (buffered_writes tx)"
  defines "n \<equiv> length ps + length (buffered_deletes tx)"
  shows "n = op_count tx"
    and "unat (heap_offset (reserve n (total_heap_bytes ps) db)) = unat (heap_offset db) + length (payload ps)"
    and "unat (global_seq (reserve n (total_heap_bytes ps) db)) = unat (global_seq db) + op_count tx + 1"
proof -
  have v: "\<forall>w \<in> set (buffered_writes tx). value_ok (fst (snd w))" using assms(2) by (simp add: tx_ok_def)
  have t: "total_heap_bytes ps = word_of_nat (length (payload ps))"
    unfolding ps_def by (rule total_heap_bytes_payload [OF assms(1) v])
  show n: "n = op_count tx" by (simp add: n_def ps_def op_count_def prep_writes_def)
  have r: "unat (global_seq db) + op_count tx + 1 < 2 ^ 64" "unat (heap_offset db) + length (payload ps) < 2 ^ 63"
    using assms(3) by (simp_all add: room_for_def ps_def)
  show "unat (heap_offset (reserve n (total_heap_bytes ps) db)) = unat (heap_offset db) + length (payload ps)"
    using r(2) by (simp add: reserve_def t unat_word_ariths unat_of_nat)
  show "unat (global_seq (reserve n (total_heap_bytes ps) db)) = unat (global_seq db) + op_count tx + 1"
    using r(1) unfolding reserve_def n by (simp add: unat_word_ariths unat_of_nat)
qed

lemma live_below:
  assumes "db_ok e db" and "p \<in> live e (roots db)" and "fst (snd p) \<noteq> 0"
  shows "unat (fst p) + raw_len (fst (snd p)) \<le> unat (heap_offset db)"
    and "unat (fst p) + raw_len (fst (snd p)) \<le> length (heap db)"
  using db_okD(4) [OF assms(1,2)] db_okD(2) [OF assms(1)] assms(3) by (auto simp: ptr_ok_def)

lemma commit_extends:
  assumes ok: "db_ok e db" and e: "env_ok e" and tx: "tx_ok tx" "room_for e tx db"
  defines "ps \<equiv> prep_writes e (buffered_writes tx)"
  defines "n \<equiv> length ps + length (buffered_deletes tx)"
  assumes db1: "db1 = heap_put (unat (heap_offset db)) d (reserve n (total_heap_bytes ps) db)"
    and db2: "roots db2 = roots db1" "block_cache db2 = block_cache db1" "heap db2 = heap db1"
      "heap_offset db2 = heap_offset db1" "global_seq db2 = global_seq db1"
      "heap_durable db2 \<in> {heap_durable db1, length (heap db1)}"
  shows "extends_db e db db2"
proof -
  note b = reserve_bounds [OF e tx, folded ps_def, folded n_def]
  have "heap_value e (heap db2) p = heap_value e (heap db) p" if "p \<in> live e (roots db)" "fst (snd p) \<noteq> 0" for p
    using heap_put_below [of p "unat (heap_offset db)" "reserve n (total_heap_bytes ps) db" e d]
      live_below [OF ok that] by (simp add: db2 db1)
  moreover have "heap_durable db \<le> length (heap db1)"
    using db_okD(2) [OF ok] heap_put_length [of "reserve n (total_heap_bytes ps) db" "unat (heap_offset db)" d]
    by (simp add: db1)
  moreover have "heap_offset db \<le> heap_offset db2" "global_seq db \<le> global_seq db2"
    using b(2,3) by (simp_all add: db2 db1 word_le_nat_alt)
  ultimately show ?thesis
    using db2 unfolding extends_db_def by (auto simp: db1)
qed

section \<open>Commits\<close>

definition seqs_from :: "u64 \<Rightarrow> nat \<Rightarrow> u64 list" where
  "seqs_from q n = map (\<lambda>i. q + word_of_nat i) [0..<n]"

lemma seqs_from_simps [simp]:
  "seqs_from q 0 = []" "seqs_from q (Suc n) = q # seqs_from (q + 1) n"
proof -
  have "[0..<Suc n] = 0 # map Suc [0..<n]" by (simp add: upt_conv_Cons map_Suc_upt)
  then show "seqs_from q (Suc n) = q # seqs_from (q + 1) n" by (simp add: seqs_from_def comp_def add.assoc del: upt_Suc)
qed (simp add: seqs_from_def)

lemma seqs_from_append: "seqs_from q (m + n) = seqs_from q m @ seqs_from (q + word_of_nat m) n"
  by (induction m arbitrary: q) (simp_all add: add.assoc)

lemma seqs_from_bounds:
  assumes "unat q + n < 2 ^ 64"
  shows "distinct (seqs_from q n)" and "\<forall>x \<in> set (seqs_from q n). unat q \<le> unat x \<and> unat x < unat q + n"
proof -
  have u: "unat (q + word_of_nat i) = unat q + i" if "i < n" for i
    using that assms by (simp add: unat_word_ariths unat_of_nat)
  then show "\<forall>x \<in> set (seqs_from q n). unat q \<le> unat x \<and> unat x < unat q + n" by (auto simp: seqs_from_def)
  have "inj_on (\<lambda>i. q + word_of_nat i) {0..<n}"
    by (rule inj_onI) (metis atLeastLessThan_iff add_left_cancel u)
  then show "distinct (seqs_from q n)" by (simp add: seqs_from_def distinct_map)
qed

lemma write_recs_seqs: "map seq (write_recs e q off ps) = seqs_from q (length ps)"
  by (induction e q off ps rule: write_recs.induct) simp_all

lemma delete_recs_seqs: "map seq (delete_recs e q ks) = seqs_from q (length ks)"
  by (induction e q ks rule: delete_recs.induct) simp_all

lemma write_recs_keys: "map key (write_recs e q off (prep_writes e ws)) = map fst ws"
  by (induction ws arbitrary: q off) (auto simp: prep_writes_def split: prod.splits)

lemma delete_recs_keys: "map key (delete_recs e q ks) = ks"
  by (induction e q ks rule: delete_recs.induct) simp_all

lemma delete_recs_ptrs: "r \<in> set (delete_recs e q ks) \<Longrightarrow> rlength r = 0"
  by (induction e q ks rule: delete_recs.induct) auto

lemma delete_recs_cells:
  "map (\<lambda>r. ((key r, seq r), cell_of e h (ptr_of r))) (delete_recs e q ks) = delete_cells q ks"
  by (induction e q ks rule: delete_recs.induct) (simp_all add: ptr_of_def cell_of_def)

lemma new_ptrs_cells:
  "map_option f (new_ptrs rs x) = map_of (map (\<lambda>r. ((key r, seq r), f (ptr_of r))) rs) x"
  by (induction rs) (auto simp: new_ptrs_def)

definition data_records :: "env \<Rightarrow> WriteBatch \<Rightarrow> OmniKV \<Rightarrow> OmniRecord list" where
  "data_records e tx db =
     (let ps = prep_writes e (buffered_writes tx)
      in write_recs e (global_seq db) (heap_offset db) ps @
         delete_recs e (global_seq db + word_of_nat (length ps)) (buffered_deletes tx))"

lemma data_records_keys:
  assumes "tx_ok tx"
  shows "\<forall>r \<in> set (data_records e tx db). key_ok (key r)"
proof -
  have "map key (data_records e tx db) = map fst (buffered_writes tx) @ buffered_deletes tx"
    by (simp add: data_records_def Let_def write_recs_keys delete_recs_keys)
  then have "key ` set (data_records e tx db) = fst ` set (buffered_writes tx) \<union> set (buffered_deletes tx)"
    by (metis set_map set_append)
  then have "key r \<in> fst ` set (buffered_writes tx) \<union> set (buffered_deletes tx)" if "r \<in> set (data_records e tx db)" for r
    using that by blast
  then show ?thesis using assms unfolding tx_ok_def by (metis (no_types, lifting) UnE imageE)
qed

lemma publish_batch:
  assumes "tx_ok tx"
  shows "publish (batch_records e (global_seq db) (heap_offset db) (prep_writes e (buffered_writes tx))
      (buffered_deletes tx)) db' = publish (data_records e tx db) db'"
proof -
  have "filter (\<lambda>r. \<not> is_marker r) (data_records e tx db) = data_records e tx db"
    using data_records_keys [OF assms, of e db] by (auto simp: filter_id_conv is_marker_iff key_ok_def)
  then show ?thesis
    by (simp add: publish_def batch_records_def Let_def data_records_def is_marker_iff)
qed

lemma publish_data_records:
  assumes ok: "db_ok e db" and e: "env_ok e" and tx: "tx_ok tx" "room_for e tx db"
  defines "ps \<equiv> prep_writes e (buffered_writes tx)"
  assumes ext: "extends_db e db db1"
    and h: "payload ps \<noteq> [] \<Longrightarrow> slice (unat (heap_offset db)) (unat (heap_offset db) + length (payload ps)) (heap db1) = payload ps \<and>
        unat (heap_offset db) + length (payload ps) \<le> length (heap db1)"
    and dur: "heap_durable db1 = length (heap db1)"
    and ho: "unat (heap_offset db1) = unat (heap_offset db) + length (payload ps)"
    and gs: "unat (global_seq db1) = unat (global_seq db) + op_count tx + 1"
  shows "db_ok e (publish (data_records e tx db) db1) \<and>
    db_cells e (publish (data_records e tx db) db1) = apply_batch (global_seq db) tx (db_cells e db)"
proof -
  let ?W = "write_recs e (global_seq db) (heap_offset db) ps"
  let ?D = "delete_recs e (global_seq db + word_of_nat (length ps)) (buffered_deletes tx)"
  let ?rs = "data_records e tx db"
  let ?hi = "unat (heap_offset db) + length (payload ps)"
  have rs: "?rs = ?W @ ?D" by (simp add: data_records_def ps_def Let_def)
  have room: "unat (global_seq db) + op_count tx + 1 < 2 ^ 64" "?hi < 2 ^ 63"
    using tx(2) by (simp_all add: room_for_def ps_def)
  have len: "length ps = length (buffered_writes tx)" by (simp add: ps_def prep_writes_def)
  have "map seq ?rs = seqs_from (global_seq db) (op_count tx)"
    by (simp add: rs write_recs_seqs delete_recs_seqs len op_count_def seqs_from_append)
  then have d: "distinct (map seq ?rs)"
    and sb: "\<forall>r \<in> set ?rs. unat (global_seq db) \<le> unat (seq r) \<and> unat (seq r) < unat (global_seq db) + op_count tx"
    using seqs_from_bounds [of "global_seq db" "op_count tx"] room(1) by (simp, metis add_lessD1 image_eqI set_map)
  have "?W = [] \<or> payload ps \<noteq> []"
  proof (cases "buffered_writes tx")
    case (Cons w ws)
    obtain k v ex bs len where "w = (k, v, ex)" "prep_value e v = (bs, len)" by (metis prod.exhaust)
    then have "bs \<noteq> []" using prep_value_ok(3) [OF e, of v bs len] tx(1) Cons by (auto simp: tx_ok_def)
    then show ?thesis using \<open>prep_value e v = (bs, len)\<close> \<open>w = (k, v, ex)\<close> by (simp add: ps_def prep_writes_def Cons payload_def)
  qed (simp add: ps_def prep_writes_def)
  have W: "map (\<lambda>r. ((key r, seq r), cell_of e (heap db1) (ptr_of r))) ?W = write_cells (global_seq db) (buffered_writes tx) \<and>
      (\<forall>r \<in> set ?W. rec_in e (heap db1) (unat (heap_offset db)) ?hi r) \<and> distinct (map offset ?W)"
  proof (cases "buffered_writes tx = []")
    case False
    have v: "\<forall>w \<in> set (buffered_writes tx). value_ok (fst (snd w))" using tx(1) by (simp add: tx_ok_def)
    have "?W \<noteq> []" using False len by (cases ps) auto
    then have "payload ps \<noteq> []" using \<open>?W = [] \<or> payload ps \<noteq> []\<close> by blast
    then show ?thesis
      using write_recs_ok [OF e v, of ps ?hi "heap_offset db" "heap db1" "global_seq db"] h room(2) by (simp add: ps_def)
  qed (simp add: ps_def prep_writes_def)
  have WD: "r \<in> set ?W \<or> r \<in> set ?D" if "r \<in> set ?rs" for r using that by (simp add: rs)
  define hi where "hi = (if payload ps = [] then 0 else ?hi)"
  have vals: "\<forall>r \<in> set ?rs. rlength r \<noteq> 0 \<longrightarrow> rec_in e (heap db1) (unat (heap_offset db)) hi r"
  proof (intro ballI impI)
    fix r assume r: "r \<in> set ?rs" "rlength r \<noteq> 0"
    then have m: "r \<in> set ?W" using WD delete_recs_ptrs by blast
    then have "payload ps \<noteq> []" using \<open>?W = [] \<or> payload ps \<noteq> []\<close> by auto
    then show "rec_in e (heap db1) (unat (heap_offset db)) hi r" using W m by (simp add: hi_def)
  qed
  have offs: "\<forall>r \<in> set ?rs. \<forall>r' \<in> set ?rs. rlength r \<noteq> 0 \<and> rlength r' \<noteq> 0 \<and> offset r = offset r' \<longrightarrow> r = r'"
  proof (intro ballI impI)
    fix r r' assume r: "r \<in> set ?rs" "r' \<in> set ?rs" "rlength r \<noteq> 0 \<and> rlength r' \<noteq> 0 \<and> offset r = offset r'"
    then have "r \<in> set ?W" "r' \<in> set ?W" using WD delete_recs_ptrs by blast+
    moreover have "inj_on offset (set ?W)" using W by (simp add: distinct_map)
    ultimately show "r = r'" using r(3) by (simp add: inj_on_def)
  qed
  have seqs: "\<forall>r \<in> set ?rs. global_seq db \<le> seq r \<and> seq r < global_seq db1"
    using sb gs by (fastforce simp: word_le_nat_alt word_less_nat_alt)
  have hib: "hi \<le> heap_durable db1" "hi \<le> unat (heap_offset db1)"
    using h dur ho by (auto simp: hi_def)
  have key: "db_ok e (publish ?rs db1) \<and>
    db_cells e (publish ?rs db1) k q =
      (case new_ptrs ?rs (k, q) of Some p \<Rightarrow> Some (cell_of e (heap db1) p) | None \<Rightarrow> db_cells e db k q)" for k q
    by (rule db_ok_publish [OF ok data_records_keys [OF tx(1)] d _ _ _ _ _ _ _ seqs vals hib offs])
      (use ext in \<open>simp_all add: extends_db_def\<close>)
  have "map (\<lambda>r. ((key r, seq r), cell_of e (heap db1) (ptr_of r))) ?rs = batch_cells (global_seq db) tx"
    using W by (simp add: rs delete_recs_cells batch_cells_def len)
  then have "map_of (batch_cells (global_seq db) tx) (k, q) = map_option (cell_of e (heap db1)) (new_ptrs ?rs (k, q))" for k q
    by (simp add: new_ptrs_cells)
  then have "db_cells e (publish ?rs db1) k q = apply_batch (global_seq db) tx (db_cells e db) k q" for k q
    using key [of k q] by (cases "new_ptrs ?rs (k, q)") (simp_all add: apply_batch_def)
  then show ?thesis using key by (simp add: fun_eq_iff)
qed

lemma commit_failed:
  assumes ok: "db_ok e db" "env_ok e" "tx_ok tx" "room_for e tx db"
    and c: "commit_batch_local e io tx db = (Inl err, db')"
  shows "db_ok e db' \<and> db_cells e db' = db_cells e db \<and> global_seq db \<le> global_seq db'"
proof -
  let ?ps = "prep_writes e (buffered_writes tx)"
  let ?n = "length ?ps + length (buffered_deletes tx)"
  let ?off = "unat (heap_offset db)"
  let ?db1 = "reserve ?n (total_heap_bytes ?ps) db"
  let ?db2 = "heap_put ?off (payload ?ps) ?db1"
  note ext = commit_extends [OF ok]
  have part: "extends_db e db (heap_put ?off d ?db1)" for d by (rule ext [where d = d]) (rule refl, simp_all)
  have log: "extends_db e db (?db2\<lparr>wal := w\<rparr>)" for w
    by (rule ext [where d = "payload ?ps"]) (rule refl, simp_all)
  have grp: "extends_db e db db3" if "group_sync io (?db2\<lparr>wal := w\<rparr>) = (r, db3)" for w r db3
    by (rule ext [where d = "payload ?ps"], rule refl) (use group_sync_frame [OF that] in \<open>simp_all del: heap_put_simps reserve_simps\<close>)
  have "db' = db \<or> extends_db e db db'"
    using c part log grp
    by (auto simp: commit_batch_local_def Let_def split: if_splits option.splits prod.splits sum.splits)
  then show ?thesis using extends_db_ok [OF ok(1)] ok(1) by (auto simp: extends_db_def)
qed

text \<open>A commit with no fsync in flight leads its group, so its success means that its own fsync
  covered the heap.\<close>

lemma group_sync_lead:
  assumes "current_epoch (group_commit db) = 0" and "group_sync io db = (r, db')"
  shows "current_epoch (group_commit db') = 0" and "r = None \<Longrightarrow> heap_durable db' = length (heap db')"
  using assms
  by (auto simp: group_sync_def join_enter_def begin_next_sync_def sync_group_commit_files_def complete_sync_def
      poison_def Let_def split: option.splits if_splits sum.splits)

lemma commit_acked:
  assumes ok: "db_ok e db" "env_ok e" "tx_ok tx" "room_for e tx db"
    and lead: "current_epoch (group_commit db) = 0" and c: "commit_batch_local e io tx db = (Inr q, db')"
  shows "q = global_seq db + word_of_nat (op_count tx) \<and> db_ok e db' \<and>
    db_cells e db' = apply_batch (global_seq db) tx (db_cells e db) \<and>
    unat (global_seq db') = unat (global_seq db) + op_count tx + 1"
proof -
  let ?ps = "prep_writes e (buffered_writes tx)"
  let ?n = "length ?ps + length (buffered_deletes tx)"
  let ?off = "unat (heap_offset db)"
  let ?db1 = "reserve ?n (total_heap_bytes ?ps) db"
  let ?db2 = "heap_put ?off (payload ?ps) ?db1"
  let ?rs = "batch_records e (global_seq db) (heap_offset db) ?ps (buffered_deletes tx)"
  note b = reserve_bounds [OF ok(2,3,4)]
  obtain w db3 where g: "group_sync io (?db2\<lparr>wal := w\<rparr>) = (None, db3)"
    and q: "q = global_seq db + word_of_nat ?n" "db' = publish ?rs db3"
    using c by (auto simp: commit_batch_local_def Let_def split: if_splits option.splits prod.splits sum.splits)
  have dur: "heap_durable db3 = length (heap db3)" by (rule group_sync_lead(2) [OF _ g]) (use lead in simp_all)
  have ext: "extends_db e db db3"
    by (rule commit_extends [OF ok, where d = "payload ?ps"], rule refl)
      (use group_sync_frame [OF g] in \<open>simp_all del: heap_put_simps reserve_simps\<close>)
  have fr: "heap db3 = heap ?db2" "heap_offset db3 = heap_offset ?db1" "global_seq db3 = global_seq ?db1"
    using group_sync_frame [OF g] by simp_all
  have "db_ok e (publish (data_records e tx db) db3) \<and>
    db_cells e (publish (data_records e tx db) db3) = apply_batch (global_seq db) tx (db_cells e db)"
    by (rule publish_data_records [OF ok ext _ dur]) (use heap_put_inside b(2,3) fr in auto)
  then show ?thesis
    using q b(1,3) fr(3) by (simp add: publish_batch [OF ok(3)]) (simp add: publish_def)
qed

text \<open>Without faults a commit is acknowledged.\<close>

lemma commit_returns:
  assumes "io_ok io" and "\<not> write_stalled io db" and "group_idle (group_commit db)"
  shows "\<exists>q db'. commit_batch_local e io tx db = (Inr q, db')"
  using assms
  by (auto simp: commit_batch_local_def io_ok_def group_idle_def is_poisoned_def append_batch_nosync_def wal_write_def
      group_sync_def join_enter_def begin_next_sync_def sync_group_commit_files_def wal_sync_def Let_def)

lemma commit_lead:
  assumes "current_epoch (group_commit db) = 0" and "commit_batch_local e io tx db = (r, db')"
  shows "current_epoch (group_commit db') = 0"
  using assms
  by (auto simp: commit_batch_local_def publish_def Let_def dest!: group_sync_lead(1) [rotated]
      split: if_splits option.splits prod.splits sum.splits)

end
