(* ===== verification/Engine.thy ===== *)
theory Engine
  imports Engine_Write "HOL-Library.Multiset"
begin

text \<open>
  The contract of the storage engine. A fresh database denotes no cells; each acknowledged batch
  adds its cells at the sequences it reserved and each rejected one adds nothing; reads return
  what the cells say. The theory states this for single operations and for whole runs, describes
  what a batch does to each key, and gives the snapshot registry and the retention floor as a
  multiset and its minimum.
\<close>

section \<open>A fresh database\<close>

text \<open>What \<^verbatim>\<open>OmniKV::open\<close> returns for an empty directory.\<close>

definition fresh_db :: "env \<Rightarrow> u64 \<Rightarrow> bytes \<Rightarrow> OmniKV" where
  "fresh_db e tok mp =
     (let m = \<lparr>heap_path = mp @ str ''_heap.bin'', base_path = mp @ str ''_base.bin'', m_sstables = [],
              m_l1_sstables = [], max_seq = 0, format_version = 1\<rparr>
      in \<lparr>roots = \<lparr>base_mmap = replicate 4096 0, base_bloom = bloom_new (bloom_dims e) 100, sstables = [],
            l1_sstables = [], memtable = mem_empty, frozen_memtables = [], manifest = m\<rparr>,
          global_seq = 1, heap = [], heap_durable = 0, heap_offset = 0, wal = wal_new [],
          active_snapshots = [], replica_retention_floors = [], block_cache = Map.empty,
          compaction_policy = default_policy, group_commit = group_new,
          files = Map.empty, bloom_files = Map.empty, manifest_file = Some m, manifest_path = mp, file_seq = tok\<rparr>)"

definition zero_crc_ok :: "env \<Rightarrow> bool" where
  "zero_crc_ok e \<longleftrightarrow> crc_of e (replicate 38 0) \<noteq> 0 \<and> (\<forall>n \<ge> 100. 0 < fst (bloom_dims e n))"

lemma fresh_db_ok:
  assumes "zero_crc_ok e"
  shows "db_ok e (fresh_db e tok mp)" and "db_cells e (fresh_db e tok mp) = (\<lambda>_ _. None)"
proof -
  let ?r = "roots (fresh_db e tok mp)"
  have z: "table_records e (replicate 4096 0) = []"
    using assms by (simp add: table_records_def zero_table zero_crc_ok_def)
  have lv: "levels e ?r k = [Map.empty, Map.empty]" for k
    by (simp add: levels_def fresh_db_def base_handle_def handle_versions_def z rec_versions_def Let_def fun_eq_iff)
  have dv: "db_versions e ?r = (\<lambda>_ _. None)"
    by (simp add: db_versions_def lv fun_eq_iff)
  have "handle_ok e (base_handle ?r)"
    using assms bloom_new_wf [of "bloom_dims e" 100]
    by (simp add: fresh_db_def base_handle_def handle_ok_def table_data_def z bloom_ok_def Let_def zero_crc_ok_def)
  then have "roots_ok e ?r"
    using lv by (simp add: roots_ok_def above_def) (simp add: fresh_db_def Let_def)
  then show "db_ok e (fresh_db e tok mp)"
    by (simp add: db_ok_def dv live_def same_values_def) (simp add: fresh_db_def Let_def)
  show "db_cells e (fresh_db e tok mp) = (\<lambda>_ _. None)"
    by (simp add: db_cells_def dv fun_eq_iff)
qed

section \<open>Runs\<close>

text \<open>A sequence of engine operations with arbitrary system-call outcomes and cache evictions, and
  the batches it acknowledged with the sequences they start at.\<close>

inductive engine_run :: "env \<Rightarrow> OmniKV \<Rightarrow> (u64 \<times> WriteBatch) list \<Rightarrow> OmniKV \<Rightarrow> bool" for e db0 where
  run_start: "engine_run e db0 [] db0"
| run_commit: "engine_run e db0 H db \<Longrightarrow> tx_ok tx \<Longrightarrow> room_for e tx db \<Longrightarrow>
    commit_batch_local e io tx db = (Inr q, db') \<Longrightarrow> engine_run e db0 (H @ [(global_seq db, tx)]) db'"
| run_reject: "engine_run e db0 H db \<Longrightarrow> tx_ok tx \<Longrightarrow> room_for e tx db \<Longrightarrow>
    commit_batch_local e io tx db = (Inl err, db') \<Longrightarrow> engine_run e db0 H db'"
| run_find: "engine_run e db0 H db \<Longrightarrow> db_find e now k s db = (r, db') \<Longrightarrow> engine_run e db0 H db'"
| run_scan: "engine_run e db0 H db \<Longrightarrow> db_scan e now k k' s db = (r', db') \<Longrightarrow> engine_run e db0 H db'"
| run_snapshot: "engine_run e db0 H db \<Longrightarrow> engine_run e db0 H (snd (snapshot db))"
| run_unregister: "engine_run e db0 H db \<Longrightarrow> engine_run e db0 H (unregister_snapshot s db)"
| run_evict: "engine_run e db0 H db \<Longrightarrow> c \<subseteq>\<^sub>m block_cache db \<Longrightarrow> engine_run e db0 H (db\<lparr>block_cache := c\<rparr>)"

fun replay_history :: "(u64 \<times> WriteBatch) list \<Rightarrow> (bytes \<Rightarrow> u64 \<Rightarrow> cell option) \<Rightarrow> bytes \<Rightarrow> u64 \<Rightarrow> cell option" where
  "replay_history [] a = a"
| "replay_history ((q, tx) # H) a = replay_history H (apply_batch q tx a)"

lemma replay_history_append: "replay_history (H @ H') a = replay_history H' (replay_history H a)"
  by (induction H a rule: replay_history.induct) simp_all

lemma db_frame:
  assumes "db_ok e db" "roots db' = roots db" "heap db' = heap db" "heap_durable db' = heap_durable db"
    "heap_offset db' = heap_offset db" "block_cache db' = block_cache db" "global_seq db' = global_seq db"
  shows "db_ok e db' \<and> db_cells e db' = db_cells e db"
  by (rule extends_db_ok [OF assms(1)]) (use assms db_okD(2) [OF assms(1)] in \<open>simp add: extends_db_def\<close>)

lemma db_ok_evict:
  assumes "db_ok e db" and "c \<subseteq>\<^sub>m block_cache db"
  shows "db_ok e (db\<lparr>block_cache := c\<rparr>)"
proof -
  have c: "c off = None \<or> c off = block_cache db off" for off using assms(2) by (force simp: map_le_def)
  have "ptr_ok e (db\<lparr>block_cache := c\<rparr>) p" if "ptr_ok e db p" for p
    using that c [of "fst p"] unfolding ptr_ok_def by (auto split: if_splits)
  moreover have "off < heap_offset db" if "c off = Some v" for off v
    using db_okD(6) [OF assms(1), of off v] c [of off] that by simp
  ultimately show ?thesis using assms(1) unfolding db_ok_def by simp
qed

lemma snapshot_frame:
  "\<exists>c. snd (snapshot db) = db\<lparr>active_snapshots := c\<rparr>" "\<exists>c. unregister_snapshot s db = db\<lparr>active_snapshots := c\<rparr>"
proof -
  have "\<exists>c. db = db\<lparr>active_snapshots := c\<rparr>" by (rule exI [of _ "active_snapshots db"]) simp
  then show "\<exists>c. unregister_snapshot s db = db\<lparr>active_snapshots := c\<rparr>"
    by (auto simp: unregister_snapshot_def split: option.split)
qed (auto simp: snapshot_def Let_def)

lemma engine_run_ok:
  assumes e: "env_ok e" and db0: "db_ok e db0" "current_epoch (group_commit db0) = 0"
    and "engine_run e db0 H db"
  shows "db_ok e db \<and> current_epoch (group_commit db) = 0 \<and> db_cells e db = replay_history H (db_cells e db0)"
  using assms(4)
proof induction
  case run_start
  then show ?case using db0 by simp
next
  case (run_commit H db tx io q db')
  then show ?case
    using commit_acked [OF _ e run_commit(2,3) _ run_commit(4)] commit_lead [OF _ run_commit(4)]
    by (simp add: replay_history_append)
next
  case (run_reject H db tx io err db')
  then show ?case using commit_failed [OF _ e run_reject(2,3,4)] commit_lead [OF _ run_reject(4)] by simp
next
  case (run_find H db now k s r db')
  then obtain c where "db' = db\<lparr>block_cache := c\<rparr>" "db_ok e db'" using find_spec [of e db now k s] by auto
  then show ?case using run_find by (simp add: db_cells_def [abs_def])
next
  case (run_scan H db now k k' s r' db')
  then obtain c where "db' = db\<lparr>block_cache := c\<rparr>" "db_ok e db'" using scan_spec [of e db now k k' s] by auto
  then show ?case using run_scan by (simp add: db_cells_def [abs_def])
next
  case (run_snapshot H db)
  obtain c where "snd (snapshot db) = db\<lparr>active_snapshots := c\<rparr>" using snapshot_frame by blast
  then show ?case using run_snapshot db_frame [of e db "snd (snapshot db)"] by simp
next
  case (run_unregister H db s)
  obtain c where "unregister_snapshot s db = db\<lparr>active_snapshots := c\<rparr>" using snapshot_frame by blast
  then show ?case using run_unregister db_frame [of e db "unregister_snapshot s db"] by simp
next
  case (run_evict H db c)
  then show ?case using db_ok_evict [of e db c] by (simp add: db_cells_def [abs_def])
qed

section \<open>What a batch does to a key\<close>

text \<open>The operations of a batch in the order they are sequenced: the writes, then the deletes.\<close>

definition batch_ops :: "WriteBatch \<Rightarrow> (bytes \<times> cell) list" where
  "batch_ops tx = map (\<lambda>(k, v, ex). (k, (Some v, ex))) (buffered_writes tx) @
     map (\<lambda>k. (k, (None, 0))) (buffered_deletes tx)"

fun number_ops :: "u64 \<Rightarrow> (bytes \<times> cell) list \<Rightarrow> ((bytes \<times> u64) \<times> cell) list" where
  "number_ops q [] = []"
| "number_ops q ((k, c) # ops) = ((k, q), c) # number_ops (q + 1) ops"

lemma number_ops_append: "number_ops q (xs @ ys) = number_ops q xs @ number_ops (q + word_of_nat (length xs)) ys"
  by (induction q xs rule: number_ops.induct) (simp_all add: add.assoc)

lemma batch_cells_ops: "batch_cells q tx = number_ops q (batch_ops tx)"
proof -
  have w: "write_cells q ws = number_ops q (map (\<lambda>(k, v, ex). (k, (Some v, ex))) ws)" for q ws
    by (induction q ws rule: write_cells.induct) simp_all
  have d: "delete_cells q ks = number_ops q (map (\<lambda>k. (k, (None, 0))) ks)" for q ks
    by (induction q ks rule: delete_cells.induct) simp_all
  show ?thesis by (simp add: batch_cells_def batch_ops_def number_ops_append w d)
qed

lemma number_ops_seq: "x \<in> set (number_ops q ops) \<Longrightarrow> snd (fst x) \<in> set (seqs_from q (length ops))"
  by (induction q ops rule: number_ops.induct) auto

lemma visible_numbered:
  assumes old: "\<And>k q'. a k q' \<noteq> None \<Longrightarrow> unat q' < unat q"
  shows "unat q + length ops < 2 ^ 64 \<Longrightarrow> unat q + length ops \<le> unat s + 1 \<Longrightarrow>
    visible (\<lambda>r. case map_of (number_ops q ops) (k, r) of Some c \<Rightarrow> Some c | None \<Rightarrow> a k r) s =
      (case map_of (rev ops) k of Some c \<Rightarrow> Some c | None \<Rightarrow> visible (a k) s)"
proof (induction ops rule: rev_induct)
  case (snoc op ops)
  obtain k1 c1 where op: "op = (k1, c1)" by (cases op)
  let ?n = "length ops" let ?q = "q + word_of_nat ?n"
  let ?m = "\<lambda>r. case map_of (number_ops q (ops @ [op])) (k, r) of Some c \<Rightarrow> Some c | None \<Rightarrow> a k r"
  let ?old = "\<lambda>r. case map_of (number_ops q ops) (k, r) of Some c \<Rightarrow> Some c | None \<Rightarrow> a k r"
  have uq: "unat ?q = unat q + ?n" using snoc.prems by (simp add: unat_word_ariths unat_of_nat)
  have below: "unat r < unat q + ?n" if "map_of (number_ops q ops) (k, r) = Some c" for r c
  proof -
    have "r \<in> set (seqs_from q ?n)" using number_ops_seq [OF map_of_SomeD [OF that]] by simp
    then show ?thesis using seqs_from_bounds(2) [of q ?n] snoc.prems(1) by simp
  qed
  show ?case
  proof (cases "k = k1")
    case True
    have "map_of (number_ops q ops) (k, ?q) = None" using below [of ?q] uq by (cases "map_of (number_ops q ops) (k, ?q)") auto
    then have at: "?m ?q = Some c1" unfolding number_ops_append op True map_of_append map_add_def by simp
    have le: "r \<le> ?q" if "?m r = Some c" for r c
    proof (cases "map_of (number_ops q (ops @ [op])) (k, r)")
      case None
      then have "unat r < unat q" using that old [of k r] by simp
      then show ?thesis using uq by (simp add: word_le_nat_alt)
    next
      case (Some c')
      then have "r = ?q \<or> (\<exists>c. map_of (number_ops q ops) (k, r) = Some c)"
        by (auto simp: number_ops_append op map_add_def split: option.splits if_splits)
      then show ?thesis using below [of r] uq by (auto simp: word_le_nat_alt)
    qed
    have "?q \<le> s" using snoc.prems uq by (simp add: word_le_nat_alt)
    then have "newest ?m s = Some ?q" using at le by (auto simp: newest_Some)
    then show ?thesis using at by (simp add: visible_def op True)
  next
    case False
    then have "?m = ?old" by (auto simp: number_ops_append op map_add_def fun_eq_iff split: option.splits)
    then show ?thesis using snoc False by (simp add: op)
  qed
qed simp

lemma visible_before_batch:
  assumes "unat q + length ops < 2 ^ 64" and "s < q"
  shows "visible (\<lambda>r. case map_of (number_ops q ops) (k, r) of Some c \<Rightarrow> Some c | None \<Rightarrow> a k r) s = visible (a k) s"
proof (rule visible_cong)
  fix r assume r: "r \<le> s"
  have "map_of (number_ops q ops) (k, r) = None"
  proof (rule ccontr)
    assume "map_of (number_ops q ops) (k, r) \<noteq> None"
    then obtain c where c: "map_of (number_ops q ops) (k, r) = Some c" by blast
    have "r \<in> set (seqs_from q (length ops))" using number_ops_seq [OF map_of_SomeD [OF c]] by simp
    then have "unat q \<le> unat r" using seqs_from_bounds(2) [OF assms(1)] by simp
    then show False using r assms(2) by (simp add: word_le_nat_alt word_less_nat_alt)
  qed
  then show "(case map_of (number_ops q ops) (k, r) of Some c \<Rightarrow> Some c | None \<Rightarrow> a k r) = a k r" by simp
qed

text \<open>A batch seen from a sequence at or after it, and from one before it.\<close>

definition batch_read :: "WriteBatch \<Rightarrow> (u64 \<Rightarrow> bytes \<Rightarrow> bytes option) \<Rightarrow> u64 \<Rightarrow> bytes \<Rightarrow> bytes option" where
  "batch_read tx before now k =
     (if k \<in> set (buffered_deletes tx) then None
      else case filter (\<lambda>w. fst w = k) (rev (buffered_writes tx)) of
        [] \<Rightarrow> before now k
      | (_, v, ex) # _ \<Rightarrow> if expired now ex then None else Some v)"

lemma map_of_filter: "map_of xs k = (case filter (\<lambda>x. fst x = k) xs of [] \<Rightarrow> None | x # _ \<Rightarrow> Some (snd x))"
  by (induction xs) auto

lemma batch_ops_last:
  "map_of (rev (batch_ops tx)) k =
     (if k \<in> set (buffered_deletes tx) then Some (None, 0)
      else case filter (\<lambda>w. fst w = k) (rev (buffered_writes tx)) of
        [] \<Rightarrow> None | (_, v, ex) # _ \<Rightarrow> Some (Some v, ex))"
proof -
  have d: "map_of (rev (map (\<lambda>k. (k, (None, 0) :: cell)) ks)) k = (if k \<in> set ks then Some (None, 0) else None)"
    for ks by (induction ks) (auto simp: map_add_def split: option.split)
  have w: "map_of (rev (map (\<lambda>(k, v, ex). (k, (Some v, ex))) ws)) k =
      (case filter (\<lambda>w. fst w = k) (rev ws) of [] \<Rightarrow> None | (_, v, ex) # _ \<Rightarrow> Some (Some v, ex))"
    for ws :: "(bytes \<times> bytes \<times> u64) list"
    by (induction ws rule: rev_induct) (auto split: list.split)
  show ?thesis unfolding batch_ops_def using d w by (simp add: map_add_def split: option.split)
qed

lemma spec_read_batch:
  assumes old: "\<And>k q'. a k q' \<noteq> None \<Longrightarrow> q' < q" and room: "unat q + op_count tx < 2 ^ 64"
  shows "unat q + op_count tx \<le> unat s + 1 \<Longrightarrow>
      spec_read (apply_batch q tx a) now k s = batch_read tx (\<lambda>now k. spec_read a now k s) now k"
    and "s < q \<Longrightarrow> spec_read (apply_batch q tx a) now k s = spec_read a now k s"
proof -
  have n: "length (batch_ops tx) = op_count tx" by (simp add: batch_ops_def op_count_def)
  have f: "apply_batch q tx a k = (\<lambda>r. case map_of (number_ops q (batch_ops tx)) (k, r) of Some c \<Rightarrow> Some c | None \<Rightarrow> a k r)"
    by (simp add: apply_batch_def fun_eq_iff batch_cells_ops)
  show "spec_read (apply_batch q tx a) now k s = spec_read a now k s" if "s < q"
    unfolding spec_read_def f using visible_before_batch [where q = q and ops = "batch_ops tx" and s = s and k = k and a = a] that room n by simp
  have o: "unat q' < unat q" if "a k q' \<noteq> None" for k q' using old [OF that] by (simp add: word_less_nat_alt)
  show "spec_read (apply_batch q tx a) now k s = batch_read tx (\<lambda>now k. spec_read a now k s) now k"
    if "unat q + op_count tx \<le> unat s + 1"
    using visible_numbered [where a = a and q = q and ops = "batch_ops tx" and s = s and k = k, OF o] that room n unfolding spec_read_def f batch_read_def
    by (auto simp: batch_ops_last expired_def split: list.split)
qed

section \<open>A snapshot is stable\<close>

lemma engine_run_seqs:
  assumes e: "env_ok e" and db0: "db_ok e db0" "current_epoch (group_commit db0) = 0"
    and "engine_run e db0 H db"
  shows "global_seq db0 \<le> global_seq db \<and>
    (\<forall>(q, tx) \<in> set H. global_seq db0 \<le> q \<and> unat q + op_count tx < 2 ^ 64)"
  using assms(4)
proof induction
  case (run_commit H db tx io q db')
  note inv = engine_run_ok [OF e db0 run_commit.hyps(1)]
  have "unat (global_seq db) \<le> unat (global_seq db')"
    using commit_acked [OF _ e run_commit.hyps(2,3) _ run_commit.hyps(4)] inv by simp
  moreover have "unat (global_seq db) + op_count tx < 2 ^ 64" using run_commit.hyps(3) by (simp add: room_for_def)
  ultimately show ?case using run_commit.IH by (auto simp: word_le_nat_alt)
next
  case (run_reject H db tx io err db')
  then show ?case
    using commit_failed [OF _ e run_reject.hyps(2,3,4)] engine_run_ok [OF e db0 run_reject.hyps(1)] order_trans
    by blast
next
  case (run_find H db now k s r db')
  then show ?case
    using find_spec [of e db now k s] engine_run_ok [OF e db0 run_find.hyps(1)] by auto
next
  case (run_scan H db now k k' s r' db')
  then show ?case
    using scan_spec [of e db now k k' s] engine_run_ok [OF e db0 run_scan.hyps(1)] by auto
next
  case (run_snapshot H db)
  obtain c where "snd (snapshot db) = db\<lparr>active_snapshots := c\<rparr>" using snapshot_frame by blast
  then show ?case using run_snapshot by simp
next
  case (run_unregister H db s)
  obtain c where "unregister_snapshot s db = db\<lparr>active_snapshots := c\<rparr>" using snapshot_frame by blast
  then show ?case using run_unregister by simp
qed auto

lemma replay_history_below:
  assumes "\<forall>(q, tx) \<in> set H. s < q \<and> unat q + op_count tx < 2 ^ 64"
  shows "spec_read (replay_history H a) now k s = spec_read a now k s"
  using assms
proof (induction H a rule: replay_history.induct)
  case (2 q tx H a)
  have "visible (apply_batch q tx a k) s = visible (a k) s"
    using visible_before_batch [where q = q and ops = "batch_ops tx" and s = s and k = k and a = a] 2(2)
    by (simp add: apply_batch_def [abs_def] batch_cells_ops batch_ops_def op_count_def)
  then show ?case using 2 by (simp add: spec_read_def)
qed simp

section \<open>The snapshot registry and the retention floor\<close>

text \<open>The registry counts the holders of each sequence: it is a multiset of sequences.\<close>

definition held :: "OmniKV \<Rightarrow> u64 multiset" where
  "held db = sum_list (map (\<lambda>(s, c). replicate_mset c s) (active_snapshots db))"

definition registry_ok :: "OmniKV \<Rightarrow> bool" where
  "registry_ok db \<longleftrightarrow> om_wf (active_snapshots db) \<and> (\<forall>(s, c) \<in> set (active_snapshots db). 0 < c)"

lemma count_registry:
  assumes "distinct (map fst m)"
  shows "count (sum_list (map (\<lambda>(s, c). replicate_mset c s) m)) s = (case om_lookup m s of None \<Rightarrow> 0 | Some c \<Rightarrow> c)"
  using assms
proof (induction m)
  case (Cons x m)
  obtain s' c where x: "x = (s', c)" by (cases x)
  have "om_lookup m s' = None" using Cons.prems by (auto simp: x om_lookup_def map_of_eq_None_iff)
  then show ?case using Cons by (auto simp: x om_lookup_def)
qed (simp add: om_lookup_def)

lemma count_held: "registry_ok db \<Longrightarrow> count (held db) s = (case om_lookup (active_snapshots db) s of None \<Rightarrow> 0 | Some c \<Rightarrow> c)"
  by (simp add: registry_ok_def held_def count_registry om_wf_distinct)

lemma set_held: "registry_ok db \<Longrightarrow> set_mset (held db) = fst ` set (active_snapshots db)"
proof -
  assume ok: "registry_ok db"
  have "s \<in># held db \<longleftrightarrow> s \<in> fst ` set (active_snapshots db)" for s
  proof (cases "om_lookup (active_snapshots db) s")
    case None
    then have "s \<notin> fst ` set (active_snapshots db)" using dom_om_lookup [of "active_snapshots db"] by blast
    then show ?thesis using None count_held [OF ok, of s] by (simp add: not_in_iff)
  next
    case (Some c)
    then have "(s, c) \<in> set (active_snapshots db)" using ok by (simp add: registry_ok_def om_lookup_Some)
    then have "0 < c" "s \<in> fst ` set (active_snapshots db)" using ok by (force simp: registry_ok_def)+
    then show ?thesis using Some count_held [OF ok, of s] by (simp add: count_greater_zero_iff [symmetric])
  qed
  then show ?thesis by blast
qed

lemma registry_insert:
  assumes "registry_ok db" and "0 < c"
  shows "registry_ok (db\<lparr>active_snapshots := om_insert s c (active_snapshots db)\<rparr>)"
    and "count (held (db\<lparr>active_snapshots := om_insert s c (active_snapshots db)\<rparr>)) s' =
      (if s' = s then c else count (held db) s')"
proof -
  show ok: "registry_ok (db\<lparr>active_snapshots := om_insert s c (active_snapshots db)\<rparr>)"
    using assms by (auto simp: registry_ok_def om_wf_insert set_om_insert)
  show "count (held (db\<lparr>active_snapshots := om_insert s c (active_snapshots db)\<rparr>)) s' =
      (if s' = s then c else count (held db) s')"
    using assms(1) by (simp add: count_held [OF ok] count_held [OF assms(1)] om_lookup_insert registry_ok_def)
qed

lemma registry_remove:
  assumes "registry_ok db"
  shows "registry_ok (db\<lparr>active_snapshots := om_remove s (active_snapshots db)\<rparr>)"
    and "count (held (db\<lparr>active_snapshots := om_remove s (active_snapshots db)\<rparr>)) s' =
      (if s' = s then 0 else count (held db) s')"
proof -
  show ok: "registry_ok (db\<lparr>active_snapshots := om_remove s (active_snapshots db)\<rparr>)"
    using assms by (auto simp: registry_ok_def om_wf_remove om_remove_def om_wf_filter)
  show "count (held (db\<lparr>active_snapshots := om_remove s (active_snapshots db)\<rparr>)) s' =
      (if s' = s then 0 else count (held db) s')"
    by (simp add: count_held [OF ok] count_held [OF assms] om_lookup_remove)
qed

lemma registry_ops:
  assumes "registry_ok db"
  shows "registry_ok (snd (snapshot db)) \<and> held (snd (snapshot db)) = add_mset (fst (snapshot db)) (held db) \<and>
    registry_ok (unregister_snapshot s db) \<and> held (unregister_snapshot s db) = held db - {#s#}"
proof (intro conjI)
  let ?s = "fst (snapshot db)" let ?c = "case om_lookup (active_snapshots db) ?s of None \<Rightarrow> 0 | Some c \<Rightarrow> c"
  have n: "snd (snapshot db) = db\<lparr>active_snapshots := om_insert ?s (?c + 1) (active_snapshots db)\<rparr>"
    by (simp add: snapshot_def Let_def)
  note ins = registry_insert [OF assms, of "?c + 1" ?s]
  show "registry_ok (snd (snapshot db))" unfolding n by (rule ins(1)) simp
  show "held (snd (snapshot db)) = add_mset ?s (held db)"
    unfolding n by (rule multiset_eqI) (simp add: ins(2) count_held [OF assms] del: One_nat_def add_Suc_right)
  have u: "unregister_snapshot s db = db \<and> count (held db) s = 0 \<or>
    count (held db) s = 1 \<and> unregister_snapshot s db = db\<lparr>active_snapshots := om_remove s (active_snapshots db)\<rparr> \<or>
    1 < count (held db) s \<and> unregister_snapshot s db =
      db\<lparr>active_snapshots := om_insert s (count (held db) s - 1) (active_snapshots db)\<rparr>"
  proof (cases "om_lookup (active_snapshots db) s")
    case (Some c)
    then have "0 < c" using assms by (auto simp: registry_ok_def om_lookup_Some)
    then show ?thesis using Some by (auto simp: unregister_snapshot_def count_held [OF assms])
  qed (simp add: unregister_snapshot_def count_held [OF assms])
  show "registry_ok (unregister_snapshot s db)"
    using u assms registry_remove(1) [OF assms] registry_insert(1) [OF assms] by auto
  show "held (unregister_snapshot s db) = held db - {#s#}"
    using u by (intro multiset_eqI)
      (elim disjE conjE; auto simp: registry_remove(2) [OF assms] registry_insert(2) [OF assms])
qed

lemma retention_floor_min:
  assumes "registry_ok db"
  defines "H \<equiv> set_mset (held db) \<union> snd ` set (replica_retention_floors db)"
  shows "compaction_retention_floor db = (if H = {} then None else Some (Min H))"
proof -
  have s: "oldest_active_snapshot db = (if held db = {#} then None else Some (Min (set_mset (held db))))"
  proof (cases "active_snapshots db")
    case (Cons x xs)
    have "\<forall>y \<in> set xs. fst x < fst y" using assms(1) by (auto simp: registry_ok_def Cons om_wf_def)
    then have "Min (set_mset (held db)) = fst x" by (intro Min_eqI) (auto simp: set_held [OF assms(1)] Cons)
    moreover have "held db \<noteq> {#}" using set_held [OF assms(1)] Cons by (metis empty_iff image_iff list.set_intros(1) set_mset_empty)
    ultimately show ?thesis by (cases x) (simp add: oldest_active_snapshot_def Cons)
  qed (simp add: oldest_active_snapshot_def held_def)
  have r: "min_replica_retention db = (let R = snd ` set (replica_retention_floors db) in if R = {} then None else Some (Min R))"
  proof (cases "replica_retention_floors db")
    case (Cons x xs)
    then show ?thesis using Min.set_eq_fold [of "snd x" "map snd xs"] by (simp add: min_replica_retention_def Let_def)
  qed (simp add: min_replica_retention_def)
  show ?thesis
    unfolding compaction_retention_floor_def s r H_def Let_def by (auto simp: Min_Un)
qed

section \<open>An example\<close>

definition demo_env :: env where
  "demo_env = \<lparr>crc_of = (\<lambda>_. 1), lz4_compress = (\<lambda>v. 0 # v),
     lz4_decompress = (\<lambda>d. case d of [] \<Rightarrow> None | _ # v \<Rightarrow> Some v), bloom_dims = (\<lambda>_. (959, 7))\<rparr>"

definition demo_io :: commit_io where
  "demo_io = \<lparr>stall_samples = [], heap_write = None, wal_flush = Flushed, heap_sync = True, wal_fsync = True,
     discard_flush = Flushed, discard_trunc = Truncated, group_outcome = None\<rparr>"

definition demo_tx :: WriteBatch where
  "demo_tx = \<lparr>buffered_writes = [([97], [49], 0)], buffered_deletes = [[98]]\<rparr>"

definition demo_db :: OmniKV where
  "demo_db = fresh_db demo_env 7 [109]"

lemma demo_ok [simp]:
  "env_ok demo_env" "zero_crc_ok demo_env" "io_ok demo_io" "tx_ok demo_tx" "room_for demo_env demo_tx demo_db"
  "\<not> write_stalled demo_io demo_db" "group_idle (group_commit demo_db)" "db_ok demo_env demo_db"
  "current_epoch (group_commit demo_db) = 0" "global_seq demo_db = 1" "op_count demo_tx = 2"
  "db_cells demo_env demo_db = (\<lambda>_ _. None)"
proof -
  show z: "zero_crc_ok demo_env" by (simp add: zero_crc_ok_def demo_env_def)
  show "db_ok demo_env demo_db" "db_cells demo_env demo_db = (\<lambda>_ _. None)"
    using fresh_db_ok [OF z] by (simp_all add: demo_db_def)
  have p: "length (payload (prep_writes demo_env (buffered_writes demo_tx))) \<le> 10"
    by (simp add: payload_def prep_writes_def prep_value_def demo_tx_def demo_env_def Let_def)
  show "room_for demo_env demo_tx demo_db"
    using p by (simp add: room_for_def demo_db_def fresh_db_def Let_def demo_tx_def op_count_def)
qed (simp_all add: env_ok_def demo_env_def io_ok_def demo_io_def tx_ok_def demo_tx_def batch_ok_def op_count_def
    MAX_BATCH_SIZE_def MAX_VALUE_SIZE_def key_ok_def value_ok_def ascii_utf8_valid ascii_def COMMIT_MARKER_def
    write_stalled_def demo_db_def fresh_db_def default_policy_def group_idle_def group_new_def Let_def)

lemma demo_commit:
  obtains db' where "commit_batch_local demo_env demo_io demo_tx demo_db = (Inr 3, db')"
    and "db_ok demo_env db'" and "db_cells demo_env db' = apply_batch 1 demo_tx (\<lambda>_ _. None)"
    and "engine_run demo_env demo_db [(1, demo_tx)] db'" and "current_epoch (group_commit db') = 0"
proof -
  obtain q db' where c: "commit_batch_local demo_env demo_io demo_tx demo_db = (Inr q, db')"
    using commit_returns [of demo_io demo_db demo_env demo_tx] by auto
  have a: "q = 3 \<and> db_ok demo_env db' \<and> db_cells demo_env db' = apply_batch 1 demo_tx (\<lambda>_ _. None)"
    using commit_acked [OF _ _ _ _ _ c] by simp
  have "engine_run demo_env demo_db ([] @ [(global_seq demo_db, demo_tx)]) db'"
    by (rule run_commit [OF run_start _ _ c]) simp_all
  then show ?thesis using that c a commit_lead [OF _ c] by simp
qed

definition set_tx :: "bytes \<Rightarrow> bytes \<Rightarrow> WriteBatch" where
  "set_tx k v = \<lparr>buffered_writes = [(k, v, 0)], buffered_deletes = []\<rparr>"

lemma group_sync_idle:
  assumes "group_sync io db = (None, db')" and "group_idle (group_commit db)"
  shows "group_idle (group_commit db') \<and> active_snapshots db' = active_snapshots db \<and>
    replica_retention_floors db' = replica_retention_floors db \<and> files db' = files db \<and>
    compaction_policy db' = compaction_policy db"
  using assms
  by (auto simp: group_sync_def join_enter_def begin_next_sync_def sync_group_commit_files_def complete_sync_def
      group_idle_def Let_def split: option.splits if_splits sum.splits)

text \<open>Committing one short value without faults.\<close>

lemma commit_set:
  assumes v: "v \<noteq> []" "length v < 64" and k: "k \<noteq> COMMIT_MARKER"
    and db: "\<not> write_stalled demo_io db" "group_idle (group_commit db)"
  obtains q db' where "commit_batch_local demo_env demo_io (set_tx k v) db = (Inr q, db')"
    and "roots db' = (roots db)\<lparr>memtable := mem_insert k (global_seq db)
      (heap_offset db, word_of_nat (length v) OR UNCOMPRESSED_FLAG, 1, 0) (memtable (roots db))\<rparr>"
    and "heap db' = write_at (unat (heap_offset db)) v (heap db)"
    and "heap_offset db' = heap_offset db + word_of_nat (length v)"
    and "global_seq db' = global_seq db + 2" and "block_cache db' = block_cache db"
    and "active_snapshots db' = active_snapshots db" and "replica_retention_floors db' = replica_retention_floors db"
    and "files db' = files db" and "compaction_policy db' = compaction_policy db" and "group_idle (group_commit db')"
    and "heap_durable db' = length (heap db')"
proof -
  have pv: "prep_value demo_env v = (v, word_of_nat (length v) OR UNCOMPRESSED_FLAG)" using v(2) by (simp add: prep_value_def)
  have ps: "prep_writes demo_env (buffered_writes (set_tx k v)) = [(k, v, word_of_nat (length v) OR UNCOMPRESSED_FLAG, 1, 0)]"
    by (simp add: prep_writes_def set_tx_def pv) (simp add: demo_env_def)
  have tb: "(word_of_nat (length v) OR UNCOMPRESSED_FLAG) AND NOT UNCOMPRESSED_FLAG = (word_of_nat (length v) :: u64)"
    using v(2) by (intro flag_bits) simp
  let ?db2 = "heap_put (unat (heap_offset db)) v (reserve 1 (word_of_nat (length v)) db)"
  obtain q db' where c: "commit_batch_local demo_env demo_io (set_tx k v) db = (Inr q, db')"
    using commit_returns [OF demo_ok(3) db] by blast
  then obtain w db3 where g: "group_sync demo_io (?db2\<lparr>wal := w\<rparr>) = (None, db3)"
    and d: "db' = publish (batch_records demo_env (global_seq db) (heap_offset db)
        [(k, v, word_of_nat (length v) OR UNCOMPRESSED_FLAG, 1, 0)] []) db3"
    unfolding commit_batch_local_def ps total_heap_bytes_def payload_def Let_def
    by (auto simp: tb set_tx_def split: if_splits option.splits prod.splits sum.splits)
  have pub: "publish (batch_records demo_env (global_seq db) (heap_offset db)
        [(k, v, word_of_nat (length v) OR UNCOMPRESSED_FLAG, 1, 0)] []) db3 =
      db3\<lparr>roots := (roots db3)\<lparr>memtable := mem_insert k (global_seq db)
      (heap_offset db, word_of_nat (length v) OR UNCOMPRESSED_FLAG, 1, 0) (memtable (roots db3))\<rparr>\<rparr>"
    using k by (simp add: publish_def batch_records_def is_marker_iff mem_insert_record_def ptr_of_def Let_def)
  have idle: "current_epoch (group_commit (?db2\<lparr>wal := w\<rparr>)) = 0" "group_idle (group_commit (?db2\<lparr>wal := w\<rparr>))"
    using db(2) by (simp_all add: group_idle_def)
  note F = group_sync_frame [OF g] group_sync_idle [OF g idle(2)] group_sync_lead [OF idle(1) g]
  show thesis
    by (rule that [OF c]) (use F v(1) in \<open>simp_all add: d pub heap_put_def reserve_def\<close>)
qed

lemma set_tx_ok: "key_ok k \<Longrightarrow> value_ok v \<Longrightarrow> tx_ok (set_tx k v)"
  by (simp add: tx_ok_def set_tx_def batch_ok_def op_count_def MAX_BATCH_SIZE_def value_ok_def)

section \<open>Properties\<close>







text \<open>C3. A commit that returns an error, at whatever step it failed and however much of the
  payload or of the log reached the disk, changes no read: every lookup at every sequence returns
  what it returned before.\<close>

theorem commit_error_invisible:
  assumes "db_ok e db" and "env_ok e" and "tx_ok tx" and "room_for e tx db"
    and "commit_batch_local e io tx db = (Inl err, db')"
  shows "db_ok e db' \<and> fst (db_find e now k s db') = fst (db_find e now k s db)"
  using commit_failed [OF assms] find_spec [OF assms(1), of now k s] find_spec [of e db' now k s] by auto

theorem commit_error_invisible_witness:
  "\<exists>err db'. commit_batch_local demo_env (demo_io\<lparr>heap_sync := False\<rparr>) demo_tx demo_db = (Inl err, db') \<and>
     fst (db_find demo_env 0 [97] 3 db') = fst (db_find demo_env 0 [97] 3 demo_db)"
proof -
  have "\<exists>err db'. commit_batch_local demo_env (demo_io\<lparr>heap_sync := False\<rparr>) demo_tx demo_db = (Inl err, db')"
    using demo_ok(6,7)
    by (auto simp: commit_batch_local_def demo_io_def group_idle_def is_poisoned_def append_batch_nosync_def
        wal_write_def group_sync_def join_enter_def begin_next_sync_def sync_group_commit_files_def Let_def
        write_stalled_def)
  then show ?thesis using commit_error_invisible [of demo_env demo_db demo_tx] by simp blast
qed





text \<open>C17. The snapshot registry is a multiset of held sequences: taking a snapshot adds the last
  committed sequence once, releasing one removes one occurrence, and a release of a sequence
  nobody holds changes nothing.\<close>

theorem snapshot_registry:
  assumes "registry_ok db"
  shows "registry_ok (snd (snapshot db)) \<and> held (snd (snapshot db)) = add_mset (fst (snapshot db)) (held db) \<and>
    registry_ok (unregister_snapshot s db) \<and> held (unregister_snapshot s db) = held db - {#s#}"
  by (rule registry_ops [OF assms])

theorem snapshot_registry_witness:
  "held (snd (snapshot demo_db)) = {#0#}"
  using snapshot_registry [of demo_db]
  by (simp add: registry_ok_def demo_db_def fresh_db_def held_def snapshot_def Let_def)

text \<open>C18. The retention floor of compaction is the least sequence anybody needs: the minimum over
  the held snapshots and the replica pins, and none if there are neither.\<close>

theorem retention_floor_exact:
  assumes "registry_ok db"
  shows "compaction_retention_floor db =
    (if held db = {#} \<and> replica_retention_floors db = [] then None
     else Some (Min (set_mset (held db) \<union> snd ` set (replica_retention_floors db))))"
  using retention_floor_min [OF assms] by simp

theorem retention_floor_exact_witness:
  "compaction_retention_floor (snd (pin_replica_retention [114] 7 (snd (snapshot demo_db)))) = Some 0"
proof -
  let ?db = "snd (pin_replica_retention [114] 7 (snd (snapshot demo_db)))"
  have "registry_ok ?db \<and> held ?db = {#0#} \<and> replica_retention_floors ?db = [([114], 7)]"
    by (simp add: pin_replica_retention_def registry_ok_def demo_db_def fresh_db_def held_def snapshot_def Let_def
        om_lookup_def om_wf_def trim_def strip_one_def white_space_def)
  then show ?thesis using retention_floor_exact [of ?db] by simp
qed

end
