(* ===== verification/Compaction.thy ===== *)
theory Compaction
  imports Engine
begin

text \<open>
  Compaction and garbage collection of \<^verbatim>\<open>storage/core.rs\<close>: the memtable flush
  (\<^verbatim>\<open>compact_sstables_locked\<close>), the merges \<^verbatim>\<open>compact_l0_to_l1\<close> and
  \<^verbatim>\<open>compact_l1_to_l2\<close>, the heap rewrite \<^verbatim>\<open>run_garbage_collection\<close>, and one iteration of
  the background thread. The outcomes of the system calls are a record \<open>compact_io\<close>; the guard
  that removes the outputs of a failed compaction is part of the model.

  The lemmas show that each of them keeps the database well formed and changes no read that the
  retention floor protects, whatever step fails, under the conditions the code needs: no other
  memtable is waiting to be flushed, no table splits the versions of a key over two blocks, and
  for garbage collection that the memtables are empty. Two theorems show what happens without
  the first and the last.
\<close>

section \<open>Output files\<close>

datatype manifest_io = Saved | NotSaved | SavedUnsynced

record compact_io =
  rotate_ok :: bool
  clock_ms :: "u64 \<Rightarrow> nat"
  create_ok :: bool
  table_io :: bool
  bloom_io :: bool
  mmap_io :: bool
  save_io :: manifest_io
  now_secs :: u64

definition output_path :: "OmniKV \<Rightarrow> string \<Rightarrow> string \<Rightarrow> compact_io \<Rightarrow> u64 \<Rightarrow> bytes" where
  "output_path db tag ext io tok =
     manifest_path db @ str tag @ dec (clock_ms io tok) @ str ''_'' @ dec (unat tok) @ str ext"

text \<open>\<^verbatim>\<open>create_unique_output\<close>: up to 32 tokens, skipping names that exist.\<close>

fun create_attempts :: "nat \<Rightarrow> (u64 \<Rightarrow> bytes) \<Rightarrow> (bytes \<Rightarrow> bool) \<Rightarrow> bool \<Rightarrow> u64 \<Rightarrow> bytes result \<times> u64" where
  "create_attempts 0 path exists ok tok =
     (Inl (Err (IoError ''unable to allocate a unique compaction output path after 32 attempts'')), tok)"
| "create_attempts (Suc n) path exists ok tok =
     (if exists (path tok) then create_attempts n path exists ok (tok + 1)
      else if ok then (Inr (path tok), tok + 1) else (Inl (Err (IoError ''create output'')), tok + 1))"

definition create_unique_output ::
  "string \<Rightarrow> string \<Rightarrow> compact_io \<Rightarrow> OmniKV \<Rightarrow> bytes result \<times> OmniKV" where
  "create_unique_output tag ext io db =
     (let (r, tok) = create_attempts 32 (output_path db tag ext io) (\<lambda>p. files db p \<noteq> None) (create_ok io) (file_seq db)
      in (r, db\<lparr>file_seq := tok\<rparr>))"

definition build_bloom :: "env \<Rightarrow> nat \<Rightarrow> OmniRecord list \<Rightarrow> BloomFilter result" where
  "build_bloom e n rs = bloom_add_keys (map key rs) (bloom_new (bloom_dims e) (max n 100))"

text \<open>The part every table compaction shares: filter, output file, table, fsync, filter file,
  mapping. On an error the guard removes what was created.\<close>

definition write_output ::
  "env \<Rightarrow> compact_io \<Rightarrow> string \<Rightarrow> OmniRecord list \<Rightarrow> OmniKV \<Rightarrow> handle result \<times> OmniKV" where
  "write_output e io tag rs db =
     (case build_bloom e (length rs) rs of
        Inl err \<Rightarrow> (Inl err, db)
      | Inr bloom \<Rightarrow>
          (case create_unique_output tag ''.sst'' io db of
             (Inl err, db1) \<Rightarrow> (Inl err, db1)
           | (Inr path, db1) \<Rightarrow>
               if \<not> table_io io then (Inl (Err (IoError ''write table'')), db1)
               else if \<not> bloom_io io then (Inl (Err (IoError ''save filter'')), db1)
               else if \<not> mmap_io io then (Inl (Err (IoError ''map table'')), db1)
               else (Inr (sst_bytes rs, bloom, path),
                     db1\<lparr>files := (files db1)(path \<mapsto> sst_bytes rs),
                         bloom_files := (bloom_files db1)(path \<mapsto> bloom)\<rparr>)))"

definition discard_output :: "bytes \<Rightarrow> OmniKV \<Rightarrow> OmniKV" where
  "discard_output path db =
     db\<lparr>files := (files db)(path := None), bloom_files := (bloom_files db)(path := None)\<rparr>"

text \<open>\<^verbatim>\<open>Manifest::save\<close> through \<^verbatim>\<open>atomic_replace\<close>: the rename may succeed and the fsync of the
  directory after it fail, which is reported as an error too.\<close>

definition save_manifest :: "manifest_io \<Rightarrow> Manifest \<Rightarrow> OmniKV \<Rightarrow> unit result \<times> OmniKV" where
  "save_manifest io m db =
     (let m' = m\<lparr>format_version := 1\<rparr> in case io of
        Saved \<Rightarrow> (Inr (), db\<lparr>manifest_file := Some m'\<rparr>)
      | NotSaved \<Rightarrow> (Inl (Err (IoError ''save manifest'')), db)
      | SavedUnsynced \<Rightarrow> (Inl (Err (IoError ''sync directory'')), db\<lparr>manifest_file := Some m'\<rparr>))"

text \<open>Write a table, save the manifest that lists it, and only then publish it.\<close>

definition install_table ::
  "env \<Rightarrow> compact_io \<Rightarrow> string \<Rightarrow> OmniRecord list \<Rightarrow> (bytes \<Rightarrow> OmniKV \<Rightarrow> Manifest) \<Rightarrow>
   (handle \<Rightarrow> Manifest \<Rightarrow> StorageRoots \<Rightarrow> StorageRoots) \<Rightarrow> OmniKV \<Rightarrow> unit result \<times> OmniKV" where
  "install_table e io tag rs listing update db =
     (case write_output e io tag rs db of
        (Inl err, db1) \<Rightarrow> (Inl err, db1)
      | (Inr h, db1) \<Rightarrow>
          let m = listing (snd (snd h)) db1 in
          case save_manifest (save_io io) m db1 of
            (Inl err, db2) \<Rightarrow> (Inl err, discard_output (snd (snd h)) db2)
          | (Inr _, db2) \<Rightarrow> (Inr (), db2\<lparr>roots := update h m (roots db2)\<rparr>))"

text \<open>The manifests and roots the three table compactions publish.\<close>

abbreviation l0_listing :: "bytes \<Rightarrow> OmniKV \<Rightarrow> Manifest" where
  "l0_listing \<equiv> (\<lambda>path db. (manifest (roots db))\<lparr>m_sstables := m_sstables (manifest (roots db)) @ [path], max_seq := max (max_seq (manifest (roots db))) (global_seq db)\<rparr>)"

abbreviation l0_update :: "handle \<Rightarrow> Manifest \<Rightarrow> StorageRoots \<Rightarrow> StorageRoots" where
  "l0_update \<equiv> (\<lambda>h m r. r\<lparr>manifest := m, sstables := sstables r @ [h]\<rparr>)"

abbreviation l1_listing :: "bytes \<Rightarrow> OmniKV \<Rightarrow> Manifest" where
  "l1_listing \<equiv> (\<lambda>path db. (manifest (roots db))\<lparr>m_sstables := [], m_l1_sstables := m_l1_sstables (manifest (roots db)) @ [path], max_seq := max (max_seq (manifest (roots db))) (global_seq db)\<rparr>)"

abbreviation l1_update :: "handle \<Rightarrow> Manifest \<Rightarrow> StorageRoots \<Rightarrow> StorageRoots" where
  "l1_update \<equiv> (\<lambda>h m r. r\<lparr>manifest := m, l1_sstables := l1_sstables r @ [h], sstables := []\<rparr>)"

abbreviation base_listing :: "bytes \<Rightarrow> OmniKV \<Rightarrow> Manifest" where
  "base_listing \<equiv> (\<lambda>path db. (manifest (roots db))\<lparr>base_path := path, m_l1_sstables := []\<rparr>)"

abbreviation base_update :: "handle \<Rightarrow> Manifest \<Rightarrow> StorageRoots \<Rightarrow> StorageRoots" where
  "base_update \<equiv> (\<lambda>h m r. r\<lparr>base_mmap := fst h, base_bloom := fst (snd h), l1_sstables := [], manifest := m\<rparr>)"

definition cleanup_obsolete :: "bytes list \<Rightarrow> OmniKV \<Rightarrow> OmniKV" where
  "cleanup_obsolete paths db = fold discard_output paths db"

section \<open>Memtable flush\<close>

definition remove_frozen_memtable :: "nat \<Rightarrow> OmniKV \<Rightarrow> OmniKV" where
  "remove_frozen_memtable i db =
     (let fs = frozen_memtables (roots db) in
      if i < length fs then db\<lparr>roots := (roots db)\<lparr>frozen_memtables := take i fs @ drop (i + 1) fs\<rparr>\<rparr> else db)"

definition make_record :: "env \<Rightarrow> bytes \<Rightarrow> u64 \<Rightarrow> ptr \<Rightarrow> OmniRecord" where
  "make_record e k q = (\<lambda>(off, len, pcrc, ex). record_new (crc_of e) q k off len pcrc ex)"

definition flush_records :: "env \<Rightarrow> OmniKV \<Rightarrow> OmniRecord list" where
  "flush_records e db = sort_key key (map (\<lambda>(k, q, p). make_record e k q p) (mem_entries (memtable (roots db))))"

definition freeze :: "compact_io \<Rightarrow> OmniKV \<Rightarrow> OmniKV" where
  "freeze io db = db\<lparr>roots := (roots db)\<lparr>memtable := mem_empty,
       frozen_memtables := frozen_memtables (roots db) @ [memtable (roots db)]\<rparr>,
     wal := snd (rotate_segment (rotate_ok io) (wal db))\<rparr>"

definition compact_sstables :: "env \<Rightarrow> compact_io \<Rightarrow> OmniKV \<Rightarrow> unit result \<times> OmniKV" where
  "compact_sstables e io db =
     (let idx = length (frozen_memtables (roots db)); rs = flush_records e db; db1 = freeze io db in
      if rs = [] then (Inr (), remove_frozen_memtable idx db1)
      else case install_table e io ''_l0_0_'' rs l0_listing l0_update db1 of
        (Inl err, db2) \<Rightarrow> (Inl err, db2)
      | (Inr _, db2) \<Rightarrow> (Inr (), remove_frozen_memtable idx db2))"

section \<open>Merging tables\<close>

type_synonym merged = "(bytes, (u64, ptr) omap) omap"

definition merge_records :: "OmniRecord list \<Rightarrow> merged \<Rightarrow> merged" where
  "merge_records rs M = fold (\<lambda>r M. insert_record_version M r) rs M"

fun merge_tables :: "env \<Rightarrow> bytes list \<Rightarrow> merged \<Rightarrow> merged result" where
  "merge_tables e [] M = Inr M"
| "merge_tables e (d # ds) M =
     bind_res (iter_from (crc_of e) d []) (\<lambda>rs.
       merge_tables e ds (merge_records (filter (is_valid (crc_of e)) rs) M))"

definition retained :: "u64 option \<Rightarrow> merged \<Rightarrow> (bytes \<times> u64 \<times> ptr) list" where
  "retained floor M = concat (map (\<lambda>(k, vs).
     map (\<lambda>(q, p). (k, q, p)) (retain_versions_needed_by_floor vs floor)) M)"

definition merged_records :: "env \<Rightarrow> (bytes \<times> u64 \<times> ptr) list \<Rightarrow> OmniRecord list" where
  "merged_records e es = sort_key key (map (\<lambda>(k, q, p). make_record e k q p) es)"

definition compact_l0_to_l1 :: "env \<Rightarrow> compact_io \<Rightarrow> OmniKV \<Rightarrow> unit result \<times> OmniKV" where
  "compact_l0_to_l1 e io db =
     (if sstables (roots db) = [] then (Inr (), db)
      else case merge_tables e (map fst (sstables (roots db))) [] of
        Inl err \<Rightarrow> (Inl err, db)
      | Inr M \<Rightarrow>
          let rs = merged_records e (retained (compaction_retention_floor db) M) in
          if rs = [] then
            let m = (manifest (roots db))\<lparr>m_sstables := []\<rparr> in
            case save_manifest (save_io io) m db of
              (Inl err, db1) \<Rightarrow> (Inl err, db1)
            | (Inr _, db1) \<Rightarrow> (Inr (), db1\<lparr>roots := (roots db1)\<lparr>manifest := m, sstables := []\<rparr>\<rparr>)
          else install_table e io ''_l1_'' rs l1_listing l1_update db)"

text \<open>Into the base level: without a retention floor, deletions and expired values are dropped.\<close>

definition base_keeps :: "u64 option \<Rightarrow> u64 \<Rightarrow> ptr \<Rightarrow> bool" where
  "base_keeps floor now p \<longleftrightarrow> floor \<noteq> None \<or> fst (snd p) \<noteq> 0 \<and> \<not> expired now (snd (snd (snd p)))"

definition compact_l1_to_l2 :: "env \<Rightarrow> compact_io \<Rightarrow> OmniKV \<Rightarrow> unit result \<times> OmniKV" where
  "compact_l1_to_l2 e io db =
     (case merge_tables e [base_mmap (roots db)] [] of
        Inl err \<Rightarrow> (Inl err, db)
      | Inr B \<Rightarrow>
          if l1_sstables (roots db) = [] then (Inr (), db)
          else case merge_tables e (map fst (l1_sstables (roots db))) B of
            Inl err \<Rightarrow> (Inl err, db)
          | Inr M \<Rightarrow>
              let floor = compaction_retention_floor db;
                  rs = merged_records e (filter (\<lambda>x. base_keeps floor (now_secs io) (snd (snd x))) (retained floor M)) in
              install_table e io ''_base_'' rs base_listing base_update db)"

section \<open>Garbage collection\<close>

text \<open>The loop over the merged versions: payloads are copied unchanged to the new heap and the
  records point to their new place.\<close>

fun gc_rewrite ::
  "env \<Rightarrow> bytes \<Rightarrow> bool \<Rightarrow> u64 \<Rightarrow> (bytes \<times> u64 \<times> ptr) list \<Rightarrow> bytes \<Rightarrow> (OmniRecord list \<times> bytes) result" where
  "gc_rewrite e h preserve now [] acc = Inr ([], acc)"
| "gc_rewrite e h preserve now ((k, q, (off, len, pcrc, ex)) # es) acc =
     (if len = 0 then
        (if preserve
         then bind_res (gc_rewrite e h preserve now es acc)
                (\<lambda>(rs, acc'). Inr (make_record e k q (0, 0, pcrc, ex) # rs, acc'))
         else gc_rewrite e h preserve now es acc)
      else if expired now ex \<and> \<not> preserve then gc_rewrite e h preserve now es acc
      else let n = raw_len len; o1 = unat off; buf = slice o1 (o1 + n) h in
        if n \<noteq> 0 \<and> o1 + n > length h then Inl (Err (IoError ''failed to fill whole buffer''))
        else if crc_of e buf \<noteq> pcrc then Inl (Err (IoError ''GC CRC32 mismatch!''))
        else bind_res (gc_rewrite e h preserve now es (acc @ buf))
               (\<lambda>(rs, acc'). Inr (make_record e k q (word_of_nat (length acc), len, pcrc, ex) # rs, acc')))"

definition memtable_records :: "env \<Rightarrow> memtable \<Rightarrow> OmniRecord list" where
  "memtable_records e m = map (\<lambda>(k, q, p). make_record e k q p) (mem_entries m)"

definition run_garbage_collection :: "env \<Rightarrow> compact_io \<Rightarrow> OmniKV \<Rightarrow> unit result \<times> OmniKV" where
  "run_garbage_collection e io db =
     (let r = roots db; floor = compaction_retention_floor db in
      case merge_tables e ([base_mmap r] @ map fst (sstables r) @ map fst (l1_sstables r)) [] of
        Inl err \<Rightarrow> (Inl err, db)
      | Inr T \<Rightarrow>
          let M = merge_records (memtable_records e (memtable r)) T in
          case create_unique_output ''_heap_compacted_'' ''.bin'' io db of
            (Inl err, db1) \<Rightarrow> (Inl err, db1)
          | (Inr heap', db1) \<Rightarrow>
              (case create_unique_output ''_database_compacted_'' ''.bin'' io db1 of
                 (Inl err, db2) \<Rightarrow> (Inl err, db2)
               | (Inr base', db2) \<Rightarrow>
                   (case gc_rewrite e (heap db) (floor \<noteq> None) (now_secs io) (retained floor M) [] of
                      Inl err \<Rightarrow> (Inl err, db2)
                    | Inr (rs, h) \<Rightarrow>
                        case build_bloom e (length M) rs of
                          Inl err \<Rightarrow> (Inl err, db2)
                        | Inr bloom \<Rightarrow>
                          if \<not> table_io io then (Inl (Err (IoError ''write table'')), db2)
                          else if \<not> mmap_io io then (Inl (Err (IoError ''map table'')), db2)
                          else if \<not> bloom_io io then (Inl (Err (IoError ''save filter'')), db2)
                          else
                            let m = (manifest r)\<lparr>heap_path := heap', base_path := base', m_sstables := [],
                                      m_l1_sstables := []\<rparr> in
                            case save_manifest (save_io io) m db2 of
                              (Inl err, db3) \<Rightarrow> (Inl err, db3)
                            | (Inr _, db3) \<Rightarrow>
                                (Inr (), db3\<lparr>roots := r\<lparr>base_mmap := sst_bytes rs, base_bloom := bloom,
                                     sstables := [], l1_sstables := [], manifest := m\<rparr>,
                                   files := (files db3)(base' \<mapsto> sst_bytes rs),
                                   bloom_files := (bloom_files db3)(base' \<mapsto> bloom),
                                   block_cache := Map.empty, heap := h, heap_durable := length h,
                                   heap_offset := word_of_nat (length h),
                                   wal := snd (wal_clear (rotate_ok io) (wal db3))\<rparr>))))"

section \<open>The background thread\<close>

text \<open>One iteration. The policy and the sizes are read as the code reads them: the policy once at
  the start, the table counts after the earlier phases. The third component is the counter of
  compacting iterations.\<close>

definition background_cycle ::
  "env \<Rightarrow> (nat \<Rightarrow> compact_io) \<Rightarrow> nat \<Rightarrow> u32 \<times> OmniKV \<Rightarrow> u32 \<times> OmniKV" where
  "background_cycle e io threshold = (\<lambda>(counter, db).
     let policy = compaction_policy db;
         run = (\<lambda>cond f (did, db). if cond db then
                  (case f db of (Inl _, db') \<Rightarrow> (did, db') | (Inr _, db') \<Rightarrow> (True, db')) else (did, db));
         (did, db') =
           run (\<lambda>db. length (l1_sstables (roots db)) \<ge> l1_compaction_trigger policy) (compact_l1_to_l2 e (io 2))
          (run (\<lambda>db. length (sstables (roots db)) \<ge> l0_compaction_trigger policy) (compact_l0_to_l1 e (io 1))
          (run (\<lambda>db. memtable_size db > threshold) (compact_sstables e (io 0)) (False, db)))
     in if did then
          (counter + 1, if (counter + 1) mod 5 = 0 then snd (run_garbage_collection e (io 3) db') else db')
        else (counter, db'))"

section \<open>Replacing levels\<close>

definition submap :: "('a \<Rightarrow> 'b option) \<Rightarrow> ('a \<Rightarrow> 'b option) \<Rightarrow> bool" where
  "submap m m' \<longleftrightarrow> (\<forall>x y. m x = Some y \<longrightarrow> m' x = Some y)"

lemma submapD: "submap m m' \<Longrightarrow> m x = Some y \<Longrightarrow> m' x = Some y"
  by (simp add: submap_def)

lemma above_submap: "above u l \<Longrightarrow> submap u' u \<Longrightarrow> submap l' l \<Longrightarrow> above u' l'"
  unfolding above_def submap_def by blast

lemma submap_refl [simp]: "submap m m"
  by (simp add: submap_def)

lemma above_empty [simp]: "above Map.empty l" "above l Map.empty"
  by (simp_all add: above_def)

lemma above_merge_left:
  assumes "sorted_wrt above ls" and "\<forall>l \<in> set ls. above l x"
  shows "above (merge_levels ls) x"
  unfolding above_def
proof (intro allI impI, elim conjE)
  fix q p q' p' assume "merge_levels ls q = Some p" and x: "x q' = Some p'"
  then obtain l where "l \<in> set ls" "l q = Some p" using merge_levels_iff [OF assms(1)] by blast
  then show "q' < q \<or> q' = q \<and> p' = p" using assms(2) x unfolding above_def by blast
qed

lemma merge_levels_append: "merge_levels (xs @ ys) = merge_levels ys ++ merge_levels xs"
  by (induction xs) (simp_all add: map_add_assoc)

text \<open>A run of levels may be replaced by one level that holds part of what they hold.\<close>

lemma replace_sorted:
  assumes so: "sorted_wrt above (A @ B @ C)" and sub: "submap n (merge_levels B)"
  shows "sorted_wrt above (A @ n # C)"
proof -
  have b: "sorted_wrt above B" "sorted_wrt above A" "sorted_wrt above C"
    and ab: "\<And>a x. a \<in> set A \<Longrightarrow> x \<in> set (B @ C) \<Longrightarrow> above a x"
    and bc: "\<And>x c. x \<in> set B \<Longrightarrow> c \<in> set C \<Longrightarrow> above x c"
    using so by (auto simp: sorted_wrt_append)
  have "above a n" if "a \<in> set A" for a
    by (rule above_submap [OF above_merge [of B a] submap_refl sub]) (use ab that in auto)
  moreover have "above n c" if "c \<in> set C" for c
    by (rule above_submap [OF above_merge_left [OF b(1), of c] sub submap_refl]) (use bc that in auto)
  ultimately show ?thesis using b ab by (auto simp: sorted_wrt_append)
qed

lemma replace_visible:
  assumes so: "sorted_wrt above (A @ B @ C)" and sub: "submap n (merge_levels B)"
    and v: "visible n s = visible (merge_levels B) s"
  shows "visible (merge_levels (A @ n # C)) s = visible (merge_levels (A @ B @ C)) s"
proof -
  have "first_visible (A @ n # C) s = first_visible (A @ B @ C) s"
  proof -
    have "sorted_wrt above B" using so by (auto simp: sorted_wrt_append)
    then have "first_visible B s = visible n s" using first_visible_merge v by metis
    then show ?thesis by (auto simp: first_visible_append split: option.split)
  qed
  then show ?thesis using first_visible_merge [OF so] first_visible_merge [OF replace_sorted [OF so sub]] by metis
qed

lemma replace_submap:
  assumes so: "sorted_wrt above (A @ B @ C)" and sub: "submap n (merge_levels B)"
  shows "submap (merge_levels (A @ n # C)) (merge_levels (A @ B @ C))"
  unfolding submap_def
proof (intro allI impI)
  fix q p assume "merge_levels (A @ n # C) q = Some p"
  then obtain l where l: "l \<in> set (A @ n # C)" "l q = Some p"
    using merge_levels_iff [OF replace_sorted [OF so sub]] by blast
  have "\<exists>l \<in> set (A @ B @ C). l q = Some p"
  proof (cases "l \<in> set (A @ C)")
    case False
    then have "merge_levels B q = Some p" using l submapD [OF sub] by auto
    moreover have "sorted_wrt above B" using so by (auto simp: sorted_wrt_append)
    ultimately show ?thesis using merge_levels_iff [of B] by auto
  qed (use l in auto)
  then show "merge_levels (A @ B @ C) q = Some p" using merge_levels_iff [OF so] by blast
qed

text \<open>A database whose versions are among those of a well-formed one over the same heap.\<close>

lemma db_ok_shrink:
  assumes ok: "db_ok e db" and r: "roots_ok e (roots db')"
    and sub: "\<And>k. submap (db_versions e (roots db') k) (db_versions e (roots db) k)"
    and same: "heap db' = heap db" "heap_durable db' = heap_durable db" "heap_offset db' = heap_offset db"
      "block_cache db' = block_cache db" "global_seq db' = global_seq db"
  shows "db_ok e db'"
proof -
  have l: "live e (roots db') \<subseteq> live e (roots db)" unfolding live_def using submapD [OF sub] by blast
  have p: "ptr_ok e db' = ptr_ok e db" by (simp add: ptr_ok_def same fun_eq_iff)
  have "utf8_valid k \<and> length k < 65536 \<and> 0 < q \<and> q < global_seq db"
    if "db_versions e (roots db') k q = Some p" for k q p
    using db_okD(3) [OF ok submapD [OF sub that]] .
  moreover have "\<forall>x \<in> live e (roots db'). ptr_ok e db x" using l db_okD(4) [OF ok] by blast
  moreover have "same_values e (heap db) (live e (roots db'))"
    using l db_okD(5) [OF ok] unfolding same_values_def by blast
  ultimately show ?thesis using ok r unfolding db_ok_def p same by blast
qed

section \<open>The tables compaction writes\<close>

lemma make_record_simps [simp]:
  "key (make_record e k q p) = k" "seq (make_record e k q p) = q" "ptr_of (make_record e k q p) = p"
  "is_valid (crc_of e) (make_record e k q p)"
  by (cases p; simp add: make_record_def record_new_def ptr_of_def is_valid_def compute_crc_def crc_input_def)+

definition entries_functional :: "('k \<times> 'q \<times> 'p) list \<Rightarrow> bool" where
  "entries_functional es \<longleftrightarrow> (\<forall>k q p p'. (k, q, p) \<in> set es \<longrightarrow> (k, q, p') \<in> set es \<longrightarrow> p = p')"

lemma entries_functionalI: "(\<And>k q p. (k, q, p) \<in> set es \<longleftrightarrow> f k q = Some p) \<Longrightarrow> entries_functional es"
  by (simp add: entries_functional_def)

lemma entries_functional_filter: "entries_functional es \<Longrightarrow> entries_functional (filter P es)"
  by (simp add: entries_functional_def) blast

lemma entries_lookup:
  "(\<And>k q p. (k, q, p) \<in> set es \<longleftrightarrow> f k q = Some p) \<Longrightarrow> x \<in> set es \<Longrightarrow> f (fst x) (fst (snd x)) = Some (snd (snd x))"
  by (cases x) auto

lemma option_eqI: "(\<And>p. x = Some p \<longleftrightarrow> y = Some p) \<Longrightarrow> x = y"
  by (cases x; cases y) auto

text \<open>A table within the size of its index whose blocks do not split a key.\<close>

definition fits :: "OmniRecord list \<Rightarrow> bool" where
  "fits rs \<longleftrightarrow> recs_size rs < 2 ^ 63 \<and> block_aligned rs"

lemma merged_records_mem:
  "r \<in> set (merged_records e es) \<longleftrightarrow> (\<exists>k q p. (k, q, p) \<in> set es \<and> r = make_record e k q p)"
  by (force simp: merged_records_def)

lemma merged_records_table:
  assumes f: "entries_functional es" and k: "\<forall>x \<in> set es. length (fst x) < 65536" and "fits (merged_records e es)"
  shows "table_ok (crc_of e) (merged_records e es)" and "rec_functional (merged_records e es)"
    and "rec_versions (merged_records e es) k q = Some p \<longleftrightarrow> (k, q, p) \<in> set es"
proof -
  have "storable (crc_of e) r" if r: "r \<in> set (merged_records e es)" for r
  proof -
    obtain k q p where m: "(k, q, p) \<in> set es" "r = make_record e k q p" using r unfolding merged_records_mem by blast
    then have "length k < 65536" using k [rule_format, OF m(1)] by simp
    then show ?thesis using m(2) by (simp add: storable_def)
  qed
  then show "table_ok (crc_of e) (merged_records e es)"
    using assms(3) by (simp add: table_ok_def fits_def) (simp add: merged_records_def)
  show rf: "rec_functional (merged_records e es)"
    unfolding rec_functional_def
  proof (intro ballI impI, elim conjE)
    fix r r' assume "r \<in> set (merged_records e es)" "r' \<in> set (merged_records e es)" and eq: "key r = key r'" "seq r = seq r'"
    then obtain k q p k' q' p' where m: "(k, q, p) \<in> set es" "r = make_record e k q p"
      "(k', q', p') \<in> set es" "r' = make_record e k' q' p'" unfolding merged_records_mem by blast
    then have "k' = k" "q' = q" using eq by simp_all
    then have "p = p'" using f [unfolded entries_functional_def, rule_format, of k q p p'] m by simp
    then show "ptr_of r = ptr_of r'" using m by simp
  qed
  show "rec_versions (merged_records e es) k q = Some p \<longleftrightarrow> (k, q, p) \<in> set es"
  proof
    assume "rec_versions (merged_records e es) k q = Some p"
    then obtain r where r: "r \<in> set (merged_records e es)" "key r = k" "seq r = q" "ptr_of r = p"
      unfolding rec_versions_iff [OF rf] by blast
    then obtain k' q' p' where "(k', q', p') \<in> set es" "r = make_record e k' q' p'" unfolding merged_records_mem by blast
    then show "(k, q, p) \<in> set es" using r by simp
  next
    assume m: "(k, q, p) \<in> set es"
    then have "make_record e k q p \<in> set (merged_records e es)" unfolding merged_records_mem by blast
    then show "rec_versions (merged_records e es) k q = Some p"
      unfolding rec_versions_iff [OF rf] by (intro bexI [of _ "make_record e k q p"]) simp_all
  qed
qed

lemma flush_records_merged: "flush_records e db = merged_records e (mem_entries (memtable (roots db)))"
  by (simp add: flush_records_def merged_records_def)

lemma build_bloom_ok:
  assumes "zero_crc_ok e"
  obtains bf where "build_bloom e n rs = Inr bf" and "bloom_ok bf rs"
proof -
  have "bloom_wf (bloom_new (bloom_dims e) (max n 100))" using assms by (intro bloom_new_wf) (simp add: zero_crc_ok_def)
  from bloom_add_keys_ok [OF this, of "map key rs"] show ?thesis
    using that by (auto simp: build_bloom_def bloom_ok_def)
qed

lemma write_output_frame:
  assumes "write_output e io tag rs db = (r, db')"
  shows "\<exists>f b t. db' = db\<lparr>files := f, bloom_files := b, file_seq := t\<rparr>"
proof -
  have "\<exists>f b t. db = db\<lparr>files := f, bloom_files := b, file_seq := t\<rparr>"
    by (rule exI [of _ "files db"], rule exI [of _ "bloom_files db"], rule exI [of _ "file_seq db"]) simp
  moreover have "\<exists>f b t'. db\<lparr>file_seq := t\<rparr> = db\<lparr>files := f, bloom_files := b, file_seq := t'\<rparr>" for t
    by (rule exI [of _ "files db"], rule exI [of _ "bloom_files db"], rule exI [of _ t]) simp
  moreover have "\<exists>f b t'. db\<lparr>file_seq := t, files := x, bloom_files := y\<rparr> = db\<lparr>files := f, bloom_files := b, file_seq := t'\<rparr>" for t x y
    by (rule exI [of _ x], rule exI [of _ y], rule exI [of _ t]) simp
  ultimately show ?thesis
    using assms by (auto simp: write_output_def create_unique_output_def split: sum.splits prod.splits if_splits)
qed

lemma write_output_handle:
  assumes e: "zero_crc_ok e" and t: "table_ok (crc_of e) rs" "rec_functional rs" "block_aligned rs"
    and w: "write_output e io tag rs db = (Inr h, db')"
  shows "handle_ok e h \<and> handle_versions e h = rec_versions rs"
proof -
  obtain bf where bf: "build_bloom e (length rs) rs = Inr bf" "bloom_ok bf rs" by (rule build_bloom_ok [OF e])
  have h: "fst h = sst_bytes rs" "fst (snd h) = bf"
    using w bf(1) by (auto simp: write_output_def split: sum.splits prod.splits if_splits)
  have "table_records e (sst_bytes rs) = rs" using sst_iter_records [OF t(1), of 0] by (simp add: table_records_def)
  moreover have "table_data e (sst_bytes rs)" using t unfolding table_data_def by blast
  ultimately show ?thesis using h bf(2) by (cases h) (simp add: handle_ok_def handle_versions_def)
qed

section \<open>Flushing changes no cell\<close>

text \<open>States that agree on everything reads depend on.\<close>

definition same_store :: "OmniKV \<Rightarrow> OmniKV \<Rightarrow> bool" where
  "same_store db' db \<longleftrightarrow> heap db' = heap db \<and> heap_durable db' = heap_durable db \<and>
     heap_offset db' = heap_offset db \<and> block_cache db' = block_cache db \<and> global_seq db' = global_seq db"

lemma same_storeD:
  assumes "same_store db' db"
  shows "heap db' = heap db" "heap_durable db' = heap_durable db" "heap_offset db' = heap_offset db"
    "block_cache db' = block_cache db" "global_seq db' = global_seq db"
  using assms by (simp_all add: same_store_def)

lemma same_versions_ok:
  assumes ok: "db_ok e db" and r: "roots_ok e (roots db')" and st: "same_store db' db"
    and v: "\<And>k. db_versions e (roots db') k = db_versions e (roots db) k"
  shows "db_ok e db' \<and> db_cells e db' = db_cells e db"
proof
  show "db_ok e db'" by (rule db_ok_shrink [OF ok r _ same_storeD [OF st]]) (simp add: v)
  show "db_cells e db' = db_cells e db" by (simp add: db_cells_def [abs_def] v same_storeD [OF st])
qed

lemma levels_empty_top:
  assumes ok: "roots_ok e r" and lv: "\<And>k. levels e r' k = Map.empty # levels e r k"
    and parts: "mem_wf (memtable r')" "\<forall>m \<in> set (frozen_memtables r'). mem_wf m" "\<forall>t \<in> set (sstables r'). handle_ok e t"
      "l1_sstables r' = l1_sstables r" "base_handle r' = base_handle r"
  shows "roots_ok e r'" and "db_versions e r' k = db_versions e r k"
  using ok parts by (simp_all add: roots_ok_def db_versions_def lv)

lemma freeze_ok:
  assumes "db_ok e db"
  shows "db_ok e (freeze io db) \<and> db_cells e (freeze io db) = db_cells e db"
proof (rule same_versions_ok [OF assms])
  have lv: "levels e (roots (freeze io db)) k = Map.empty # levels e (roots db) k" for k
    by (simp add: levels_def freeze_def base_handle_def fun_eq_iff)
  note r = db_okD(1) [OF assms]
  have p: "mem_wf (memtable (roots (freeze io db)))" "\<forall>m \<in> set (frozen_memtables (roots (freeze io db))). mem_wf m"
    "\<forall>t \<in> set (sstables (roots (freeze io db))). handle_ok e t"
    "l1_sstables (roots (freeze io db)) = l1_sstables (roots db)"
    "base_handle (roots (freeze io db)) = base_handle (roots db)"
    using r by (auto simp: freeze_def roots_ok_def base_handle_def)
  show "roots_ok e (roots (freeze io db))" by (rule levels_empty_top(1) [OF r lv p])
  show "db_versions e (roots (freeze io db)) k = db_versions e (roots db) k" for k
    by (rule levels_empty_top(2) [OF r lv p])
  show "same_store (freeze io db) db" by (simp add: same_store_def freeze_def)
qed

lemma save_manifest_frame:
  assumes "save_manifest io m db = (r, db')"
  shows "\<exists>f. db' = db\<lparr>manifest_file := f\<rparr>"
proof -
  have "\<exists>f. db = db\<lparr>manifest_file := f\<rparr>" by (rule exI [of _ "manifest_file db"]) simp
  then show ?thesis using assms by (auto simp: save_manifest_def Let_def split: manifest_io.splits)
qed

lemma outside_store [simp]:
  "same_store (db\<lparr>files := f, bloom_files := b\<rparr>) db' = same_store db db'"
  "same_store (db\<lparr>files := f, bloom_files := b, file_seq := t\<rparr>) db' = same_store db db'"
  "same_store (db\<lparr>manifest_file := m\<rparr>) db' = same_store db db'"
  "same_store (db\<lparr>roots := r\<rparr>) db' = same_store db db'"
  "same_store db db"
  by (simp_all add: same_store_def)

lemma same_roots_ok:
  assumes "db_ok e db" and "roots db' = roots db" and "same_store db' db"
  shows "db_ok e db' \<and> db_cells e db' = db_cells e db"
  by (rule same_versions_ok [OF assms(1) _ assms(3)]) (use db_okD(1) [OF assms(1)] assms(2) in simp_all)

text \<open>The outcome of installing a table: an error that leaves the roots alone, or roots that
  hold it.\<close>

lemma install_table_cases:
  assumes "install_table e io tag rs listing update db = (r, db')"
    and "zero_crc_ok e" and "table_ok (crc_of e) rs" "rec_functional rs" "block_aligned rs"
  obtains x where "r = Inl x" and "roots db' = roots db" and "same_store db' db"
  | h m where "r = Inr ()" and "handle_ok e h" and "handle_versions e h = rec_versions rs"
      and "roots db' = update h m (roots db)" and "same_store db' db"
proof -
  obtain w db1 where w: "write_output e io tag rs db = (w, db1)" by force
  obtain f b t where db1: "db1 = db\<lparr>files := f, bloom_files := b, file_seq := t\<rparr>" using write_output_frame [OF w] by blast
  show thesis
  proof (cases w)
    case (Inl x)
    then have "r = Inl x" "db' = db1" using assms(1) w by (simp_all add: install_table_def)
    then show thesis by (intro that(1)) (simp_all add: db1)
  next
    case (Inr h)
    let ?m = "listing (snd (snd h)) db1"
    obtain v db2 where v: "save_manifest (save_io io) ?m db1 = (v, db2)" by force
    obtain mf where db2: "db2 = db1\<lparr>manifest_file := mf\<rparr>" using save_manifest_frame [OF v] by blast
    show thesis
    proof (cases v)
      case (Inl x)
      then have "r = Inl x" "db' = discard_output (snd (snd h)) db2"
        using assms(1) w v \<open>w = Inr h\<close> by (simp_all add: install_table_def Let_def)
      then show thesis by (intro that(1)) (simp_all add: discard_output_def db2 db1 same_store_def)
    next
      case (Inr u)
      then have "r = Inr ()" "db' = db2\<lparr>roots := update h ?m (roots db2)\<rparr>"
        using assms(1) w v \<open>w = Inr h\<close> by (simp_all add: install_table_def Let_def)
      then show thesis
        by (intro that(2) [of h ?m]) (use write_output_handle [OF assms(2-5) w [unfolded \<open>w = Inr h\<close>]] in \<open>simp_all add: db2 db1\<close>)
    qed
  qed
qed

lemma flush_entries:
  assumes "db_ok e db" and "fits (flush_records e db)"
  shows "table_ok (crc_of e) (flush_records e db)" and "rec_functional (flush_records e db)"
    and "rec_versions (flush_records e db) = mem_versions (memtable (roots db))"
proof -
  let ?m = "memtable (roots db)"
  have "mem_wf ?m" using db_okD(1) [OF assms(1)] by (simp add: roots_ok_def)
  then have ent: "(k, q, p) \<in> set (mem_entries ?m) \<longleftrightarrow> mem_versions ?m k q = Some p" for k q p by (rule mem_entries_set)
  have en: "entries_functional (mem_entries ?m)" by (rule entries_functionalI) (rule ent)
  have kl: "\<forall>x \<in> set (mem_entries ?m). length (fst x) < 65536"
  proof
    fix x assume "x \<in> set (mem_entries ?m)"
    then have "mem_versions ?m (fst x) (fst (snd x)) = Some (snd (snd x))" by (rule entries_lookup [OF ent])
    then have "db_versions e (roots db) (fst x) (fst (snd x)) = Some (snd (snd x))" by (simp add: db_versions_def levels_def)
    then show "length (fst x) < 65536" using db_okD(3) [OF assms(1)] by blast
  qed
  note t = merged_records_table [OF en kl assms(2) [unfolded flush_records_merged], folded flush_records_merged]
  show "table_ok (crc_of e) (flush_records e db)" "rec_functional (flush_records e db)" by (rule t)+
  have "rec_versions (flush_records e db) k q = mem_versions ?m k q" for k q
    by (rule option_eqI) (simp only: t(3) ent)
  then show "rec_versions (flush_records e db) = mem_versions ?m" by blast
qed

lemma flush_ok:
  assumes ok: "db_ok e db" and e: "zero_crc_ok e" and fr: "frozen_memtables (roots db) = []"
    and fit: "fits (flush_records e db)" and c: "compact_sstables e io db = (r, db')"
  shows "db_ok e db' \<and> db_cells e db' = db_cells e db \<and> same_store db' db \<and>
    (r = Inr () \<longrightarrow> frozen_memtables (roots db') = [] \<and> memtable (roots db') = mem_empty)"
proof -
  let ?m = "memtable (roots db)" let ?rs = "flush_records e db" let ?db = "freeze io db"
  note fz = freeze_ok [OF ok, of io] and rok = db_okD(1) [OF ok] and t = flush_entries [OF ok fit]
  have st: "same_store ?db db" by (simp add: same_store_def freeze_def)
  show ?thesis
  proof (cases "?rs = []")
    case True
    then have r: "r = Inr ()" "db' = remove_frozen_memtable 0 ?db" using c by (simp_all add: compact_sstables_def fr Let_def)
    have roots: "roots db' = (roots db)\<lparr>memtable := mem_empty\<rparr>" and sd: "same_store db' db"
      using fr st by (simp_all add: r remove_frozen_memtable_def freeze_def Let_def same_store_def)
    have "mem_versions ?m = (\<lambda>_ _. None)" using t(3) True by (simp add: rec_versions_def fun_eq_iff)
    then have lv: "levels e (roots db') k = levels e (roots db) k" for k
      by (simp add: roots levels_def base_handle_def fr fun_eq_iff)
    then have "roots_ok e (roots db')" using rok unfolding roots_ok_def lv by (simp add: roots fr base_handle_def)
    then show ?thesis using same_versions_ok [OF ok _ sd] lv sd by (simp add: r(1) roots fr db_versions_def)
  next
    case False
    obtain r' db2 where i: "install_table e io ''_l0_0_'' ?rs l0_listing l0_update ?db = (r', db2)" by force
    have al: "block_aligned ?rs" using fit by (simp add: fits_def)
    from i e t(1,2) al show ?thesis
    proof (cases rule: install_table_cases)
      case (1 x)
      then have "r = Inl x" "db' = db2" using c i False by (simp_all add: compact_sstables_def Let_def fr)
      then show ?thesis using same_roots_ok [of e ?db db2] fz 1 st by (auto simp: same_store_def)
    next
      case (2 h m)
      then have r: "r = Inr ()" "db' = remove_frozen_memtable 0 db2" using c i False by (simp_all add: compact_sstables_def Let_def fr)
      have roots: "roots db' = (roots db)\<lparr>memtable := mem_empty, sstables := sstables (roots db) @ [h], manifest := m\<rparr>"
        and sd: "same_store db' db"
        using fr st 2 by (simp_all add: r remove_frozen_memtable_def freeze_def Let_def same_store_def)
      have lv: "levels e (roots db') k = Map.empty # levels e (roots db) k" for k
        using 2 t(3) by (simp add: roots levels_def base_handle_def fr fun_eq_iff)
      note top = levels_empty_top [OF rok lv]
      have "roots_ok e (roots db')" by (rule top(1)) (use rok 2 fr in \<open>auto simp: roots roots_ok_def base_handle_def\<close>)
      moreover have "db_versions e (roots db') k = db_versions e (roots db) k" for k
        by (rule top(2)) (use rok 2 fr in \<open>auto simp: roots roots_ok_def base_handle_def\<close>)
      ultimately show ?thesis using same_versions_ok [OF ok _ sd] sd by (simp add: r(1) roots fr)
    qed
  qed
qed

section \<open>Merging\<close>

definition merged_versions :: "merged \<Rightarrow> vmap" where
  "merged_versions M k q = Option.bind (om_lookup M k) (\<lambda>vs. om_lookup vs q)"

definition merged_wf :: "merged \<Rightarrow> bool" where
  "merged_wf M \<longleftrightarrow> om_wf M \<and> (\<forall>x \<in> set M. om_wf (snd x))"

lemma merged_wf_lookup: "merged_wf M \<Longrightarrow> om_lookup M k = Some vs \<Longrightarrow> om_wf vs"
  by (force simp: merged_wf_def om_lookup_Some)

lemma merged_wf_Nil [simp]: "merged_wf []" "merged_versions [] k = Map.empty"
  by (simp_all add: merged_wf_def merged_versions_def om_lookup_def fun_eq_iff)

lemma merge_insert:
  assumes "merged_wf M"
  shows "merged_wf (insert_record_version M r)"
    and "merged_versions (insert_record_version M r) k =
      (if k = key r then (merged_versions M k)(seq r \<mapsto> ptr_of r) else merged_versions M k)"
proof -
  let ?vs = "case om_lookup M (key r) of None \<Rightarrow> [] | Some vs \<Rightarrow> vs"
  have wf: "om_wf ?vs" using merged_wf_lookup [OF assms] by (simp split: option.split)
  show "merged_wf (insert_record_version M r)"
    using assms om_wf_insert [OF wf] by (auto simp: insert_record_version_def merged_wf_def om_wf_insert set_om_insert)
  have "om_lookup (om_insert (seq r) (ptr_of r) ?vs) = (om_lookup ?vs)(seq r \<mapsto> ptr_of r)"
    by (rule ext) (simp add: om_lookup_insert [OF wf])
  moreover have "om_lookup ?vs = merged_versions M (key r)"
    by (auto simp: merged_versions_def om_lookup_def fun_eq_iff split: option.split)
  moreover have "om_wf M" using assms by (simp add: merged_wf_def)
  ultimately show "merged_versions (insert_record_version M r) k =
      (if k = key r then (merged_versions M k)(seq r \<mapsto> ptr_of r) else merged_versions M k)"
    by (intro ext) (simp add: merged_versions_def insert_record_version_def om_lookup_insert)
qed

lemma rec_versions_Cons:
  "rec_versions (r # rs) k = (if key r = k then (rec_versions rs k)(seq r \<mapsto> ptr_of r) else rec_versions rs k)"
  by (simp add: rec_versions_def)

lemma map_add_upd_agree: "g x \<in> {None, Some y} \<Longrightarrow> f(x \<mapsto> y) ++ g = f ++ g(x \<mapsto> y)"
  by (auto simp: map_add_def fun_eq_iff split: option.split)

lemma merge_records_versions:
  "merged_wf M \<Longrightarrow> rec_functional rs \<Longrightarrow>
     merged_wf (merge_records rs M) \<and> merged_versions (merge_records rs M) k = merged_versions M k ++ rec_versions rs k"
proof (induction rs arbitrary: M)
  case Nil
  then show ?case by (simp add: merge_records_def rec_versions_def)
next
  case (Cons r rs)
  have rf: "rec_functional rs"
    unfolding rec_functional_def
    by (intro ballI impI) (rule Cons.prems(2) [unfolded rec_functional_def, rule_format], simp_all)
  note i = merge_insert [OF Cons.prems(1), of r]
  have IH: "merged_wf (merge_records (r # rs) M) \<and>
      merged_versions (merge_records (r # rs) M) k = merged_versions (insert_record_version M r) k ++ rec_versions rs k"
    using Cons.IH [OF i(1) rf] by (simp add: merge_records_def)
  have agree: "rec_versions rs (key r) (seq r) \<in> {None, Some (ptr_of r)}"
  proof (cases "rec_versions rs (key r) (seq r)")
    case (Some p)
    then obtain r' where "r' \<in> set rs" "key r' = key r" "seq r' = seq r" "ptr_of r' = p"
      using rec_versions_iff [OF rf] by blast
    then have "ptr_of r = p" using Cons.prems(2) [unfolded rec_functional_def, rule_format, of r' r] by simp
    then show ?thesis using Some by simp
  qed simp
  have "merged_versions (insert_record_version M r) k ++ rec_versions rs k = merged_versions M k ++ rec_versions (r # rs) k"
    using map_add_upd_agree [of "rec_versions rs (key r)", OF agree] by (auto simp: i(2) rec_versions_Cons)
  then show ?case using IH by simp
qed

lemma iter_all:
  assumes "handle_ok e h"
  shows "iter_from (crc_of e) (fst h) [] = Inr (table_records e (fst h))"
    and "filter (is_valid (crc_of e)) (table_records e (fst h)) = table_records e (fst h)"
    and "rec_functional (table_records e (fst h))" and "rec_versions (table_records e (fst h)) = handle_versions e h"
proof -
  have "table_data e (fst h)" using assms by (cases h) (simp add: handle_ok_def)
  note t = table_iter [OF this, of "[]"]
  then obtain i where it: "iter_from (crc_of e) (fst h) [] = Inr (drop i (table_records e (fst h)))"
    and lt: "\<forall>r \<in> set (take i (table_records e (fst h))). key r < []" by blast
  have "take i (table_records e (fst h)) = []" using lt by (cases "take i (table_records e (fst h))") auto
  then have "drop i (table_records e (fst h)) = table_records e (fst h)"
    by auto
  then show "iter_from (crc_of e) (fst h) [] = Inr (table_records e (fst h))" using it by simp
  show "filter (is_valid (crc_of e)) (table_records e (fst h)) = table_records e (fst h)"
    using t by (auto simp: filter_id_conv storable_def)
  show "rec_functional (table_records e (fst h))" using t by blast
  show "rec_versions (table_records e (fst h)) = handle_versions e h" by (simp add: handle_versions_data fun_eq_iff)
qed

lemma merge_tables_versions:
  "merged_wf M \<Longrightarrow> \<forall>h \<in> set hs. handle_ok e h \<Longrightarrow>
     \<exists>M'. merge_tables e (map fst hs) M = Inr M' \<and> merged_wf M' \<and>
       (\<forall>k. merged_versions M' k = merged_versions M k ++ merge_levels (map (\<lambda>h. handle_versions e h k) (rev hs)))"
proof (induction hs arbitrary: M)
  case (Cons h hs)
  let ?M = "merge_records (table_records e (fst h)) M"
  have h: "handle_ok e h" using Cons.prems(2) by simp
  note it = iter_all [OF h]
  have m: "merged_wf ?M" "\<And>k. merged_versions ?M k = merged_versions M k ++ handle_versions e h k"
    using merge_records_versions [OF Cons.prems(1) it(3)] it(4) by simp_all
  obtain M' where "merge_tables e (map fst hs) ?M = Inr M'" "merged_wf M'"
    "\<forall>k. merged_versions M' k = merged_versions ?M k ++ merge_levels (map (\<lambda>h. handle_versions e h k) (rev hs))"
    using Cons.IH [OF m(1)] Cons.prems(2) by auto
  then show ?case using m it(1,2) by (simp add: merge_levels_append map_add_assoc)
qed simp

text \<open>What retention leaves of merged versions.\<close>

definition retained_versions :: "u64 option \<Rightarrow> merged \<Rightarrow> vmap" where
  "retained_versions floor M k q =
     Option.bind (om_lookup M k) (\<lambda>vs. om_lookup (retain_versions_needed_by_floor vs floor) q)"

lemma retained_mem:
  assumes "merged_wf M"
  shows "(k, q, p) \<in> set (retained floor M) \<longleftrightarrow> retained_versions floor M k q = Some p"
proof -
  have M: "om_wf M" using assms by (simp add: merged_wf_def)
  have "(k, q, p) \<in> set (retained floor M) \<longleftrightarrow>
      (\<exists>vs. (k, vs) \<in> set M \<and> (q, p) \<in> set (retain_versions_needed_by_floor vs floor))"
    unfolding retained_def by (force simp: image_iff)
  also have "\<dots> \<longleftrightarrow> (\<exists>vs. om_lookup M k = Some vs \<and> om_lookup (retain_versions_needed_by_floor vs floor) q = Some p)"
    using merged_wf_lookup [OF assms, of k] om_lookup_Some [OF M] om_lookup_Some [OF retain_wf] by metis
  finally show ?thesis by (simp add: retained_versions_def bind_eq_Some_conv)
qed

lemma retained_visible:
  assumes "merged_wf M" and "floor_ok floor s"
  shows "visible (retained_versions floor M k) s = visible (merged_versions M k) s"
proof (cases "om_lookup M k")
  case None
  then have "retained_versions floor M k = Map.empty" "merged_versions M k = Map.empty"
    by (simp_all add: retained_versions_def merged_versions_def fun_eq_iff)
  then show ?thesis by simp
next
  case (Some vs)
  then have "retained_versions floor M k = om_lookup (retain_versions_needed_by_floor vs floor)"
    "merged_versions M k = om_lookup vs"
    by (simp_all add: retained_versions_def merged_versions_def fun_eq_iff)
  then show ?thesis using retain_visible [OF merged_wf_lookup [OF assms(1) Some] assms(2)] by simp
qed

lemma retained_submap:
  assumes "merged_wf M"
  shows "submap (retained_versions floor M k) (merged_versions M k)"
  unfolding submap_def
proof (intro allI impI)
  fix q p assume "retained_versions floor M k q = Some p"
  then obtain vs where vs: "om_lookup M k = Some vs" "om_lookup (retain_versions_needed_by_floor vs floor) q = Some p"
    by (auto simp: retained_versions_def bind_eq_Some_conv)
  then have "om_lookup vs q = Some p"
    using retain_lookup [OF merged_wf_lookup [OF assms vs(1)], of floor q] by (simp split: if_splits)
  then show "merged_versions M k q = Some p" using vs(1) by (simp add: merged_versions_def)
qed

lemma retained_table:
  assumes M: "merged_wf M" and fit: "fits (merged_records e (filter P (retained floor M)))"
    and kl: "\<forall>k q p. merged_versions M k q = Some p \<longrightarrow> length k < 65536"
  defines "rs \<equiv> merged_records e (filter P (retained floor M))"
  shows "table_ok (crc_of e) rs" and "rec_functional rs" and "block_aligned rs"
    and "rec_versions rs k q = Some p \<longleftrightarrow> retained_versions floor M k q = Some p \<and> P (k, q, p)"
proof -
  have mem: "(k, q, p) \<in> set (filter P (retained floor M)) \<longleftrightarrow> retained_versions floor M k q = Some p \<and> P (k, q, p)" for k q p
    using retained_mem [OF M, of k q p floor] by auto
  have en: "entries_functional (filter P (retained floor M))"
    by (rule entries_functional_filter, rule entries_functionalI) (rule retained_mem [OF M])
  have kb: "\<forall>x \<in> set (filter P (retained floor M)). length (fst x) < 65536"
  proof
    fix x assume "x \<in> set (filter P (retained floor M))"
    then have "retained_versions floor M (fst x) (fst (snd x)) = Some (snd (snd x))"
      using mem [of "fst x" "fst (snd x)" "snd (snd x)"] by simp
    then have "merged_versions M (fst x) (fst (snd x)) = Some (snd (snd x))" by (rule submapD [OF retained_submap [OF M]])
    then show "length (fst x) < 65536" using kl by blast
  qed
  note t = merged_records_table [OF en kb fit, folded rs_def]
  show "table_ok (crc_of e) rs" "rec_functional rs" by (rule t)+
  show "block_aligned rs" using fit by (simp add: fits_def rs_def)
  show "rec_versions rs k q = Some p \<longleftrightarrow> retained_versions floor M k q = Some p \<and> P (k, q, p)"
    unfolding t(3) by (rule mem)
qed

lemma filter_True_list [simp]: "filter (\<lambda>_. True) xs = xs"
  by (induction xs) auto

text \<open>A run of levels replaced by one, or by none when it would be empty.\<close>

lemma replace_ok:
  assumes ok: "db_ok e db" and st: "same_store db' db"
    and lv: "\<And>k. levels e (roots db) k = A k @ B k @ C k"
    and lv': "\<And>k. levels e (roots db') k = A k @ n k # C k \<or> levels e (roots db') k = A k @ C k \<and> n k = Map.empty"
    and sub: "\<And>k. submap (n k) (merge_levels (B k))"
    and parts: "mem_wf (memtable (roots db'))" "\<forall>m \<in> set (frozen_memtables (roots db')). mem_wf m"
      "\<forall>t \<in> set (sstables (roots db')). handle_ok e t" "\<forall>t \<in> set (l1_sstables (roots db')). handle_ok e t"
      "handle_ok e (base_handle (roots db'))"
  shows "db_ok e db'" and "db_versions e (roots db') k = merge_levels (A k @ n k # C k)"
proof -
  have so: "sorted_wrt above (A k @ B k @ C k)" for k
    using db_okD(1) [OF ok] by (simp add: roots_ok_def lv)
  note so' = replace_sorted [OF so sub]
  have v: "db_versions e (roots db') k = merge_levels (A k @ n k # C k)" for k
    using lv' [of k] by (auto simp: db_versions_def merge_levels_append)
  then show "db_versions e (roots db') k = merge_levels (A k @ n k # C k)" .
  have "sorted_wrt above (levels e (roots db') k)" for k
    using lv' [of k] so' [of k] by (auto simp: sorted_wrt_append)
  then have r: "roots_ok e (roots db')" using parts by (simp add: roots_ok_def)
  have "submap (db_versions e (roots db') k) (db_versions e (roots db) k)" for k
    unfolding v using replace_submap [OF so sub, of k] by (simp add: db_versions_def lv)
  then show "db_ok e db'" by (rule db_ok_shrink [OF ok r _ same_storeD [OF st]])
qed

lemma visible_cells: "visible (db_cells e db k) s = map_option (cell_of e (heap db)) (visible (db_versions e (roots db) k) s)"
  unfolding db_cells_def by (rule visible_map)

definition l0_fits :: "env \<Rightarrow> OmniKV \<Rightarrow> bool" where
  "l0_fits e db \<longleftrightarrow> (case merge_tables e (map fst (sstables (roots db))) [] of
     Inl _ \<Rightarrow> True | Inr M \<Rightarrow> fits (merged_records e (retained (compaction_retention_floor db) M)))"

lemma level_key_bound:
  assumes "db_ok e db" and "l \<in> set (levels e (roots db) k)" and "l q = Some p"
  shows "length k < 65536"
proof -
  have "sorted_wrt above (levels e (roots db) k)" using db_okD(1) [OF assms(1)] by (simp add: roots_ok_def)
  then have "db_versions e (roots db) k q = Some p"
    unfolding db_versions_def merge_levels_iff [OF \<open>sorted_wrt above (levels e (roots db) k)\<close>] using assms(2,3) by blast
  then show ?thesis using db_okD(3) [OF assms(1)] by blast
qed

lemma merge_key_bound:
  assumes "db_ok e db" and "sorted_wrt above ls" and "set ls \<subseteq> set (levels e (roots db) k)" and "merge_levels ls q = Some p"
  shows "length k < 65536"
proof -
  obtain l where l: "l \<in> set ls" "l q = Some p" using merge_levels_iff [OF assms(2)] assms(4) by blast
  then have "l \<in> set (levels e (roots db) k)" using assms(3) by blast
  from level_key_bound [OF assms(1) this l(2)] show ?thesis .
qed

lemma l0_to_l1_ok:
  assumes ok: "db_ok e db" and e: "zero_crc_ok e" and fit: "l0_fits e db"
    and c: "compact_l0_to_l1 e io db = (r, db')" and s: "floor_ok (compaction_retention_floor db) s"
  shows "db_ok e db' \<and> same_store db' db \<and> visible (db_cells e db' k) s = visible (db_cells e db k) s \<and>
    memtable (roots db') = memtable (roots db) \<and> frozen_memtables (roots db') = frozen_memtables (roots db)"
proof (cases "sstables (roots db) = []")
  case True
  then show ?thesis using c ok by (simp add: compact_l0_to_l1_def)
next
  case False
  let ?r = "roots db" let ?f = "compaction_retention_floor db"
  define A where "A = (\<lambda>k. mem_versions (memtable ?r) k # map (\<lambda>m. mem_versions m k) (rev (frozen_memtables ?r)))"
  define B where "B = (\<lambda>k. map (\<lambda>t. handle_versions e t k) (rev (sstables ?r)))"
  define C where "C = (\<lambda>k. map (\<lambda>t. handle_versions e t k) (rev (l1_sstables ?r)) @ [handle_versions e (base_handle ?r) k])"
  have lv: "levels e ?r k = A k @ B k @ C k" for k by (simp add: levels_def A_def B_def C_def)
  note rok = db_okD(1) [OF ok]
  have so: "sorted_wrt above (A k @ B k @ C k)" for k using rok by (simp add: roots_ok_def lv)
  have hs: "\<forall>h \<in> set (sstables ?r). handle_ok e h" using rok by (simp add: roots_ok_def)
  obtain M where M: "merge_tables e (map fst (sstables ?r)) [] = Inr M" "merged_wf M"
    "\<And>k. merged_versions M k = merge_levels (B k)"
    using merge_tables_versions [OF _ hs, of "[]"] by (auto simp: B_def)
  define rs where "rs = merged_records e (retained ?f M)"
  have kl: "\<forall>k q p. merged_versions M k q = Some p \<longrightarrow> length k < 65536"
    unfolding M(3)
  proof (intro allI impI)
    fix k q p show "length k < 65536" if "merge_levels (B k) q = Some p"
      by (rule merge_key_bound [OF ok _ _ that]) (use so [of k] in \<open>auto simp: sorted_wrt_append lv\<close>)
  qed
  have "fits (merged_records e (filter (\<lambda>_. True) (retained ?f M)))" using fit M(1) by (simp add: l0_fits_def)
  note t = retained_table [OF M(2) this kl, unfolded filter_True_list, folded rs_def]
  have ver: "rec_versions rs k = retained_versions ?f M k" for k
    by (rule ext, rule option_eqI) (simp add: t(4))
  have sub: "submap (rec_versions rs k) (merge_levels (B k))" for k
    unfolding ver M(3) [symmetric] by (rule retained_submap [OF M(2)])
  have "visible (rec_versions rs k) s = visible (merge_levels (B k)) s" for k
    unfolding ver M(3) [symmetric] by (rule retained_visible [OF M(2) s])
  note vis = replace_visible [OF so sub this]
  have res: ?thesis if st: "same_store db' db"
    and lv': "\<And>k. levels e (roots db') k = A k @ rec_versions rs k # C k \<or> levels e (roots db') k = A k @ C k \<and> rec_versions rs k = Map.empty"
    and fr: "memtable (roots db') = memtable ?r" "frozen_memtables (roots db') = frozen_memtables ?r"
      "\<forall>t \<in> set (sstables (roots db')). handle_ok e t" "\<forall>t \<in> set (l1_sstables (roots db')). handle_ok e t"
      "base_handle (roots db') = base_handle ?r"
  proof -
    have p: "mem_wf (memtable (roots db'))" "\<forall>m \<in> set (frozen_memtables (roots db')). mem_wf m" "handle_ok e (base_handle (roots db'))"
      using rok fr by (simp_all add: roots_ok_def)
    note R = replace_ok [OF ok st lv lv' sub p(1,2) fr(3,4) p(3)]
    have "visible (db_cells e db' k) s = visible (db_cells e db k) s"
      unfolding visible_cells R(2) same_storeD(1) [OF st] vis by (simp add: db_versions_def lv)
    then show ?thesis using R(1) st fr by simp
  qed
  show ?thesis
  proof (cases "rs = []")
    case True
    then have c': "(case save_manifest (save_io io) ((manifest ?r)\<lparr>m_sstables := []\<rparr>) db of
              (Inl err, db1) \<Rightarrow> (Inl err, db1)
            | (Inr _, db1) \<Rightarrow> (Inr (), db1\<lparr>roots := (roots db1)\<lparr>manifest := (manifest ?r)\<lparr>m_sstables := []\<rparr>, sstables := []\<rparr>\<rparr>)) = (r, db')"
      using c False M(1) by (simp add: compact_l0_to_l1_def rs_def Let_def)
    obtain v db1 where v: "save_manifest (save_io io) ((manifest ?r)\<lparr>m_sstables := []\<rparr>) db = (v, db1)" by force
    obtain mf where db1: "db1 = db\<lparr>manifest_file := mf\<rparr>" using save_manifest_frame [OF v] by blast
    show ?thesis
    proof (cases v)
      case (Inl x)
      then have "db' = db\<lparr>manifest_file := mf\<rparr>" using c' v by (simp add: db1)
      then show ?thesis using same_roots_ok [OF ok, of db'] by simp
    next
      case (Inr u)
      then have "db' = db1\<lparr>roots := (roots db1)\<lparr>manifest := (manifest ?r)\<lparr>m_sstables := []\<rparr>, sstables := []\<rparr>\<rparr>"
        using c' v by simp
      then show ?thesis
        using rok True by (intro res) (simp_all add: db1 levels_def A_def C_def base_handle_def roots_ok_def rec_versions_def fun_eq_iff)
    qed
  next
    case F2: False
    then have i: "install_table e io ''_l1_'' rs l1_listing l1_update db = (r, db')"
      using c False M(1) by (simp add: compact_l0_to_l1_def rs_def Let_def)
    from i e t(1-3) show ?thesis
    proof (cases rule: install_table_cases)
      case (1 x)
      then show ?thesis using same_roots_ok [OF ok, of db'] by simp
    next
      case (2 h m)
      then show ?thesis
        using rok by (intro res) (auto simp: levels_def A_def C_def base_handle_def roots_ok_def fun_eq_iff)
    qed
  qed
qed

end
