(* ===== verification/Compaction_Base.thy ===== *)
theory Compaction_Base
  imports Compaction
begin

text \<open>
  The merge into the base level and garbage collection change no read at or above the retention
  floor; the background thread composes them.
\<close>

section \<open>Merging into the base level\<close>

definition base_fits :: "env \<Rightarrow> u64 \<Rightarrow> OmniKV \<Rightarrow> bool" where
  "base_fits e now db \<longleftrightarrow> (case merge_tables e (base_mmap (roots db) # map fst (l1_sstables (roots db))) [] of
     Inl _ \<Rightarrow> True
   | Inr M \<Rightarrow> let floor = compaction_retention_floor db
             in fits (merged_records e (filter (\<lambda>x. base_keeps floor now (snd (snd x))) (retained floor M))))"

text \<open>A pointer that the base level drops reads as nothing from then on.\<close>

lemma dropped_reads_nothing:
  assumes "\<not> base_keeps floor now p" and "now \<le> now'" and "cell_of e h p = (v, ex)"
  shows "(if expired now' ex then None else v) = None"
  using assms by (cases p) (auto simp: base_keeps_def cell_of_def expired_def split: if_splits intro: order_trans)

lemma filter_visible:
  assumes only: "\<And>q p. R q = Some p \<Longrightarrow> newest R s = Some q" and n: "\<And>q p. n q = Some p \<longleftrightarrow> R q = Some p \<and> K p"
  shows "visible n s = (case visible R s of None \<Rightarrow> None | Some p \<Rightarrow> if K p then Some p else None)"
proof (cases "visible R s")
  case None
  then have R: "R q = None" if "q \<le> s" for q using that by (simp add: visible_None)
  have "n q = None" if "q \<le> s" for q
  proof (rule ccontr)
    assume "n q \<noteq> None"
    then obtain p where "n q = Some p" by blast
    then have "R q = Some p" using n by blast
    then show False using R [OF that] by simp
  qed
  then have "visible n s = None" by (simp add: visible_None)
  then show ?thesis using None by simp
next
  case (Some p)
  then obtain q where q: "newest R s = Some q" "R q = Some p" by (auto simp: visible_newest)
  have uniq: "q' = q" if "R q' = Some p'" for q' p' using only [OF that] q(1) by simp
  have at: "n q' = (if q' = q \<and> K p then Some p else None)" for q'
  proof (rule option_eqI)
    fix p' show "n q' = Some p' \<longleftrightarrow> (if q' = q \<and> K p then Some p else None) = Some p'"
      unfolding n using uniq [of q' p'] q(2) by auto
  qed
  have "q \<le> s" using q by (simp add: newest_Some)
  then have "visible n s = (if K p then Some p else None)"
    by (cases "K p") (auto simp: visible_newest newest_Some visible_None at dom_def split: if_splits)
  then show ?thesis using Some by simp
qed

lemma kept_visible:
  assumes M: "merged_wf M" and s: "floor_ok floor s"
    and n: "\<And>q p. n q = Some p \<longleftrightarrow> retained_versions floor M k q = Some p \<and> base_keeps floor now p"
  shows "visible n s = (case visible (merged_versions M k) s of None \<Rightarrow> None
     | Some p \<Rightarrow> if base_keeps floor now p then Some p else None)"
proof (cases floor)
  case (Some f)
  then have "n = retained_versions floor M k" by (intro ext option_eqI) (simp add: n base_keeps_def)
  then show ?thesis using retained_visible [OF M s, of k] Some by (simp add: base_keeps_def split: option.split)
next
  case None
  then have s: "s = - 1" using s by (simp add: floor_ok_def)
  let ?R = "retained_versions floor M k"
  have only: "newest ?R (- 1) = Some q" if q: "?R q = Some p" for q p
  proof -
    obtain vs where vs: "om_lookup M k = Some vs" "om_lookup (retain_versions_needed_by_floor vs floor) q = Some p"
      using q by (auto simp: retained_versions_def bind_eq_Some_conv)
    note wf = merged_wf_lookup [OF M vs(1)]
    have nq: "newest (om_lookup vs) (- 1) = Some q"
      using vs(2) unfolding retain_lookup [OF wf] by (auto simp: None floor_ok_def split: if_splits)
    have "?R = om_lookup (retain_versions_needed_by_floor vs floor)" using vs(1) by (simp add: retained_versions_def fun_eq_iff)
    moreover have "q' \<le> q" if "om_lookup (retain_versions_needed_by_floor vs floor) q' \<noteq> None" for q'
      using that nq unfolding retain_lookup [OF wf] by (auto simp: None floor_ok_def newest_Some split: if_splits)
    ultimately show ?thesis using vs(2) by (auto simp: newest_Some)
  qed
  have "visible n (- 1) = (case visible ?R (- 1) of None \<Rightarrow> None | Some p \<Rightarrow> if base_keeps floor now p then Some p else None)"
    by (rule filter_visible [OF only n])
  then show ?thesis using retained_visible [OF M, of floor "- 1" k] None by (simp add: s floor_ok_def)
qed

lemma merge_tables_append:
  "merge_tables e (ds @ ds') M = bind_res (merge_tables e ds M) (merge_tables e ds')"
  by (induction e ds M rule: merge_tables.induct) (auto simp: bind_res_def split: sum.split)

lemma first_visible_bottom:
  assumes "sorted_wrt above (A @ ls)"
  shows "visible (merge_levels (A @ ls)) s = (case first_visible A s of None \<Rightarrow> visible (merge_levels ls) s | Some p \<Rightarrow> Some p)"
proof -
  have "first_visible ls s = visible (merge_levels ls) s"
    using assms by (intro first_visible_merge) (simp add: sorted_wrt_append)
  then show ?thesis unfolding first_visible_merge [OF assms, symmetric] first_visible_append by (simp split: option.split)
qed

lemma base_merge_ok:
  assumes ok: "db_ok e db" and e: "zero_crc_ok e" and fit: "base_fits e (now_secs io) db"
    and c: "compact_l1_to_l2 e io db = (r, db')" and s: "floor_ok (compaction_retention_floor db) s"
    and now: "now_secs io \<le> now"
  shows "db_ok e db' \<and> same_store db' db \<and> spec_read (db_cells e db') now k s = spec_read (db_cells e db) now k s \<and>
    memtable (roots db') = memtable (roots db) \<and> frozen_memtables (roots db') = frozen_memtables (roots db)"
proof -
  let ?r = "roots db" let ?f = "compaction_retention_floor db" let ?K = "base_keeps ?f (now_secs io)"
  define A where "A = (\<lambda>k. mem_versions (memtable ?r) k # map (\<lambda>m. mem_versions m k) (rev (frozen_memtables ?r)) @
    map (\<lambda>t. handle_versions e t k) (rev (sstables ?r)))"
  define B where "B = (\<lambda>k. map (\<lambda>t. handle_versions e t k) (rev (base_handle ?r # l1_sstables ?r)))"
  have lv: "levels e ?r k = A k @ B k @ []" for k by (simp add: levels_def A_def B_def)
  note rok = db_okD(1) [OF ok]
  have so: "sorted_wrt above (A k @ B k @ [])" for k using rok unfolding roots_ok_def lv by blast
  have hs: "\<forall>h \<in> set (base_handle ?r # l1_sstables ?r). handle_ok e h" using rok by (simp add: roots_ok_def)
  obtain M where M: "merge_tables e (base_mmap ?r # map fst (l1_sstables ?r)) [] = Inr M" "merged_wf M"
    "\<And>k. merged_versions M k = merge_levels (B k)"
    using merge_tables_versions [OF _ hs, of "[]"] by (auto simp: B_def base_handle_def)
  obtain B1 where B1: "merge_tables e [base_mmap ?r] [] = Inr B1" "merge_tables e (map fst (l1_sstables ?r)) B1 = Inr M"
    using M(1) merge_tables_append [of e "[base_mmap ?r]" "map fst (l1_sstables ?r)" "[]"] by (auto simp: bind_res_Inr_iff)
  define rs where "rs = merged_records e (filter (\<lambda>x. ?K (snd (snd x))) (retained ?f M))"
  have kl: "\<forall>k q p. merged_versions M k q = Some p \<longrightarrow> length k < 65536"
    unfolding M(3)
  proof (intro allI impI)
    fix k q p show "length k < 65536" if "merge_levels (B k) q = Some p"
      by (rule merge_key_bound [OF ok _ _ that]) (use so [of k] in \<open>auto simp: sorted_wrt_append lv\<close>)
  qed
  have "fits rs" using fit M(1) by (simp add: base_fits_def rs_def Let_def)
  note t = retained_table [OF M(2) this [unfolded rs_def] kl, folded rs_def, unfolded snd_conv]
  have sub: "submap (rec_versions rs k) (merge_levels (B k))" for k
    unfolding submap_def M(3) [symmetric] using t(4) submapD [OF retained_submap [OF M(2)]] by blast
  note vis = kept_visible [OF M(2) s t(4)]
  show ?thesis
  proof (cases "l1_sstables ?r = []")
    case True
    then show ?thesis using c ok B1 by (simp add: compact_l1_to_l2_def)
  next
    case False
    have i: "install_table e io ''_base_'' rs base_listing base_update db = (r, db')"
      using c False B1 by (simp add: compact_l1_to_l2_def rs_def Let_def)
    from i e t(1-3) show ?thesis
    proof (cases rule: install_table_cases)
      case (1 x)
      then show ?thesis using same_roots_ok [OF ok, of db'] by simp
    next
      case (2 h m)
      have bh: "handle_ok e (base_handle (roots db'))" "handle_versions e (base_handle (roots db')) = rec_versions rs"
        using 2 by (cases h; simp add: base_handle_def handle_ok_def handle_versions_def)+
      have lv': "levels e (roots db') k = A k @ rec_versions rs k # []" for k
        using 2(4) bh(2) by (simp add: levels_def A_def)
      have fr: "mem_wf (memtable (roots db'))" "\<forall>m \<in> set (frozen_memtables (roots db')). mem_wf m"
        "\<forall>t \<in> set (sstables (roots db')). handle_ok e t" "\<forall>t \<in> set (l1_sstables (roots db')). handle_ok e t"
        using rok 2(4) by (simp_all add: roots_ok_def)
      note R = replace_ok [OF ok 2(5) lv disjI1 [OF lv'] sub fr bh(1)]
      have new: "visible (db_versions e (roots db') k) s =
          (case first_visible (A k) s of None \<Rightarrow> visible (rec_versions rs k) s | Some p \<Rightarrow> Some p)"
        using first_visible_bottom [OF replace_sorted [OF so sub], of k s] by (simp add: R(2) split: option.split)
      have old: "visible (db_versions e ?r k) s =
          (case first_visible (A k) s of None \<Rightarrow> visible (merged_versions M k) s | Some p \<Rightarrow> Some p)"
        using first_visible_bottom [OF so, of k s] by (simp add: db_versions_def lv M(3) split: option.split)
      have "spec_read (db_cells e db') now k s = spec_read (db_cells e db) now k s"
        unfolding spec_read_def visible_cells same_storeD(1) [OF 2(5)] new old vis
        using dropped_reads_nothing [of ?f "now_secs io" _ now e "heap db"] now
        by (auto split: option.split prod.split)
      then show ?thesis using R(1) 2(4,5) by simp
    qed
  qed
qed

section \<open>Moving payloads\<close>

text \<open>The pointers and the bytes of the rewritten heap.\<close>

fun gc_moved :: "u64 option \<Rightarrow> u64 \<Rightarrow> nat \<Rightarrow> (bytes \<times> u64 \<times> ptr) list \<Rightarrow> (bytes \<times> u64 \<times> ptr) list" where
  "gc_moved floor now n [] = []"
| "gc_moved floor now n ((k, q, (off, len, pcrc, ex)) # es) =
     (if \<not> base_keeps floor now (off, len, pcrc, ex) then gc_moved floor now n es
      else if len = 0 then (k, q, (0, 0, pcrc, ex)) # gc_moved floor now n es
      else (k, q, (word_of_nat n, len, pcrc, ex)) # gc_moved floor now (n + raw_len len) es)"

fun gc_bytes :: "bytes \<Rightarrow> u64 option \<Rightarrow> u64 \<Rightarrow> (bytes \<times> u64 \<times> ptr) list \<Rightarrow> bytes" where
  "gc_bytes h floor now [] = []"
| "gc_bytes h floor now ((k, q, (off, len, pcrc, ex)) # es) =
     (if \<not> base_keeps floor now (off, len, pcrc, ex) \<or> len = 0 then gc_bytes h floor now es
      else slice (unat off) (unat off + raw_len len) h @ gc_bytes h floor now es)"

definition readable :: "env \<Rightarrow> bytes \<Rightarrow> ptr \<Rightarrow> bool" where
  "readable e h p \<longleftrightarrow> fst (snd p) \<noteq> 0 \<longrightarrow> 0 < raw_len (fst (snd p)) \<and>
     unat (fst p) + raw_len (fst (snd p)) \<le> length h \<and> (\<exists>v. heap_value e h p = Inr v)"

lemma readable_slice:
  assumes "readable e h (off, len, pcrc, ex)" and "len \<noteq> 0"
  shows "length (slice (unat off) (unat off + raw_len len) h) = raw_len len"
    and "crc_of e (slice (unat off) (unat off + raw_len len) h) = pcrc"
  using assms by (auto simp: readable_def heap_value_def Let_def slice_def split: if_splits)

lemma gc_rewrite_result:
  "\<forall>x \<in> set es. readable e h (snd (snd x)) \<Longrightarrow>
     gc_rewrite e h (floor \<noteq> None) now es acc =
       Inr (map (\<lambda>(k, q, p). make_record e k q p) (gc_moved floor now (length acc) es), acc @ gc_bytes h floor now es)"
proof (induction e h "floor \<noteq> None" now es acc rule: gc_rewrite.induct)
  case (2 e h now k q off len pcrc ex es acc)
  have r: "readable e h (off, len, pcrc, ex)" and es: "\<forall>x \<in> set es. readable e h (snd (snd x))"
    using 2(5) by simp_all
  show ?case
  proof (cases "len = 0")
    case True
    then show ?thesis using 2(1,2) [OF True] es by (cases "floor = None") (auto simp: base_keeps_def)
  next
    case F: False
    show ?thesis
    proof (cases "base_keeps floor now (off, len, pcrc, ex)")
      case False
      then show ?thesis using 2(3) [OF F _ es] F by (auto simp: base_keeps_def)
    next
      case True
      have ne: "\<not> (expired now ex \<and> \<not> floor \<noteq> None)" using True F by (auto simp: base_keeps_def)
      have bd: "unat off + raw_len len \<le> length h" using r F by (simp add: readable_def)
      note sl = readable_slice [OF r F]
      from 2(4) [OF F ne refl refl refl _ _ es] show ?thesis
        using F ne True bd sl by (auto simp: Let_def add.commute)
    qed
  qed
qed simp

text \<open>Each kept version keeps its key, sequence, length, checksum and expiry, and its value.\<close>

definition moved :: "env \<Rightarrow> bytes \<Rightarrow> bytes \<Rightarrow> bytes \<times> u64 \<times> ptr \<Rightarrow> bytes \<times> u64 \<times> ptr \<Rightarrow> bool" where
  "moved e h h' x x' \<longleftrightarrow> fst x' = fst x \<and> fst (snd x') = fst (snd x) \<and> snd (snd (snd x')) = snd (snd (snd x)) \<and>
     (fst (snd (snd (snd x))) \<noteq> 0 \<longrightarrow> heap_value e h' (snd (snd x')) = heap_value e h (snd (snd x)))"

definition placed :: "nat \<Rightarrow> nat \<Rightarrow> ptr \<Rightarrow> bool" where
  "placed lo hi p \<longleftrightarrow> fst (snd p) \<noteq> 0 \<longrightarrow>
     0 < raw_len (fst (snd p)) \<and> lo \<le> unat (fst p) \<and> unat (fst p) + raw_len (fst (snd p)) \<le> hi"

definition stored_offsets :: "(bytes \<times> u64 \<times> ptr) list \<Rightarrow> u64 list" where
  "stored_offsets es = map (\<lambda>x. fst (snd (snd x))) (filter (\<lambda>x. fst (snd (snd (snd x))) \<noteq> 0) es)"

lemma placed_mono: "placed lo hi p \<Longrightarrow> lo' \<le> lo \<Longrightarrow> placed lo' hi p"
  by (auto simp: placed_def)

lemma stored_offsets_mem: "o1 \<in> set (stored_offsets es) \<longleftrightarrow> (\<exists>x \<in> set es. fst (snd (snd (snd x))) \<noteq> 0 \<and> o1 = fst (snd (snd x)))"
  by (auto simp: stored_offsets_def)

lemma heap_value_moved:
  assumes "length acc < 2 ^ 63" and "slice (unat off) (unat off + n) h = b" "length b = n" "unat off + n \<le> length h"
    and "n = raw_len len" "0 < n"
  shows "heap_value e (acc @ b @ rest) (word_of_nat (length acc), len, pcrc, ex) = heap_value e h (off, len, pcrc, ex)"
proof -
  have u: "unat (word_of_nat (length acc) :: u64) = length acc" using assms(1) by (rule unat_small)
  have "slice (length acc) (length acc + n) (acc @ b @ rest) = b" using assms(3) by (simp add: slice_def)
  then show ?thesis using assms by (simp add: heap_value_def u Let_def)
qed

lemma gc_moved_ok:
  "\<forall>x \<in> set es. readable e h (snd (snd x)) \<Longrightarrow> length acc + length (gc_bytes h floor now es) < 2 ^ 63 \<Longrightarrow>
   n = length acc \<Longrightarrow> h' = acc @ gc_bytes h floor now es \<Longrightarrow>
     list_all2 (moved e h h') (filter (\<lambda>x. base_keeps floor now (snd (snd x))) es) (gc_moved floor now n es) \<and>
     (\<forall>x \<in> set (gc_moved floor now n es). placed n (length h') (snd (snd x))) \<and>
     distinct (stored_offsets (gc_moved floor now n es))"
proof (induction floor now n es arbitrary: acc rule: gc_moved.induct)
  case (1 floor now n)
  then show ?case by (simp add: stored_offsets_def)
next
  case (2 floor now n k q off len pcrc ex es)
  have r: "readable e h (off, len, pcrc, ex)" and es: "\<forall>x \<in> set es. readable e h (snd (snd x))" using "2.prems" by simp_all
  consider (drop) "\<not> base_keeps floor now (off, len, pcrc, ex)"
    | (del) "base_keeps floor now (off, len, pcrc, ex)" "len = 0"
    | (mv) "base_keeps floor now (off, len, pcrc, ex)" "len \<noteq> 0" by blast
  then show ?case
  proof cases
    case drop
    then show ?thesis using "2.IH"(1) [OF drop es _ "2.prems"(3)] "2.prems" by simp
  next
    case del
    then have "\<not> \<not> base_keeps floor now (off, len, pcrc, ex)" by simp
    note IH = "2.IH"(2) [OF this del(2) es _ "2.prems"(3)]
    moreover have "moved e h h' (k, q, off, 0, pcrc, ex) (k, q, 0, 0, pcrc, ex)" by (simp add: moved_def)
    ultimately show ?thesis using del "2.prems" by (simp add: placed_def stored_offsets_def)
  next
    case mv
    let ?b = "slice (unat off) (unat off + raw_len len) h"
    have nk: "\<not> \<not> base_keeps floor now (off, len, pcrc, ex)" using mv by simp
    note sl = readable_slice [OF r mv(2)]
    have rb: "0 < raw_len len" "unat off + raw_len len \<le> length h" using r mv(2) by (simp_all add: readable_def)
    have gb: "gc_bytes h floor now ((k, q, off, len, pcrc, ex) # es) = ?b @ gc_bytes h floor now es" using mv by simp
    have h': "h' = (acc @ ?b) @ gc_bytes h floor now es" using "2.prems"(4) gb by simp
    have lt: "length acc < 2 ^ 63" using "2.prems"(2) by simp
    have u: "unat (word_of_nat n :: u64) = n" using lt "2.prems"(3) unat_small by simp
    have tot: "length (acc @ ?b) + length (gc_bytes h floor now es) < 2 ^ 63" using "2.prems"(2) unfolding gb by simp
    note IH = "2.IH"(3) [OF nk mv(2) es _ _ h']
    have IH': "list_all2 (moved e h h') (filter (\<lambda>x. base_keeps floor now (snd (snd x))) es) (gc_moved floor now (n + raw_len len) es)"
      "\<forall>x \<in> set (gc_moved floor now (n + raw_len len) es). placed (n + raw_len len) (length h') (snd (snd x))"
      "distinct (stored_offsets (gc_moved floor now (n + raw_len len) es))"
      using IH [OF tot] "2.prems"(3) sl(1) by simp_all
    have hv: "heap_value e h' (word_of_nat n, len, pcrc, ex) = heap_value e h (off, len, pcrc, ex)"
      using heap_value_moved [OF lt refl sl(1) rb(2) refl rb(1), of e "gc_bytes h floor now es" pcrc ex] "2.prems"(3) h' by simp
    have fresh: "word_of_nat n \<notin> set (stored_offsets (gc_moved floor now (n + raw_len len) es))"
    proof
      assume "word_of_nat n \<in> set (stored_offsets (gc_moved floor now (n + raw_len len) es))"
      then obtain x where x: "x \<in> set (gc_moved floor now (n + raw_len len) es)" "fst (snd (snd (snd x))) \<noteq> 0"
        "word_of_nat n = fst (snd (snd x))" unfolding stored_offsets_mem by blast
      then have "n + raw_len len \<le> unat (fst (snd (snd x)))" using IH'(2) [rule_format, OF x(1)] by (simp add: placed_def)
      then show False using x(3) [symmetric] u rb(1) by simp
    qed
    have "\<forall>x \<in> set (gc_moved floor now (n + raw_len len) es). placed n (length h') (snd (snd x))"
      using IH'(2) placed_mono le_add1 by blast
    moreover have "placed n (length h') (word_of_nat n, len, pcrc, ex)"
      using rb sl(1) u "2.prems"(3) h' by (simp add: placed_def)
    moreover have "moved e h h' (k, q, off, len, pcrc, ex) (k, q, word_of_nat n, len, pcrc, ex)" using hv by (simp add: moved_def)
    ultimately show ?thesis
      using mv IH'(1,3) fresh by (simp add: stored_offsets_def)
  qed
qed

section \<open>Garbage collection changes no protected read\<close>

abbreviation entry_id :: "'k \<times> 'q \<times> 'p \<Rightarrow> 'k \<times> 'q" where
  "entry_id x \<equiv> (fst x, fst (snd x))"

lemma retained_order:
  assumes "merged_wf M"
  shows "sorted (map fst (retained floor M)) \<and> distinct (map entry_id (retained floor M)) \<and>
    fst ` set (retained floor M) \<subseteq> fst ` set M"
  using assms
proof (induction M)
  case (Cons x M)
  obtain k vs where x: "x = (k, vs)" by (cases x)
  let ?vs = "retain_versions_needed_by_floor vs floor"
  have wf: "merged_wf M" "om_wf vs" and lt: "\<forall>y \<in> set M. k < fst y" using Cons.prems by (auto simp: merged_wf_def om_wf_def x)
  have IH: "sorted (map fst (retained floor M))" "distinct (map entry_id (retained floor M))"
    "fst ` set (retained floor M) \<subseteq> fst ` set M" using Cons.IH [OF wf(1)] by blast+
  have eq: "retained floor (x # M) = map (\<lambda>(q, p). (k, q, p)) ?vs @ retained floor M" by (simp add: retained_def x)
  have gt: "k < fst y" if "y \<in> set (retained floor M)" for y using IH(3) lt that by force
  have "map entry_id (map (\<lambda>(q, p). (k, q, p)) ?vs) = map (\<lambda>q. (k, q)) (map fst ?vs)" by (simp add: split_def)
  moreover have "distinct (map fst ?vs)" by (rule om_wf_distinct [OF retain_wf [OF wf(2)]])
  ultimately have d: "distinct (map entry_id (map (\<lambda>(q, p). (k, q, p)) ?vs))" by (simp add: distinct_map inj_on_def)
  have f: "map fst (map (\<lambda>(q, p). (k, q, p)) ?vs) = replicate (length ?vs) k"
    by (simp add: map_replicate_const [symmetric] split_def)
  show ?case
  proof (intro conjI)
    show "sorted (map fst (retained floor (x # M)))"
      unfolding eq map_append f using IH(1) gt by (force simp: sorted_append)
    show "distinct (map entry_id (retained floor (x # M)))"
      unfolding eq map_append using d IH(2) gt by force
    show "fst ` set (retained floor (x # M)) \<subseteq> fst ` set (x # M)"
      unfolding eq using IH(3) by (auto simp: x)
  qed
qed (simp add: retained_def)

lemma merge_levels_agree:
  assumes "\<And>l l' q p p'. l \<in> set ls \<Longrightarrow> l' \<in> set ls \<Longrightarrow> l q = Some p \<Longrightarrow> l' q = Some p' \<Longrightarrow> p = p'"
  shows "merge_levels ls q = Some p \<longleftrightarrow> (\<exists>l \<in> set ls. l q = Some p)"
  using assms
proof (induction ls)
  case (Cons l ls)
  have IH: "merge_levels ls q = Some p \<longleftrightarrow> (\<exists>l \<in> set ls. l q = Some p)"
    by (rule Cons.IH) (use Cons.prems in \<open>metis list.set_intros(2)\<close>)
  show ?case
  proof (cases "l q")
    case None
    then show ?thesis using IH by (auto simp: map_add_def)
  next
    case (Some p')
    then have "p = p'" if "l' \<in> set ls" "l' q = Some p" for l'
      using Cons.prems [of l' l q p p'] that by simp
    then show ?thesis using Some by (auto simp: map_add_def)
  qed
qed simp

lemma merge_levels_perm:
  assumes "sorted_wrt above ls" and "set ls' = set ls"
  shows "merge_levels ls' = merge_levels ls"
proof (rule ext, rule option_eqI)
  fix q p
  have agree: "p1 = p2" if "l1 \<in> set ls'" "l2 \<in> set ls'" "l1 q = Some p1" "l2 q = Some p2" for l1 l2 q p1 p2
  proof -
    have "merge_levels ls q = Some p1" "merge_levels ls q = Some p2"
      using merge_levels_iff [OF assms(1)] that assms(2) by blast+
    then show ?thesis by simp
  qed
  have "merge_levels ls' q = Some p \<longleftrightarrow> (\<exists>l \<in> set ls'. l q = Some p)" by (rule merge_levels_agree) (rule agree)
  then show "merge_levels ls' q = Some p \<longleftrightarrow> merge_levels ls q = Some p"
    using merge_levels_iff [OF assms(1), of q p] assms(2) by simp
qed

definition gc_merged :: "env \<Rightarrow> OmniKV \<Rightarrow> merged" where
  "gc_merged e db = (case merge_tables e ([base_mmap (roots db)] @ map fst (sstables (roots db)) @ map fst (l1_sstables (roots db))) [] of
     Inl _ \<Rightarrow> [] | Inr T \<Rightarrow> merge_records (memtable_records e (memtable (roots db))) T)"

definition gc_fits :: "env \<Rightarrow> u64 \<Rightarrow> OmniKV \<Rightarrow> bool" where
  "gc_fits e now db \<longleftrightarrow> (let floor = compaction_retention_floor db; es = retained floor (gc_merged e db) in
     fits (map (\<lambda>(k, q, p). make_record e k q p) (gc_moved floor now 0 es)) \<and> length (gc_bytes (heap db) floor now es) < 2 ^ 63)"

lemma readable_live: "db_ok e db \<Longrightarrow> p \<in> live e (roots db) \<Longrightarrow> readable e (heap db) p"
  using db_okD(2,4) [of e db] unfolding ptr_ok_def readable_def by fastforce

lemma moved_cell:
  assumes "moved e h h' x x'"
  shows "cell_of e h' (snd (snd x')) = cell_of e h (snd (snd x))"
proof -
  have "snd (snd (snd x')) = snd (snd (snd x))" using assms by (simp add: moved_def)
  then show ?thesis
    using assms unfolding moved_def cell_of_def by (cases x; cases x') auto
qed

lemma distinct_filter_inj:
  "distinct (map f (filter P xs)) \<Longrightarrow> x \<in> set xs \<Longrightarrow> y \<in> set xs \<Longrightarrow> P x \<Longrightarrow> P y \<Longrightarrow> f x = f y \<Longrightarrow> x = y"
  by (auto simp: distinct_map inj_on_def)

lemma list_all2_left: "list_all2 P xs ys \<Longrightarrow> y \<in> set ys \<Longrightarrow> \<exists>x \<in> set xs. P x y"
  by (induction rule: list_all2_induct) auto

lemma list_all2_right: "list_all2 P xs ys \<Longrightarrow> x \<in> set xs \<Longrightarrow> \<exists>y \<in> set ys. P x y"
  by (induction rule: list_all2_induct) auto

text \<open>A database whose only level is a table of moved entries.\<close>

lemma moved_db_ok:
  assumes ok: "db_ok e db"
    and sub_all: "\<forall>x \<in> set es. db_versions e (roots db) (fst x) (fst (snd x)) = Some (snd (snd x))"
    and d: "distinct (map entry_id es)"
    and mv: "list_all2 (moved e (heap db) h') es es'" and pl: "\<forall>x \<in> set es'. placed 0 (length h') (snd (snd x))"
    and so: "distinct (stored_offsets es')" and len: "length h' < 2 ^ 63"
    and db': "roots_ok e (roots db')" "heap db' = h'" "heap_durable db' = length h'" "heap_offset db' = word_of_nat (length h')"
      "block_cache db' = Map.empty" "global_seq db' = global_seq db"
    and ver_all: "\<forall>k q p. db_versions e (roots db') k q = Some p \<longleftrightarrow> (k, q, p) \<in> set es'"
  shows "db_ok e db'"
    and "db_cells e db' k q = (case map_of (map (\<lambda>x. (entry_id x, snd (snd x))) es) (k, q) of
      None \<Rightarrow> None | Some p \<Rightarrow> Some (cell_of e (heap db) p))"
proof -
  have sub: "db_versions e (roots db) (fst x) (fst (snd x)) = Some (snd (snd x))" if "x \<in> set es" for x
    by (rule bspec [OF sub_all that])
  have ver: "db_versions e (roots db') k q = Some p \<longleftrightarrow> (k, q, p) \<in> set es'" for k q p by (rule ver_all [rule_format])
  have src: "\<exists>x \<in> set es. moved e (heap db) h' x x'" if "x' \<in> set es'" for x'
    by (rule list_all2_left [OF mv that])
  have tgt: "\<exists>x' \<in> set es'. moved e (heap db) h' x x'" if "x \<in> set es" for x
    by (rule list_all2_right [OF mv that])
  have liv: "\<exists>k q. (k, q, p) \<in> set es'" if "p \<in> live e (roots db')" for p
    using that unfolding live_def ver by blast
  have inj: "x = y" if xy: "x \<in> set es'" "y \<in> set es'" "fst (snd (snd (snd x))) \<noteq> 0" "fst (snd (snd (snd y))) \<noteq> 0"
    "fst (snd (snd x)) = fst (snd (snd y))" for x y
    by (rule distinct_filter_inj [OF so [unfolded stored_offsets_def] xy])
  have uoff: "unat (word_of_nat (length h') :: u64) = length h'" using len by (rule unat_small)
  have "ptr_ok e db' p" if p: "p \<in> live e (roots db')" for p
  proof (cases "fst (snd p) = 0")
    case False
    obtain k q where x': "(k, q, p) \<in> set es'" using liv [OF p] by blast
    then obtain x where x: "x \<in> set es" "moved e (heap db) h' x (k, q, p)" using src by blast
    have eq: "snd (snd (snd x)) = snd p" using x(2) by (simp add: moved_def)
    have "snd (snd x) \<in> live e (roots db)" unfolding live_def using sub [OF x(1)] by blast
    then obtain v where "heap_value e (heap db) (snd (snd x)) = Inr v"
      using db_okD(4) [OF ok] False eq unfolding ptr_ok_def by metis
    then have "heap_value e h' p = Inr v" using x(2) False eq by (simp add: moved_def)
    moreover have "placed 0 (length h') p" using pl x' by force
    ultimately show ?thesis using False by (simp add: ptr_ok_def placed_def db' uoff)
  qed (simp add: ptr_ok_def)
  moreover have "same_values e h' (live e (roots db'))"
    unfolding same_values_def
  proof (intro ballI impI, elim conjE)
    fix p p' assume "p \<in> live e (roots db')" "p' \<in> live e (roots db')" and pp: "fst (snd p) \<noteq> 0" "fst (snd p') \<noteq> 0" "fst p = fst p'"
    then obtain k q k' q' where "(k, q, p) \<in> set es'" "(k', q', p') \<in> set es'" using liv by blast
    then have "(k, q, p) = (k', q', p')" using pp by (intro inj) simp_all
    then show "heap_value e h' p = heap_value e h' p'" by simp
  qed
  moreover have "utf8_valid k \<and> length k < 65536 \<and> 0 < q \<and> q < global_seq db'"
    if v: "db_versions e (roots db') k q = Some p" for k q p
  proof -
    obtain x where x: "x \<in> set es" "moved e (heap db) h' x (k, q, p)" using v src unfolding ver by blast
    then have "fst x = k" "fst (snd x) = q" by (simp_all add: moved_def)
    then show ?thesis using db_okD(3) [OF ok sub [OF x(1)]] by (simp add: db')
  qed
  ultimately show "db_ok e db'" using db' db_okD(7) [OF ok] unfolding db_ok_def by simp
  show "db_cells e db' k q = (case map_of (map (\<lambda>x. (entry_id x, snd (snd x))) es) (k, q) of
      None \<Rightarrow> None | Some p \<Rightarrow> Some (cell_of e (heap db) p))"
  proof (cases "map_of (map (\<lambda>x. (entry_id x, snd (snd x))) es) (k, q)")
    case None
    have "db_versions e (roots db') k q = None"
    proof (rule ccontr)
      assume "db_versions e (roots db') k q \<noteq> None"
      then obtain p where "(k, q, p) \<in> set es'" using ver by blast
      then obtain x where "x \<in> set es" "moved e (heap db) h' x (k, q, p)" using src by blast
      then have "x \<in> set es" "entry_id x = (k, q)" by (simp_all add: moved_def)
      then show False using None by (force simp: map_of_eq_None_iff)
    qed
    then show ?thesis using None by (simp add: db_cells_def)
  next
    case (Some p)
    then obtain x where x: "x \<in> set es" "entry_id x = (k, q)" "snd (snd x) = p" by (auto dest!: map_of_SomeD)
    obtain x' where x': "x' \<in> set es'" "moved e (heap db) h' x x'" using tgt [OF x(1)] by blast
    have "fst x' = k" "fst (snd x') = q" using x'(2) x(2) by (simp_all add: moved_def)
    then have "(k, q, snd (snd x')) = x'" by (metis prod.collapse)
    then have "(k, q, snd (snd x')) \<in> set es'" using x'(1) by simp
    then have "db_versions e (roots db') k q = Some (snd (snd x'))" using ver by blast
    then show ?thesis using Some moved_cell [OF x'(2)] x(3) by (simp add: db_cells_def db')
  qed
qed

lemma map_of_entries:
  "distinct (map entry_id es) \<Longrightarrow>
     map_of (map (\<lambda>x. (entry_id x, snd (snd x))) es) (k, q) = Some p \<longleftrightarrow> (k, q, p) \<in> set es"
proof -
  assume d: "distinct (map entry_id es)"
  have "map_of (map (\<lambda>x. (entry_id x, snd (snd x))) es) (k, q) = Some p \<longleftrightarrow>
      ((k, q), p) \<in> set (map (\<lambda>x. (entry_id x, snd (snd x))) es)"
    using d by (intro map_of_eq_Some_iff) (simp add: comp_def)
  also have "\<dots> \<longleftrightarrow> (k, q, p) \<in> set es" by force
  finally show ?thesis .
qed

lemma entry_ids_moved: "list_all2 (moved e h h') es es' \<Longrightarrow> map entry_id es' = map entry_id es"
  by (induction rule: list_all2_induct) (simp_all add: moved_def)

lemma distinct_ids_functional: "distinct (map entry_id es) \<Longrightarrow> entries_functional es"
  by (rule entries_functionalI [where f = "\<lambda>k q. map_of (map (\<lambda>x. (entry_id x, snd (snd x))) es) (k, q)"])
    (simp add: map_of_entries)

text \<open>The merge that garbage collection starts from is the whole database when no memtable holds
  anything.\<close>

lemma gc_merge:
  assumes ok: "db_ok e db" and m: "memtable (roots db) = mem_empty" "frozen_memtables (roots db) = []"
  shows "\<exists>T. merge_tables e ([base_mmap (roots db)] @ map fst (sstables (roots db)) @ map fst (l1_sstables (roots db))) [] = Inr T \<and>
      merge_records (memtable_records e (memtable (roots db))) T = T \<and> gc_merged e db = T"
    and "merged_wf (gc_merged e db)" and "merged_versions (gc_merged e db) k = db_versions e (roots db) k"
proof -
  let ?r = "roots db" let ?hs = "base_handle ?r # sstables ?r @ l1_sstables ?r"
  have rok: "roots_ok e ?r" by (rule db_okD(1) [OF ok])
  have hs: "\<forall>h \<in> set ?hs. handle_ok e h" using rok by (auto simp: roots_ok_def)
  obtain T where T: "merge_tables e (map fst ?hs) [] = Inr T" "merged_wf T"
    "\<And>k. merged_versions T k = merge_levels (map (\<lambda>h. handle_versions e h k) (rev ?hs))"
    using merge_tables_versions [OF _ hs, of "[]"] by auto
  have mr: "memtable_records e (memtable ?r) = []" by (simp add: memtable_records_def mem_entries_def m mem_empty_def)
  have g: "gc_merged e db = T" using T(1) by (simp add: gc_merged_def mr merge_records_def base_handle_def)
  then show "\<exists>T. merge_tables e ([base_mmap (roots db)] @ map fst (sstables (roots db)) @ map fst (l1_sstables (roots db))) [] = Inr T \<and>
      merge_records (memtable_records e (memtable (roots db))) T = T \<and> gc_merged e db = T"
    using T(1) by (simp add: mr merge_records_def base_handle_def)
  show "merged_wf (gc_merged e db)" using g T(2) by simp
  let ?ls = "map (\<lambda>t. handle_versions e t k) (rev (sstables ?r)) @ map (\<lambda>t. handle_versions e t k) (rev (l1_sstables ?r)) @
     [handle_versions e (base_handle ?r) k]"
  have lv: "levels e ?r k = Map.empty # ?ls" by (simp add: levels_def m fun_eq_iff)
  have "sorted_wrt above (Map.empty # ?ls)" using rok unfolding lv [symmetric] by (simp add: roots_ok_def)
  then have "sorted_wrt above ?ls" by simp
  then have "merge_levels (map (\<lambda>h. handle_versions e h k) (rev ?hs)) = merge_levels ?ls"
    by (rule merge_levels_perm) auto
  then show "merged_versions (gc_merged e db) k = db_versions e ?r k" by (simp add: g T(3) db_versions_def lv)
qed

lemma create_unique_output_frame:
  assumes "create_unique_output tag ext io db = (r, db')"
  shows "\<exists>t. db' = db\<lparr>file_seq := t\<rparr>"
  using assms by (auto simp: create_unique_output_def split: prod.splits)

text \<open>The entries garbage collection rewrites and the state it publishes.\<close>

definition gc_entries :: "env \<Rightarrow> OmniKV \<Rightarrow> (bytes \<times> u64 \<times> ptr) list" where
  "gc_entries e db = retained (compaction_retention_floor db) (gc_merged e db)"

definition gc_published :: "env \<Rightarrow> u64 \<Rightarrow> OmniKV \<Rightarrow> OmniKV \<Rightarrow> bool" where
  "gc_published e now db db' \<longleftrightarrow>
     (let floor = compaction_retention_floor db; es = gc_entries e db; h = gc_bytes (heap db) floor now es;
          rs = map (\<lambda>(k, q, p). make_record e k q p) (gc_moved floor now 0 es) in
      base_mmap (roots db') = sst_bytes rs \<and> bloom_ok (base_bloom (roots db')) rs \<and>
      sstables (roots db') = [] \<and> l1_sstables (roots db') = [] \<and> memtable (roots db') = memtable (roots db) \<and>
      frozen_memtables (roots db') = frozen_memtables (roots db) \<and> heap db' = h \<and> heap_durable db' = length h \<and>
      heap_offset db' = word_of_nat (length h) \<and> block_cache db' = Map.empty \<and> global_seq db' = global_seq db)"

lemma gc_entries_readable:
  assumes "db_ok e db" "memtable (roots db) = mem_empty" "frozen_memtables (roots db) = []" "x \<in> set (gc_entries e db)"
  shows "db_versions e (roots db) (fst x) (fst (snd x)) = Some (snd (snd x))" "readable e (heap db) (snd (snd x))"
proof -
  note M = gc_merge(2,3) [OF assms(1-3)]
  have "retained_versions (compaction_retention_floor db) (gc_merged e db) (fst x) (fst (snd x)) = Some (snd (snd x))"
    using assms(4) retained_mem [OF M(1), of "fst x" "fst (snd x)" "snd (snd x)"] by (simp add: gc_entries_def)
  then show v: "db_versions e (roots db) (fst x) (fst (snd x)) = Some (snd (snd x))"
    using submapD [OF retained_submap [OF M(1)]] M(2) by metis
  then have "snd (snd x) \<in> live e (roots db)" unfolding live_def by blast
  then show "readable e (heap db) (snd (snd x))" by (rule readable_live [OF assms(1)])
qed

lemma gc_cases:
  assumes ok: "db_ok e db" and e: "zero_crc_ok e"
    and m: "memtable (roots db) = mem_empty" "frozen_memtables (roots db) = []"
    and c: "run_garbage_collection e io db = (r, db')"
  obtains x where "r = Inl x" and "roots db' = roots db" and "same_store db' db"
  | "r = Inr ()" and "gc_published e (now_secs io) db db'"
proof -
  let ?f = "compaction_retention_floor db" let ?es = "gc_entries e db"
  let ?h = "gc_bytes (heap db) ?f (now_secs io) ?es"
  define rs where "rs = map (\<lambda>(k, q, p). make_record e k q p) (gc_moved ?f (now_secs io) 0 ?es)"
  obtain T where T: "merge_tables e ([base_mmap (roots db)] @ map fst (sstables (roots db)) @ map fst (l1_sstables (roots db))) [] = Inr T"
    "merge_records (memtable_records e (memtable (roots db))) T = T" "gc_merged e db = T" using gc_merge(1) [OF ok m] by blast
  obtain r1 db1 where c1: "create_unique_output ''_heap_compacted_'' ''.bin'' io db = (r1, db1)" by force
  obtain t1 where db1: "db1 = db\<lparr>file_seq := t1\<rparr>" using create_unique_output_frame [OF c1] by blast
  obtain r2 db2 where c2: "create_unique_output ''_database_compacted_'' ''.bin'' io db1 = (r2, db2)" by force
  obtain t2 where db2: "db2 = db\<lparr>file_seq := t2\<rparr>" using create_unique_output_frame [OF c2] by (auto simp: db1)
  have gc: "gc_rewrite e (heap db) (?f \<noteq> None) (now_secs io) (retained ?f T) [] = Inr (rs, ?h)"
    using gc_rewrite_result [of ?es e "heap db" ?f "now_secs io" "[]"] gc_entries_readable(2) [OF ok m]
    by (simp add: gc_entries_def T(3) rs_def)
  obtain bf where bf: "build_bloom e (length T) rs = Inr bf" "bloom_ok bf rs" by (rule build_bloom_ok [OF e])
  define man where "man = (\<lambda>heap' base'. (manifest (roots db))\<lparr>heap_path := heap', base_path := base', m_sstables := [], m_l1_sstables := []\<rparr>)"
  have st: "same_store (db\<lparr>file_seq := t\<rparr>) db" for t by (simp add: same_store_def)
  show thesis
  proof (cases r1)
    case (Inl x)
    then have "r = Inl x" "db' = db1" using c T c1 by (simp_all add: run_garbage_collection_def Let_def)
    then show thesis by (intro that(1)) (simp_all add: db1 st)
  next
    case (Inr heap')
    note c1 = c1 [unfolded Inr]
    show thesis
    proof (cases r2)
      case (Inl x)
      then have "r = Inl x" "db' = db2" using c T c1 c2 by (simp_all add: run_garbage_collection_def Let_def)
      then show thesis by (intro that(1)) (simp_all add: db2 st)
    next
      case (Inr base')
      note c2 = c2 [unfolded Inr]
      obtain v db3 where v: "save_manifest (save_io io) (man heap' base') db2 = (v, db3)" by force
      obtain mf where db3: "db3 = db2\<lparr>manifest_file := mf\<rparr>" using save_manifest_frame [OF v] by blast
      show thesis
      proof (cases "table_io io \<and> mmap_io io \<and> bloom_io io \<and> v = Inr ()")
        case True
        then have "r = Inr ()" "gc_published e (now_secs io) db db'"
          using c T c1 c2 gc bf v
          by (auto simp: run_garbage_collection_def gc_published_def Let_def man_def rs_def [symmetric] db3 db2)
        then show thesis by (rule that(2))
      next
        case False
        then obtain x where "r = Inl x" "db' = db2 \<or> db' = db3"
          using c T c1 c2 gc bf(1) v by (auto simp: run_garbage_collection_def Let_def man_def split: sum.splits if_splits)
        then show thesis by (intro that(1)) (auto simp: db3 db2 st)
      qed
    qed
  qed
qed

lemma sorted_entries_table:
  assumes "sorted (map fst es)" and "distinct (map entry_id es)" and "\<forall>x \<in> set es. length (fst x) < 65536"
    and "fits (map (\<lambda>(k, q, p). make_record e k q p) es)"
  shows "table_ok (crc_of e) (map (\<lambda>(k, q, p). make_record e k q p) es)"
    and "rec_functional (map (\<lambda>(k, q, p). make_record e k q p) es)"
    and "rec_versions (map (\<lambda>(k, q, p). make_record e k q p) es) k q = Some p \<longleftrightarrow> (k, q, p) \<in> set es"
proof -
  have "map key (map (\<lambda>(k, q, p). make_record e k q p) es) = map fst es" by (simp add: split_def)
  then have eq: "merged_records e es = map (\<lambda>(k, q, p). make_record e k q p) es"
    using assms(1) unfolding merged_records_def by (intro sort_key_id_if_sorted) metis
  note t = merged_records_table [OF distinct_ids_functional [OF assms(2)] assms(3) assms(4) [folded eq], unfolded eq]
  show "table_ok (crc_of e) (map (\<lambda>(k, q, p). make_record e k q p) es)"
    "rec_functional (map (\<lambda>(k, q, p). make_record e k q p) es)" by (rule t)+
  show "rec_versions (map (\<lambda>(k, q, p). make_record e k q p) es) k q = Some p \<longleftrightarrow> (k, q, p) \<in> set es" by (rule t)
qed

lemma sorted_filter_fst: "sorted (map fst xs) \<Longrightarrow> sorted (map fst (filter P xs))"
  by (induction xs) auto

lemma distinct_filter_map: "distinct (map f xs) \<Longrightarrow> distinct (map f (filter P xs))"
  by (induction xs) auto

lemma gc_reads:
  assumes ok: "db_ok e db" and m: "memtable (roots db) = mem_empty" "frozen_memtables (roots db) = []"
    and fit: "gc_fits e now db" and pub: "gc_published e now db db'"
    and s: "floor_ok (compaction_retention_floor db) s" and now: "now \<le> now'"
  shows "db_ok e db' \<and> spec_read (db_cells e db') now' k s = spec_read (db_cells e db) now' k s"
proof -
  let ?f = "compaction_retention_floor db" let ?M = "gc_merged e db" let ?es = "gc_entries e db"
  let ?K = "\<lambda>x. base_keeps ?f now (snd (snd x))" let ?es' = "gc_moved ?f now 0 ?es" let ?h = "gc_bytes (heap db) ?f now ?es"
  define rs where "rs = map (\<lambda>(k, q, p). make_record e k q p) ?es'"
  note M = gc_merge(2,3) [OF ok m] and rd = gc_entries_readable [OF ok m]
  have fits: "fits rs" "length ?h < 2 ^ 63" using fit by (simp_all add: gc_fits_def gc_entries_def rs_def Let_def)
  have P: "base_mmap (roots db') = sst_bytes rs" "bloom_ok (base_bloom (roots db')) rs" "sstables (roots db') = []"
    "l1_sstables (roots db') = []" "memtable (roots db') = mem_empty" "frozen_memtables (roots db') = []" "heap db' = ?h"
    "heap_durable db' = length ?h" "heap_offset db' = word_of_nat (length ?h)" "block_cache db' = Map.empty"
    "global_seq db' = global_seq db"
    using pub m by (simp_all add: gc_published_def rs_def Let_def)
  have mv: "list_all2 (moved e (heap db) ?h) (filter ?K ?es) ?es'" "\<forall>x \<in> set ?es'. placed 0 (length ?h) (snd (snd x))"
    "distinct (stored_offsets ?es')"
    using gc_moved_ok [of ?es e "heap db" "[]" ?f now 0 ?h] rd(2) fits(2) by simp_all
  note ord = retained_order [OF M(1), of ?f, folded gc_entries_def]
  have ids: "map entry_id ?es' = map entry_id (filter ?K ?es)" by (rule entry_ids_moved [OF mv(1)])
  have d: "distinct (map entry_id (filter ?K ?es))" 
    by (rule distinct_filter_map) (rule ord [THEN conjunct2, THEN conjunct1])
  have fs: "map fst ?es' = map fst (filter ?K ?es)" using arg_cong [OF ids, of "map fst"] by (simp add: comp_def)
  have srt: "sorted (map fst ?es')" unfolding fs by (rule sorted_filter_fst) (rule ord [THEN conjunct1])
  have kl: "\<forall>x \<in> set ?es'. length (fst x) < 65536"
  proof
    fix x assume "x \<in> set ?es'"
    then obtain y where "y \<in> set (filter ?K ?es)" "moved e (heap db) ?h y x" using list_all2_left [OF mv(1)] by blast
    then have "y \<in> set ?es" "fst x = fst y" by (simp_all add: moved_def)
    then show "length (fst x) < 65536" using db_okD(3) [OF ok rd(1)] by simp
  qed
  have dt: "distinct (map entry_id ?es')" unfolding ids by (rule d)
  note t = sorted_entries_table [OF srt dt kl fits(1) [unfolded rs_def], folded rs_def]
  have tr: "table_records e (sst_bytes rs) = rs" using sst_iter_records [OF t(1), of 0] by (simp add: table_records_def)
  have "table_data e (sst_bytes rs)" using t(1,2) fits(1) unfolding table_data_def fits_def by blast
  then have bh: "handle_ok e (base_handle (roots db'))" using P(1,2) by (simp add: base_handle_def handle_ok_def tr)
  have lv: "levels e (roots db') k = [Map.empty, rec_versions rs k]" for k
    by (simp add: levels_def P base_handle_def handle_versions_def tr fun_eq_iff)
  have r: "roots_ok e (roots db')" unfolding roots_ok_def lv using bh by (simp add: P)
  have ver: "\<forall>k q p. db_versions e (roots db') k q = Some p \<longleftrightarrow> (k, q, p) \<in> set ?es'"
    unfolding db_versions_def lv using t(3) by simp
  have sub: "\<forall>x \<in> set (filter ?K ?es). db_versions e (roots db) (fst x) (fst (snd x)) = Some (snd (snd x))"
    using rd(1) by simp
  note G = moved_db_ok [OF ok sub d mv fits(2) r P(7-11) ver]
  define n where "n = (\<lambda>q. map_of (map (\<lambda>x. (entry_id x, snd (snd x))) (filter ?K ?es)) (k, q))"
  have nq: "n q = Some p \<longleftrightarrow> retained_versions ?f ?M k q = Some p \<and> base_keeps ?f now p" for q p
    unfolding n_def map_of_entries [OF d] using retained_mem [OF M(1), of k q p ?f] by (simp add: gc_entries_def)
  have cells: "db_cells e db' k = (\<lambda>q. map_option (cell_of e (heap db)) (n q))"
    unfolding n_def G(2) by (rule ext) (simp add: map_option_case)
  have new: "visible (db_cells e db' k) s = map_option (cell_of e (heap db))
      (case visible (db_versions e (roots db) k) s of None \<Rightarrow> None | Some p \<Rightarrow> if base_keeps ?f now p then Some p else None)"
    unfolding cells visible_map kept_visible [OF M(1) s nq] M(2) ..
  have "spec_read (db_cells e db') now' k s = spec_read (db_cells e db) now' k s"
    unfolding spec_read_def new unfolding visible_cells
    using dropped_reads_nothing [of ?f now _ now' e "heap db"] now by (auto split: option.split prod.split)
  then show ?thesis using G(1) by simp
qed

lemma gc_ok:
  assumes "db_ok e db" and "zero_crc_ok e" and "memtable (roots db) = mem_empty" "frozen_memtables (roots db) = []"
    and "gc_fits e (now_secs io) db" and "run_garbage_collection e io db = (r, db')"
    and "floor_ok (compaction_retention_floor db) s" and "now_secs io \<le> now"
  shows "db_ok e db' \<and> spec_read (db_cells e db') now k s = spec_read (db_cells e db) now k s"
  using assms(1-4,6)
proof (cases rule: gc_cases)
  case (1 x)
  then show ?thesis using same_roots_ok [OF assms(1), of db'] by simp
next
  case 2
  then show ?thesis using gc_reads [OF assms(1,3-5) _ assms(7,8)] by blast
qed

end
