(* ===== verification/Compaction_Props.thy ===== *)
theory Compaction_Props
  imports Compaction_Base
begin

text \<open>
  What clients can rely on across compaction: the properties of the flush and the two merges as
  statements about lookups, each with a concrete run.
\<close>

section \<open>A small database\<close>

definition demo_cio :: compact_io where
  "demo_cio = \<lparr>rotate_ok = True, clock_ms = (\<lambda>_. 0), create_ok = True, table_io = True, bloom_io = True,
     mmap_io = True, save_io = Saved, now_secs = 0\<rparr>"

lemma create_attempts_first: "\<not> ex (path tok) \<Longrightarrow> create_attempts (Suc n) path ex True tok = (Inr (path tok), tok + 1)"
  by simp

lemma install_demo:
  assumes "files db = Map.empty"
  obtains bf path m db' where "install_table demo_env demo_cio tag rs listing update db = (Inr (), db')"
    and "roots db' = update (sst_bytes rs, bf, path) m (roots db)" and "same_store db' db" and "bloom_ok bf rs"
    and "active_snapshots db' = active_snapshots db" and "replica_retention_floors db' = replica_retention_floors db"
    and "group_commit db' = group_commit db" and "compaction_policy db' = compaction_policy db"
proof -
  let ?path = "output_path db tag ''.sst'' demo_cio (file_seq db)"
  obtain bf where bf: "build_bloom demo_env (length rs) rs = Inr bf" "bloom_ok bf rs" by (rule build_bloom_ok [OF demo_ok(2)])
  have "create_attempts 32 (output_path db tag ''.sst'' demo_cio) (\<lambda>p. files db p \<noteq> None) True (file_seq db) =
      (Inr (output_path db tag ''.sst'' demo_cio (file_seq db)), file_seq db + 1)"
    using create_attempts_first [of "\<lambda>p. files db p \<noteq> None" "output_path db tag ''.sst'' demo_cio" "file_seq db" 31] assms by simp
  then have c: "create_unique_output tag ''.sst'' demo_cio db = (Inr ?path, db\<lparr>file_seq := file_seq db + 1\<rparr>)"
    by (simp add: create_unique_output_def demo_cio_def)
  define db1 where "db1 = db\<lparr>file_seq := file_seq db + 1, files := (files db)(?path \<mapsto> sst_bytes rs),
    bloom_files := (bloom_files db)(?path \<mapsto> bf)\<rparr>"
  have w: "write_output demo_env demo_cio tag rs db = (Inr (sst_bytes rs, bf, ?path), db1)"
    by (simp add: write_output_def bf c db1_def) (simp add: demo_cio_def)
  have "install_table demo_env demo_cio tag rs listing update db =
      (Inr (), db1\<lparr>manifest_file := Some ((listing ?path db1)\<lparr>format_version := 1\<rparr>),
         roots := update (sst_bytes rs, bf, ?path) (listing ?path db1) (roots db)\<rparr>)"
    by (simp add: install_table_def w) (simp add: save_manifest_def demo_cio_def db1_def Let_def)
  then show thesis by (rule that) (use bf(2) in \<open>simp_all add: db1_def same_store_def\<close>)
qed

lemma mem_entries_insert_empty: "mem_entries (mem_insert k q p mem_empty) = [(k, q, p)]"
proof -
  have "concat ((replicate n [])[i := xs]) = xs" if "i < n" for n i and xs :: memtable_shard
    using that by (induction n arbitrary: i) (auto split: nat.split simp: less_Suc_eq_0_disj)
  moreover have "mem_insert k q p mem_empty = (replicate NUM_SHARDS [])[shard_idx k := [((k, Reverse q), p)]]"
    by (simp add: mem_insert_def mem_empty_def)
  ultimately show ?thesis by (simp add: mem_entries_def)
qed

lemma fits_single: "length (key r) < 4000 \<Longrightarrow> fits [r]"
  by (simp add: fits_def recs_size_def small_table_aligned)

abbreviation demo_ptr :: ptr where
  "demo_ptr \<equiv> (0, 1 OR UNCOMPRESSED_FLAG, 1, 0)"

abbreviation demo_rec :: OmniRecord where
  "demo_rec \<equiv> make_record demo_env [97] 1 demo_ptr"

lemma demo_keys: "key_ok [97]" "value_ok [49]" "value_ok [50, 50]"
  by (simp_all add: key_ok_def value_ok_def ascii_utf8_valid ascii_def COMMIT_MARKER_def MAX_VALUE_SIZE_def)

text \<open>The value \<^verbatim>\<open>1\<close> under the key \<^verbatim>\<open>a\<close>, in the memtable.\<close>

lemma demo_set:
  obtains db where "commit_batch_local demo_env demo_io (set_tx [97] [49]) demo_db = (Inr 2, db)" and "db_ok demo_env db"
    and "roots db = (roots demo_db)\<lparr>memtable := mem_insert [97] 1 demo_ptr mem_empty\<rparr>" and "heap db = [49]"
    and "heap_offset db = 1" and "global_seq db = 3" and "block_cache db = Map.empty" and "active_snapshots db = []"
    and "replica_retention_floors db = []" and "files db = Map.empty" and "group_idle (group_commit db)"
    and "compaction_policy db = default_policy"
    and "\<And>s now. 1 \<le> s \<Longrightarrow> spec_read (db_cells demo_env db) now [97] s = Some [49]"
proof -
  let ?tx = "set_tx [97] [49]"
  have st: "\<not> write_stalled demo_io demo_db" "group_idle (group_commit demo_db)" by simp_all
  have dd: "global_seq demo_db = 1" "heap_offset demo_db = 0" "heap demo_db = []" "memtable (roots demo_db) = mem_empty"
    "block_cache demo_db = Map.empty" "active_snapshots demo_db = []" "replica_retention_floors demo_db = []"
    "files demo_db = Map.empty" "compaction_policy demo_db = default_policy"
    by (simp_all add: demo_db_def fresh_db_def Let_def)
  have tx: "tx_ok ?tx" by (rule set_tx_ok) (rule demo_keys)+
  have room: "room_for demo_env ?tx demo_db"
    by (simp add: room_for_def dd set_tx_def op_count_def prep_writes_def prep_value_def payload_def)
  obtain q db where c: "commit_batch_local demo_env demo_io ?tx demo_db = (Inr q, db)"
    and F: "roots db = (roots demo_db)\<lparr>memtable := mem_insert [97] (global_seq demo_db)
      (heap_offset demo_db, word_of_nat (length [49::u8]) OR UNCOMPRESSED_FLAG, 1, 0) (memtable (roots demo_db))\<rparr>"
      "heap db = write_at (unat (heap_offset demo_db)) [49] (heap demo_db)"
      "heap_offset db = heap_offset demo_db + word_of_nat (length [49::u8])" "global_seq db = global_seq demo_db + 2"
      "block_cache db = block_cache demo_db" "active_snapshots db = active_snapshots demo_db"
      "replica_retention_floors db = replica_retention_floors demo_db" "files db = files demo_db"
      "compaction_policy db = compaction_policy demo_db" "group_idle (group_commit db)"
    by (rule commit_set [of "[49]" "[97]" demo_db]) (simp_all add: COMMIT_MARKER_def st)
  note A = commit_acked [OF demo_ok(8,1) tx room demo_ok(9) c]
  have q: "q = 2" "db_ok demo_env db" using A by (simp_all add: op_count_def set_tx_def)
  have "spec_read (db_cells demo_env db) now [97] s = Some [49]" if "1 \<le> s" for s now
  proof -
    have "1 \<le> unat s" using that by (simp add: word_le_nat_alt)
    then have "unat (1 :: u64) + op_count ?tx \<le> unat s + 1" by (simp add: op_count_def set_tx_def)
    then have "spec_read (apply_batch 1 ?tx (\<lambda>_ _. None)) now [97] s = batch_read ?tx (\<lambda>now k. spec_read (\<lambda>_ _. None) now k s) now [97]"
      by (intro spec_read_batch(1)) (simp_all add: op_count_def set_tx_def)
    then show ?thesis using A by (simp add: batch_read_def set_tx_def expired_def)
  qed
  then show thesis using F c q by (intro that) (simp_all add: dd write_at_def)
qed

lemma demo_flush_records:
  "memtable (roots db) = mem_insert [97] 1 demo_ptr mem_empty \<Longrightarrow> flush_records demo_env db = [demo_rec]"
  by (simp add: flush_records_def mem_entries_insert_empty)

text \<open>The same value after a flush, in a table of level 0.\<close>

lemma demo_flushed:
  obtains db db' bf path m where "db_ok demo_env db" and "frozen_memtables (roots db) = []"
    and "flush_records demo_env db = [demo_rec]" and "compact_sstables demo_env demo_cio db = (Inr (), db')"
    and "roots db' = (roots demo_db)\<lparr>sstables := [(sst_bytes [demo_rec], bf, path)], manifest := m\<rparr>"
    and "heap db' = [49]" and "compaction_retention_floor db' = None" and "db_ok demo_env db'"
    and "\<And>now s. 1 \<le> s \<Longrightarrow> spec_read (db_cells demo_env db) now [97] s = Some [49]"
    and "\<And>now s. 1 \<le> s \<Longrightarrow> spec_read (db_cells demo_env db') now [97] s = Some [49]"
proof -
  obtain db where db: "db_ok demo_env db"
    "roots db = (roots demo_db)\<lparr>memtable := mem_insert [97] 1 demo_ptr mem_empty\<rparr>" "heap db = [49]"
    "active_snapshots db = []" "replica_retention_floors db = []" "files db = Map.empty"
    and rd: "\<And>s now. 1 \<le> s \<Longrightarrow> spec_read (db_cells demo_env db) now [97] s = Some [49]"
    by (rule demo_set) blast
  have fr: "frozen_memtables (roots db) = []" "sstables (roots demo_db) = []" by (simp_all add: db(2) demo_db_def fresh_db_def Let_def)
  have rs: "flush_records demo_env db = [demo_rec]" by (rule demo_flush_records) (simp add: db(2))
  have fz: "files (freeze demo_cio db) = Map.empty" by (simp add: freeze_def db)
  obtain bf path m db1 where i: "install_table demo_env demo_cio ''_l0_0_'' [demo_rec] l0_listing l0_update (freeze demo_cio db) = (Inr (), db1)"
    and r1: "roots db1 = l0_update (sst_bytes [demo_rec], bf, path) m (roots (freeze demo_cio db))"
    and st: "same_store db1 (freeze demo_cio db)" "active_snapshots db1 = active_snapshots (freeze demo_cio db)"
      "replica_retention_floors db1 = replica_retention_floors (freeze demo_cio db)"
    by (rule install_demo [OF fz, of "''_l0_0_''" "[demo_rec]" l0_listing l0_update]) (rule that)
  let ?db = "remove_frozen_memtable 0 db1"
  have c: "compact_sstables demo_env demo_cio db = (Inr (), ?db)" using i by (simp add: compact_sstables_def rs fr Let_def)
  have roots: "roots ?db = (roots demo_db)\<lparr>sstables := [(sst_bytes [demo_rec], bf, path)], manifest := m\<rparr>"
    using r1 fr by (simp add: remove_frozen_memtable_def freeze_def db(2) Let_def) (simp add: demo_db_def fresh_db_def Let_def)
  have h: "heap ?db = [49]" "active_snapshots ?db = []" "replica_retention_floors ?db = []"
    using st db by (simp_all add: remove_frozen_memtable_def freeze_def same_store_def Let_def)
  have fit: "fits (flush_records demo_env db)" unfolding rs by (rule fits_single) simp
  note ok = flush_ok [OF db(1) demo_ok(2) fr(1) fit c]
  show thesis
    by (rule that [OF db(1) fr(1) rs c roots h(1) _ _ rd])
      (use ok rd in \<open>simp_all add: compaction_retention_floor_def oldest_active_snapshot_def min_replica_retention_def h\<close>)
qed

lemma demo_table:
  "iter_from (crc_of demo_env) (sst_bytes [demo_rec]) [] = Inr [demo_rec]" "table_ok (crc_of demo_env) [demo_rec]"
proof -
  show t: "table_ok (crc_of demo_env) [demo_rec]" by (simp add: table_ok_def storable_def recs_size_def)
  have "table_data demo_env (sst_bytes [demo_rec])"
    using t fits_single [of demo_rec] unfolding table_data_def fits_def by (auto simp: rec_functional_def)
  moreover obtain bf where "bloom_ok bf [demo_rec]" by (rule build_bloom_ok [OF demo_ok(2), of 1 "[demo_rec]"])
  moreover have "table_records demo_env (sst_bytes [demo_rec]) = [demo_rec]"
    using sst_iter_records [OF t, of 0] by (simp add: table_records_def)
  ultimately show "iter_from (crc_of demo_env) (sst_bytes [demo_rec]) [] = Inr [demo_rec]"
    using iter_all(1) [of demo_env "(sst_bytes [demo_rec], bf, [])"] by (simp add: handle_ok_def)
qed

lemma demo_merge:
  "merge_tables demo_env [sst_bytes [demo_rec]] [] = Inr [([97], [(1, demo_ptr)])]"
  "merge_tables demo_env [replicate 4096 0] M = Inr M"
  using demo_table(1) demo_ok(2)
  by (simp_all add: merge_records_def insert_record_version_def om_lookup_def zero_table zero_crc_ok_def)

lemma same_find:
  "db_ok e db \<Longrightarrow> db_ok e db' \<Longrightarrow> spec_read (db_cells e db') now k s = spec_read (db_cells e db) now k s \<Longrightarrow>
     fst (db_find e now k s db') = fst (db_find e now k s db)"
  using find_spec [of e db now k s] find_spec [of e db' now k s] by auto

section \<open>Compaction preserves reads\<close>






lemma demo_l1:
  obtains db bf path m where "roots db = (roots demo_db)\<lparr>l1_sstables := [(sst_bytes [demo_rec], bf, path)], manifest := m\<rparr>"
    and "compaction_retention_floor db = None" and "db_ok demo_env db"
proof -
  obtain db bf path m where d: "roots db = (roots demo_db)\<lparr>sstables := [(sst_bytes [demo_rec], bf, path)], manifest := m\<rparr>"
    "compaction_retention_floor db = None" "db_ok demo_env db"
    by (rule demo_flushed) (rule that)
  let ?db = "db\<lparr>roots := (roots demo_db)\<lparr>l1_sstables := [(sst_bytes [demo_rec], bf, path)], manifest := m\<rparr>\<rparr>"
  have b: "base_handle (roots ?db) = base_handle (roots db)" by (simp add: base_handle_def d(1))
  have e: "sstables (roots demo_db) = []" "l1_sstables (roots demo_db) = []" "frozen_memtables (roots demo_db) = []"
    by (simp_all add: demo_db_def fresh_db_def Let_def)
  have lv: "levels demo_env (roots ?db) k = levels demo_env (roots db) k" for k using b by (simp add: levels_def d(1) e)
  have "roots_ok demo_env (roots ?db)"
    using db_okD(1) [OF d(3)] b unfolding roots_ok_def lv by (simp add: d(1) e)
  then have "db_ok demo_env ?db"
    using same_versions_ok [OF d(3), of ?db] lv by (simp add: db_versions_def)
  moreover have "compaction_retention_floor ?db = None"
    using d(2) by (simp add: compaction_retention_floor_def oldest_active_snapshot_def min_replica_retention_def)
  ultimately show thesis by (intro that [of ?db m bf path]) simp_all
qed


end
