(* ===== verification/Compaction_Faults.thy ===== *)
theory Compaction_Faults
  imports Compaction_Props
begin

text \<open>
  Garbage collection as clients see it, the names compaction gives its outputs, and the two runs
  in which compaction changes what a reader sees: a garbage collection with values still in the
  memtable, and a flush after a flush that failed.
\<close>

section \<open>Output names\<close>

lemma create_attempts_result:
  "create_attempts n path exists ok tok = (r, tok') \<Longrightarrow>
     (\<exists>i \<le> n. tok' = tok + word_of_nat i \<and>
        (\<forall>p. r = Inr p \<longrightarrow> 0 < i \<and> p = path (tok + word_of_nat (i - 1)) \<and> \<not> exists p))"
proof (induction n arbitrary: tok)
  case 0
  then show ?case by auto
next
  case (Suc n)
  show ?case
  proof (cases "exists (path tok)")
    case True
    then obtain i where i: "i \<le> n" "tok' = tok + 1 + word_of_nat i"
      "\<forall>p. r = Inr p \<longrightarrow> 0 < i \<and> p = path (tok + 1 + word_of_nat (i - 1)) \<and> \<not> exists p"
      using Suc.IH [of "tok + 1"] Suc.prems by auto
    have "tok + 1 + word_of_nat (i - 1) = tok + word_of_nat (Suc i - 1)" if "0 < i" using that by (cases i) simp_all
    then show ?thesis using i by (intro exI [of _ "Suc i"]) auto
  next
    case False
    then show ?thesis using Suc.prems by (intro exI [of _ 1]) (auto split: if_splits)
  qed
qed

text \<open>C24. A compaction output never replaces an existing file, and at most 32 names are tried: on
  every outcome the file counter advances by at most 32, and a name that is returned belongs to no
  file.\<close>

theorem unique_output_fresh:
  assumes "create_unique_output tag ext io db = (r, db')"
  shows "(\<exists>i \<le> 32. file_seq db' = file_seq db + word_of_nat i) \<and> files db' = files db \<and>
    (case r of Inr p \<Rightarrow> files db p = None | Inl _ \<Rightarrow> True)"
proof -
  obtain r1 tok where t: "create_attempts 32 (output_path db tag ext io) (\<lambda>p. files db p \<noteq> None) (create_ok io) (file_seq db) = (r1, tok)"
    by force
  then have "r1 = r" "db' = db\<lparr>file_seq := tok\<rparr>" using assms by (simp_all add: create_unique_output_def del: create_attempts.simps)
  then show ?thesis using create_attempts_result [OF t] by (auto split: sum.split)
qed

theorem unique_output_fresh_witness:
  "\<exists>p db'. create_unique_output ''_l0_0_'' ''.sst'' demo_cio demo_db = (Inr p, db') \<and> files demo_db p = None"
proof -
  obtain r db' where c: "create_unique_output ''_l0_0_'' ''.sst'' demo_cio demo_db = (r, db')" by force
  have "files demo_db = Map.empty" by (simp add: demo_db_def fresh_db_def Let_def)
  then have "isl r = False"
    using c create_attempts_first [of "\<lambda>p. files demo_db p \<noteq> None" "output_path demo_db ''_l0_0_'' ''.sst'' demo_cio" "file_seq demo_db" 31]
    by (auto simp: create_unique_output_def demo_cio_def)
  then obtain p where "r = Inr p" by (cases r) auto
  then show ?thesis using unique_output_fresh [OF c] c by auto
qed

section \<open>Garbage collection\<close>


lemma demo_keeps: "base_keeps None (now_secs demo_cio) demo_ptr"
  by (simp add: base_keeps_def demo_cio_def expired_def UNCOMPRESSED_FLAG_def)

lemma demo_ptr_len: "(1 :: u64) OR UNCOMPRESSED_FLAG \<noteq> 0" "(2 :: u64) OR UNCOMPRESSED_FLAG \<noteq> 0"
  "raw_len (2 OR UNCOMPRESSED_FLAG) = 2" "raw_len (1 OR UNCOMPRESSED_FLAG) = 1"
  using flag_bits(1) [of 2] flag_bits(1) [of 1] by (simp_all add: UNCOMPRESSED_FLAG_def raw_len_def)


section \<open>Garbage collection with values in the memtable\<close>

lemma gc_frame:
  assumes "run_garbage_collection e io db = (Inr (), db')"
  shows "memtable (roots db') = memtable (roots db) \<and> block_cache db' = Map.empty"
  using assms
  by (auto simp: run_garbage_collection_def save_manifest_def Let_def
      split: sum.splits prod.splits if_splits manifest_io.splits)

text \<open>C25. After a garbage collection that succeeds, a key whose newest visible version is in the
  memtable at a place beyond the end of the new heap can no longer be read: the memtable keeps its
  pointers into the old heap and the lookup fails with an I/O error. The witness commits two values
  to one key, reads the second, collects garbage, and the read fails.\<close>

theorem gc_strands_memtable:
  assumes "run_garbage_collection e io db = (Inr (), db')"
    and "mem_find (memtable (roots db)) k s = Some (q, (off, len, pcrc, ex))" and "len \<noteq> 0" and "\<not> expired now ex"
    and "length (heap db') < unat off + raw_len len" and "raw_len len \<noteq> 0"
  shows "fst (db_find e now k s db') = Inl (Err (IoError ''failed to fill whole buffer''))"
proof -
  note f = gc_frame [OF assms(1)]
  have "find_ptr e (roots db') k s = Inr (Some (off, len, pcrc, ex))" using f assms(2) by (simp add: find_ptr_def or_else_def)
  then show ?thesis using f assms(3-) by (simp add: db_find_def read_from_heap_def heap_value_def Let_def)
qed

abbreviation demo_ptr2 :: ptr where
  "demo_ptr2 \<equiv> (1, 2 OR UNCOMPRESSED_FLAG, 1, 0)"

lemma demo_mem2:
  "mem_entries (mem_insert [97] 3 demo_ptr2 (mem_insert [97] 1 demo_ptr mem_empty)) = [([97], 3, demo_ptr2), ([97], 1, demo_ptr)]"
  "mem_find (mem_insert [97] 3 demo_ptr2 (mem_insert [97] 1 demo_ptr mem_empty)) [97] 3 = Some (3, demo_ptr2)"
proof -
  have cc: "concat ((replicate n [])[i := xs]) = xs" if "i < n" for n i and xs :: memtable_shard
    using that by (induction n arbitrary: i) (auto split: nat.split simp: less_Suc_eq_0_disj)
  have m: "mem_insert [97] 3 demo_ptr2 (mem_insert [97] 1 demo_ptr mem_empty) =
      (replicate NUM_SHARDS [])[shard_idx [97] := [(([97], Reverse 3), demo_ptr2), (([97], Reverse 1), demo_ptr)]]"
    by (simp add: mem_insert_def mem_empty_def less_prod_def)
  show "mem_entries (mem_insert [97] 3 demo_ptr2 (mem_insert [97] 1 demo_ptr mem_empty)) = [([97], 3, demo_ptr2), ([97], 1, demo_ptr)]"
    unfolding m mem_entries_def by (subst cc) simp_all
  show "mem_find (mem_insert [97] 3 demo_ptr2 (mem_insert [97] 1 demo_ptr mem_empty)) [97] 3 = Some (3, demo_ptr2)"
    unfolding m mem_find_def by (simp add: om_range_def)
qed

lemma demo_mem1: "mem_find (mem_insert [97] 1 demo_ptr mem_empty) [97] 3 = Some (1, demo_ptr)"
proof -
  have "mem_insert [97] 1 demo_ptr mem_empty = (replicate NUM_SHARDS [])[shard_idx [97] := [(([97], Reverse 1), demo_ptr)]]"
    by (simp add: mem_insert_def mem_empty_def)
  then show ?thesis by (simp add: mem_find_def om_range_def less_eq_prod_def)
qed

text \<open>A second value \<^verbatim>\<open>22\<close> under the same key.\<close>

lemma demo_set2:
  obtains db1 db where "commit_batch_local demo_env demo_io (set_tx [97] [49]) demo_db = (Inr 2, db1)"
    and "commit_batch_local demo_env demo_io (set_tx [97] [50, 50]) db1 = (Inr 4, db)"
    and "roots db = (roots demo_db)\<lparr>memtable := mem_insert [97] 3 demo_ptr2 (mem_insert [97] 1 demo_ptr mem_empty)\<rparr>"
    and "heap db = [49, 50, 50]" and "block_cache db = Map.empty" and "files db = Map.empty"
    and "compaction_retention_floor db = None"
proof -
  obtain db1 where d: "commit_batch_local demo_env demo_io (set_tx [97] [49]) demo_db = (Inr 2, db1)" "db_ok demo_env db1"
    "roots db1 = (roots demo_db)\<lparr>memtable := mem_insert [97] 1 demo_ptr mem_empty\<rparr>" "heap db1 = [49]"
    "heap_offset db1 = 1" "global_seq db1 = 3" "block_cache db1 = Map.empty" "active_snapshots db1 = []"
    "replica_retention_floors db1 = []" "files db1 = Map.empty" "group_idle (group_commit db1)"
    "compaction_policy db1 = default_policy"
    by (rule demo_set) (rule that)
  have st: "\<not> write_stalled demo_io db1"
    by (simp add: write_stalled_def d(3,12)) (simp add: demo_db_def fresh_db_def default_policy_def Let_def)
  have ep: "current_epoch (group_commit db1) = 0" using d(11) by (simp add: group_idle_def)
  obtain q db where c: "commit_batch_local demo_env demo_io (set_tx [97] [50, 50]) db1 = (Inr q, db)"
    and F: "roots db = (roots db1)\<lparr>memtable := mem_insert [97] (global_seq db1)
      (heap_offset db1, word_of_nat (length [50::u8, 50]) OR UNCOMPRESSED_FLAG, 1, 0) (memtable (roots db1))\<rparr>"
      "heap db = write_at (unat (heap_offset db1)) [50, 50] (heap db1)"
      "heap_offset db = heap_offset db1 + word_of_nat (length [50::u8, 50])" "global_seq db = global_seq db1 + 2"
      "block_cache db = block_cache db1" "active_snapshots db = active_snapshots db1"
      "replica_retention_floors db = replica_retention_floors db1" "files db = files db1"
    by (rule commit_set [of "[50, 50]" "[97]" db1]) (simp_all add: COMMIT_MARKER_def st d(11))
  have tx: "tx_ok (set_tx [97] [50, 50])" by (rule set_tx_ok) (rule demo_keys)+
  have room: "room_for demo_env (set_tx [97] [50, 50]) db1"
    by (simp add: room_for_def d set_tx_def op_count_def prep_writes_def prep_value_def payload_def)
  have q: "q = 4" using commit_acked [OF d(2) demo_ok(1) tx room ep c] by (simp add: op_count_def set_tx_def d)
  show thesis
    by (rule that [OF d(1) c [unfolded q]])
      (use F in \<open>simp_all add: d write_at_def compaction_retention_floor_def oldest_active_snapshot_def min_replica_retention_def\<close>)
qed

lemma demo_gc2:
  assumes "roots db = (roots demo_db)\<lparr>memtable := mem_insert [97] 3 demo_ptr2 (mem_insert [97] 1 demo_ptr mem_empty)\<rparr>"
    and "heap db = [49, 50, 50]" and "files db = Map.empty" and "compaction_retention_floor db = None"
  obtains db' where "run_garbage_collection demo_env demo_cio db = (Inr (), db')" and "heap db' = [50, 50]"
    and "base_mmap (roots db') = sst_bytes [make_record demo_env [97] 3 (0, 2 OR UNCOMPRESSED_FLAG, 1, 0)]"
    and "bloom_ok (base_bloom (roots db')) [make_record demo_env [97] 3 (0, 2 OR UNCOMPRESSED_FLAG, 1, 0)]"
    and "heap_durable db' = 2"
proof -
  let ?M = "[([97 :: u8], [(1 :: u64, demo_ptr), (3, demo_ptr2)])]"
  let ?rs = "[make_record demo_env [97] 3 (0, 2 OR UNCOMPRESSED_FLAG, 1, 0)]"
  have e: "base_mmap (roots demo_db) = replicate 4096 0" "sstables (roots demo_db) = []" "l1_sstables (roots demo_db) = []"
    by (simp_all add: demo_db_def fresh_db_def Let_def)
  have mr: "memtable_records demo_env (memtable (roots db)) =
      [make_record demo_env [97] 3 demo_ptr2, make_record demo_env [97] 1 demo_ptr]"
    by (simp add: memtable_records_def assms(1) demo_mem2(1))
  have M: "merge_records (memtable_records demo_env (memtable (roots db))) [] = ?M"
    unfolding mr by (simp add: merge_records_def insert_record_version_def om_lookup_def)
  have T: "merge_tables demo_env ([base_mmap (roots db)] @ map fst (sstables (roots db)) @ map fst (l1_sstables (roots db))) [] = Inr []"
    using demo_merge(2) [of "[]"] by (simp add: assms(1) e del: merge_tables.simps)
  have R: "retained None ?M = [([97], 3, demo_ptr2)]" by (simp add: retained_def retain_versions_needed_by_floor_def)
  have G: "gc_rewrite demo_env (heap db) False (now_secs demo_cio) [([97], 3, demo_ptr2)] [] = Inr (?rs, [50, 50])"
    using demo_ptr_len(2,3)
    by (simp add: assms(2) expired_def slice_def Let_def) (simp add: demo_env_def)
  obtain bf where B: "build_bloom demo_env (Suc 0) ?rs = Inr bf" "bloom_ok bf ?rs" by (rule build_bloom_ok [OF demo_ok(2)])
  have U: "\<exists>p db1. create_unique_output tag ext demo_cio db0 = (Inr p, db1) \<and> files db1 = Map.empty" if "files db0 = Map.empty" for tag ext db0
    using create_attempts_first [of "\<lambda>p. files db0 p \<noteq> None" "output_path db0 tag ext demo_cio" "file_seq db0" 31] that
    by (auto simp: create_unique_output_def demo_cio_def)
  obtain hp db1 where u1: "create_unique_output ''_heap_compacted_'' ''.bin'' demo_cio db = (Inr hp, db1)" "files db1 = Map.empty"
    using U [OF assms(3)] by blast
  obtain bp db2 where u2: "create_unique_output ''_database_compacted_'' ''.bin'' demo_cio db1 = (Inr bp, db2)"
    using U [OF u1(2)] by blast
  have io: "table_io demo_cio" "mmap_io demo_cio" "bloom_io demo_cio" "save_io demo_cio = Saved" by (simp_all add: demo_cio_def)
  show thesis
    by (rule that, unfold run_garbage_collection_def assms(4) Let_def, unfold T,
        simp add: M R G B u1 u2 io save_manifest_def Let_def del: gc_rewrite.simps, simp_all add: B(2))
qed

theorem gc_strands_memtable_witness:
  "\<exists>db1 db db'. commit_batch_local demo_env demo_io (set_tx [97] [49]) demo_db = (Inr 2, db1) \<and>
     commit_batch_local demo_env demo_io (set_tx [97] [50, 50]) db1 = (Inr 4, db) \<and>
     run_garbage_collection demo_env demo_cio db = (Inr (), db') \<and>
     fst (db_find demo_env 0 [97] 3 db) = Inr (Some [50, 50]) \<and>
     fst (db_find demo_env 0 [97] 3 db') = Inl (Err (IoError ''failed to fill whole buffer''))"
proof -
  obtain db1 db where d: "commit_batch_local demo_env demo_io (set_tx [97] [49]) demo_db = (Inr 2, db1)"
    "commit_batch_local demo_env demo_io (set_tx [97] [50, 50]) db1 = (Inr 4, db)"
    "roots db = (roots demo_db)\<lparr>memtable := mem_insert [97] 3 demo_ptr2 (mem_insert [97] 1 demo_ptr mem_empty)\<rparr>"
    "heap db = [49, 50, 50]" "block_cache db = Map.empty" "files db = Map.empty" "compaction_retention_floor db = None"
    by (rule demo_set2) (rule that)
  obtain db' where g: "run_garbage_collection demo_env demo_cio db = (Inr (), db')" "heap db' = [50, 50]"
    by (rule demo_gc2 [OF d(3,4,6,7)])
  have m: "mem_find (memtable (roots db)) [97] 3 = Some (3, demo_ptr2)" by (simp add: d(3) demo_mem2(2))
  then have "find_ptr demo_env (roots db) [97] 3 = Inr (Some demo_ptr2)" by (simp add: find_ptr_def or_else_def)
  moreover have "utf8_lossy [50, 50] = [50, 50]" by (simp add: utf8_lossy_valid ascii_utf8_valid ascii_def)
  ultimately have "fst (db_find demo_env 0 [97] 3 db) = Inr (Some [50, 50])"
    using demo_ptr_len(2,3) flag_bits(2) [of 2]
    by (simp add: db_find_def expired_def read_from_heap_def d(4,5) heap_value_def slice_def Let_def) (simp add: demo_env_def)
  moreover have "fst (db_find demo_env 0 [97] 3 db') = Inl (Err (IoError ''failed to fill whole buffer''))"
    by (rule gc_strands_memtable [OF g(1) m]) (use demo_ptr_len in \<open>simp_all add: g(2) expired_def\<close>)
  ultimately show ?thesis using d(1,2) g(1) by blast
qed

section \<open>A flush after a failed flush\<close>

lemma install_l0_roots:
  assumes "install_table e io tag rs listing l0_update db = (r, db')"
  shows "isl r \<Longrightarrow> roots db' = roots db"
    and "memtable (roots db') = memtable (roots db)" and "frozen_memtables (roots db') = frozen_memtables (roots db)"
  using assms
  by (auto simp: install_table_def write_output_def create_unique_output_def save_manifest_def discard_output_def Let_def
      split: sum.splits prod.splits if_splits manifest_io.splits)

lemma flush_failed_roots:
  assumes "compact_sstables e io db = (Inl err, db')"
  shows "roots db' = (roots db)\<lparr>memtable := mem_empty, frozen_memtables := frozen_memtables (roots db) @ [memtable (roots db)]\<rparr>"
proof -
  have "install_table e io ''_l0_0_'' (flush_records e db) l0_listing l0_update (freeze io db) = (Inl err, db')"
    using assms by (auto simp: compact_sstables_def Let_def split: if_splits sum.splits prod.splits)
  from install_l0_roots(1) [OF this] show ?thesis by (simp add: freeze_def)
qed

lemma flush_done_roots:
  assumes "compact_sstables e io db = (Inr u, db')"
  shows "memtable (roots db') = mem_empty \<and> frozen_memtables (roots db') = frozen_memtables (roots db)"
proof -
  obtain db2 where "db' = remove_frozen_memtable (length (frozen_memtables (roots db))) db2"
    and "memtable (roots db2) = memtable (roots (freeze io db))" "frozen_memtables (roots db2) = frozen_memtables (roots (freeze io db))"
    using assms install_l0_roots(2,3) [of e io "''_l0_0_''" "flush_records e db" l0_listing "freeze io db"]
    by (fastforce simp: compact_sstables_def Let_def split: if_splits sum.splits prod.splits)
  then show ?thesis by (simp add: remove_frozen_memtable_def freeze_def Let_def)
qed

lemma commit_frozen:
  "commit_batch_local e io tx db = (r, db') \<Longrightarrow> frozen_memtables (roots db') = frozen_memtables (roots db)"
  by (auto simp: commit_batch_local_def publish_def Let_def dest!: group_sync_frame
      split: if_splits option.splits prod.splits sum.splits)

text \<open>C26. A flush that fails leaves its memtable in the list of frozen memtables, where lookups
  search it before the tables; no later operation removes it. So once a later flush has moved newer
  values of a key to a table, a lookup returns the version of the memtable whose flush failed. The
  witness overwrites a value between the two flushes, and the read returns the overwritten value.\<close>

theorem failed_flush_stale:
  assumes "frozen_memtables (roots db) = []" and "compact_sstables e io1 db = (Inl err, db1)"
    and "commit_batch_local e io tx db1 = (r, db2)" and "compact_sstables e io2 db2 = (Inr (), db3)"
    and "mem_find (memtable (roots db)) k s = Some (q, p)"
  shows "find_ptr e (roots db3) k s = Inr (Some p)"
proof -
  have "frozen_memtables (roots db3) = [memtable (roots db)]" "memtable (roots db3) = mem_empty"
    using flush_failed_roots [OF assms(2)] flush_done_roots [OF assms(4)] commit_frozen [OF assms(3)] assms(1) by simp_all
  moreover have "mem_find mem_empty k s = None" by (simp add: mem_find_newest newest_None dom_def)
  ultimately show ?thesis using assms(5) by (simp add: find_ptr_def or_else_def)
qed

lemma demo_failed_flush:
  assumes "files db = Map.empty" and "flush_records demo_env db \<noteq> []"
  obtains err db1 where "compact_sstables demo_env (demo_cio\<lparr>create_ok := False\<rparr>) db = (Inl err, db1)"
    and "heap db1 = heap db" and "heap_offset db1 = heap_offset db" and "global_seq db1 = global_seq db"
    and "block_cache db1 = block_cache db" and "files db1 = files db" and "group_commit db1 = group_commit db"
    and "compaction_policy db1 = compaction_policy db"
proof -
  let ?io = "demo_cio\<lparr>create_ok := False\<rparr>"
  let ?db = "freeze ?io db"
  obtain bf where bf: "build_bloom demo_env (length (flush_records demo_env db)) (flush_records demo_env db) = Inr bf"
    by (rule build_bloom_ok [OF demo_ok(2)])
  have ca: "create_attempts (Suc 31) (output_path ?db ''_l0_0_'' ''.sst'' ?io) (\<lambda>p. files ?db p \<noteq> None) False (file_seq ?db) =
      (Inl (Err (IoError ''create output'')), file_seq ?db + 1)"
    using assms(1) unfolding create_attempts.simps by (simp add: freeze_def)
  have "compact_sstables demo_env ?io db = (Inl (Err (IoError ''create output'')), ?db\<lparr>file_seq := file_seq ?db + 1\<rparr>)"
    using ca assms(2) by (simp add: compact_sstables_def install_table_def write_output_def bf create_unique_output_def Let_def del: create_attempts.simps)
  then show thesis by (rule that) (simp_all add: freeze_def)
qed

theorem failed_flush_stale_witness:
  "\<exists>db db1 db2 db3 err. commit_batch_local demo_env demo_io (set_tx [97] [49]) demo_db = (Inr 2, db) \<and>
     compact_sstables demo_env (demo_cio\<lparr>create_ok := False\<rparr>) db = (Inl err, db1) \<and>
     (\<exists>q. commit_batch_local demo_env demo_io (set_tx [97] [50, 50]) db1 = (Inr q, db2)) \<and>
     compact_sstables demo_env demo_cio db2 = (Inr (), db3) \<and> fst (db_find demo_env 0 [97] 3 db3) = Inr (Some [49])"
proof -
  obtain db where d: "commit_batch_local demo_env demo_io (set_tx [97] [49]) demo_db = (Inr 2, db)" "db_ok demo_env db"
    "roots db = (roots demo_db)\<lparr>memtable := mem_insert [97] 1 demo_ptr mem_empty\<rparr>" "heap db = [49]"
    "heap_offset db = 1" "global_seq db = 3" "block_cache db = Map.empty" "active_snapshots db = []"
    "replica_retention_floors db = []" "files db = Map.empty" "group_idle (group_commit db)"
    "compaction_policy db = default_policy"
    by (rule demo_set) (rule that)
  have fr: "frozen_memtables (roots db) = []" by (simp add: d(3) demo_db_def fresh_db_def Let_def)
  have rs: "flush_records demo_env db \<noteq> []" using demo_flush_records [of db] by (simp add: d(3))
  obtain err db1 where c1: "compact_sstables demo_env (demo_cio\<lparr>create_ok := False\<rparr>) db = (Inl err, db1)"
    and f1: "heap db1 = heap db" "heap_offset db1 = heap_offset db" "global_seq db1 = global_seq db"
      "block_cache db1 = block_cache db" "files db1 = files db" "group_commit db1 = group_commit db"
      "compaction_policy db1 = compaction_policy db"
    by (rule demo_failed_flush [OF d(10) rs])
  have st: "\<not> write_stalled demo_io db1"
    by (simp add: write_stalled_def f1(7) d(12) flush_failed_roots [OF c1] d(3)) (simp add: demo_db_def fresh_db_def default_policy_def Let_def)
  obtain q db2 where c2: "commit_batch_local demo_env demo_io (set_tx [97] [50, 50]) db1 = (Inr q, db2)"
    and f2: "roots db2 = (roots db1)\<lparr>memtable := mem_insert [97] (global_seq db1)
      (heap_offset db1, word_of_nat (length [50::u8, 50]) OR UNCOMPRESSED_FLAG, 1, 0) (memtable (roots db1))\<rparr>"
      "heap db2 = write_at (unat (heap_offset db1)) [50, 50] (heap db1)" "block_cache db2 = block_cache db1" "files db2 = files db1"
    by (rule commit_set [of "[50, 50]" "[97]" db1]) (simp_all add: COMMIT_MARKER_def st f1(6) d(11))
  have fz: "files (freeze demo_cio db2) = Map.empty" by (simp add: freeze_def f2 f1 d)
  have rs2: "flush_records demo_env db2 \<noteq> []"
    by (simp add: flush_records_def f2(1) flush_failed_roots [OF c1] mem_entries_insert_empty)
  obtain db4 where c3: "install_table demo_env demo_cio ''_l0_0_'' (flush_records demo_env db2) l0_listing l0_update (freeze demo_cio db2) = (Inr (), db4)"
    and s4: "same_store db4 (freeze demo_cio db2)"
    by (rule install_demo [OF fz, of "''_l0_0_''" "flush_records demo_env db2" l0_listing l0_update]) (rule that)
  obtain db3 where c4: "compact_sstables demo_env demo_cio db2 = (Inr (), db3)" "heap db3 = [49, 50, 50]" "block_cache db3 = Map.empty"
    using c3 s4 rs2 by (simp add: compact_sstables_def remove_frozen_memtable_def same_store_def freeze_def f2 f1 d write_at_def Let_def)
  have m: "mem_find (memtable (roots db)) [97] 3 = Some (1, demo_ptr)" by (simp add: d(3) demo_mem1)
  have "find_ptr demo_env (roots db3) [97] 3 = Inr (Some demo_ptr)" by (rule failed_flush_stale [OF fr c1 c2 c4(1) m])
  moreover have "utf8_lossy [49] = [49]" by (simp add: utf8_lossy_valid ascii_utf8_valid ascii_def)
  ultimately have "fst (db_find demo_env 0 [97] 3 db3) = Inr (Some [49])"
    using demo_ptr_len(1,4) flag_bits(2) [of 1]
    by (simp add: db_find_def expired_def read_from_heap_def c4(2,3) heap_value_def slice_def Let_def) (simp add: demo_env_def)
  then show ?thesis using d(1) c1 c2 c4(1) by blast
qed

end
