(* ===== verification/Recovery.thy ===== *)
theory Recovery
  imports Compaction_Faults
begin

text \<open>
  Opening a database: the manifest, the tables with their Bloom filters, the replay of the log
  and the heap (\<^verbatim>\<open>Manifest::load\<close>, \<^verbatim>\<open>recover_storage_roots\<close> and \<^verbatim>\<open>open\<close> of
  \<^verbatim>\<open>storage/core.rs\<close>), on a disk image.

  The lemmas show that a database whose manifest lists its tables, whose memtable is what its log
  holds and whose live values are covered by an fsync is rebuilt by \<open>open_db\<close> from whatever image
  a crash leaves, with the same contents; that commits and flushes keep it that way; and that a
  failed flush and a garbage collection do not.
\<close>

section \<open>Disk images\<close>

text \<open>A JSON file as \<^verbatim>\<open>serde_json\<close> reads it.\<close>

datatype 'a doc = Doc 'a | Malformed | Unreadable

text \<open>What is on disk: the manifest, the table files and their filters by path of the table, the
  heap files, and what reading the log yields.\<close>

record disk =
  d_manifest :: "Manifest doc option"
  d_files :: "bytes \<Rightarrow> bytes option"
  d_blooms :: "bytes \<Rightarrow> BloomFilter option"
  d_heaps :: "bytes \<Rightarrow> bytes option"
  d_log :: log_read

text \<open>Outcomes of the system calls of an open.\<close>

record open_io =
  new_manifest_io :: manifest_io
  open_base_io :: bool
  map_io :: "bytes \<Rightarrow> bool"
  save_bloom_io :: "bytes \<Rightarrow> bool"
  open_heap_io :: bool
  open_wal_io :: bool

definition MANIFEST_FORMAT_VERSION :: u32 where
  "MANIFEST_FORMAT_VERSION = 1"

fun load_manifest :: "Manifest doc \<Rightarrow> Manifest result" where
  "load_manifest Unreadable = Inl (Err (IoError ''read manifest''))"
| "load_manifest Malformed = Inl (Err (IoError ''parse manifest''))"
| "load_manifest (Doc m) =
     (if format_version m > MANIFEST_FORMAT_VERSION
      then Inl (Err (UnsupportedVersion (format_version m) MANIFEST_FORMAT_VERSION)) else Inr m)"

definition new_manifest :: "bytes \<Rightarrow> Manifest" where
  "new_manifest mp = \<lparr>heap_path = mp @ str ''_heap.bin'', base_path = mp @ str ''_base.bin'', m_sstables = [],
     m_l1_sstables = [], max_seq = 0, format_version = MANIFEST_FORMAT_VERSION\<rparr>"

text \<open>The manifest of the directory, created when there is none.\<close>

definition open_manifest :: "manifest_io \<Rightarrow> bytes \<Rightarrow> disk \<Rightarrow> Manifest result \<times> disk" where
  "open_manifest io mp d =
     (case d_manifest d of
        Some doc \<Rightarrow> (load_manifest doc, d)
      | None \<Rightarrow> let m = new_manifest mp in
          (case io of
             Saved \<Rightarrow> (Inr m, d\<lparr>d_manifest := Some (Doc m)\<rparr>)
           | NotSaved \<Rightarrow> (Inl (Err (IoError ''save manifest'')), d)
           | SavedUnsynced \<Rightarrow> (Inl (Err (IoError ''sync directory'')), d\<lparr>d_manifest := Some (Doc m)\<rparr>)))"

text \<open>The base file is created when missing, and given a length that can be mapped.\<close>

definition base_data :: "bytes option \<Rightarrow> bytes" where
  "base_data f = (case f of None \<Rightarrow> replicate 4096 0 | Some b \<Rightarrow> if b = [] then replicate 4096 0 else b)"

text \<open>A filter is loaded, or rebuilt from the records of its table and saved if possible. The base
  level adds every record, the tables the valid ones.\<close>

definition load_filter ::
  "env \<Rightarrow> open_io \<Rightarrow> (OmniRecord \<Rightarrow> bool) \<Rightarrow> bytes \<Rightarrow> bytes \<Rightarrow> disk \<Rightarrow> BloomFilter result \<times> disk" where
  "load_filter e io keep data path d =
     (case d_blooms d path of
        Some b \<Rightarrow> (Inr b, d)
      | None \<Rightarrow>
          (case bind_res (iter_from (crc_of e) data []) (\<lambda>rs.
                  bloom_add_keys (map key (filter keep rs)) (bloom_new (bloom_dims e) (max (length rs) 100))) of
             Inl err \<Rightarrow> (Inl err, d)
           | Inr b \<Rightarrow> (Inr b, if save_bloom_io io path then d\<lparr>d_blooms := (d_blooms d)(path \<mapsto> b)\<rparr> else d)))"

text \<open>A table that cannot be opened or mapped is left out.\<close>

fun load_tables :: "env \<Rightarrow> open_io \<Rightarrow> bytes list \<Rightarrow> disk \<Rightarrow> handle list result \<times> disk" where
  "load_tables e io [] d = (Inr [], d)"
| "load_tables e io (p # ps) d =
     (case d_files d p of
        None \<Rightarrow> load_tables e io ps d
      | Some data \<Rightarrow>
          if \<not> map_io io p then load_tables e io ps d
          else case load_filter e io (is_valid (crc_of e)) data p d of
            (Inl err, d1) \<Rightarrow> (Inl err, d1)
          | (Inr b, d1) \<Rightarrow>
              (case load_tables e io ps d1 of
                 (Inl err, d2) \<Rightarrow> (Inl err, d2)
               | (Inr ts, d2) \<Rightarrow> (Inr ((data, b, p) # ts), d2)))"

fun recover_seq :: "OmniRecord list \<Rightarrow> u64 \<Rightarrow> u64" where
  "recover_seq [] q = q"
| "recover_seq (r # rs) q = recover_seq rs (if seq r > q then seq r else q)"

record RecoveredStorage =
  rec_base_mmap :: bytes
  rec_base_bloom :: BloomFilter
  rec_sstables :: "handle list"
  rec_l1_sstables :: "handle list"
  rec_manifest :: Manifest
  rec_heap :: bytes
  rec_wal :: WriteAheadLog
  rec_memtable :: memtable
  rec_max_seq :: u64

definition log_file :: "log_read \<Rightarrow> bytes" where
  "log_file l = (case l of LogContents w \<Rightarrow> w | _ \<Rightarrow> [])"

definition recover_storage_roots ::
  "env \<Rightarrow> open_io \<Rightarrow> bytes \<Rightarrow> disk \<Rightarrow> RecoveredStorage result \<times> disk" where
  "recover_storage_roots e io mp d =
     (case open_manifest (new_manifest_io io) mp d of
        (Inl err, d0) \<Rightarrow> (Inl err, d0)
      | (Inr m, d0) \<Rightarrow>
          if \<not> open_base_io io then (Inl (Err (IoError ''open base'')), d0)
          else
            let base = base_data (d_files d0 (base_path m)); d1 = d0\<lparr>d_files := (d_files d0)(base_path m \<mapsto> base)\<rparr> in
            case load_filter e io (\<lambda>_. True) base (base_path m) d1 of
              (Inl err, d2) \<Rightarrow> (Inl err, d2)
            | (Inr bloom, d2) \<Rightarrow>
                (case load_tables e io (m_sstables m) d2 of
                   (Inl err, d3) \<Rightarrow> (Inl err, d3)
                 | (Inr l0, d3) \<Rightarrow>
                     (case load_tables e io (m_l1_sstables m) d3 of
                        (Inl err, d4) \<Rightarrow> (Inl err, d4)
                      | (Inr l1, d4) \<Rightarrow>
                          (case replay (crc_of e) (d_log d4) of
                             Inl err \<Rightarrow> (Inl err, d4)
                           | Inr rs \<Rightarrow>
                               if \<not> open_heap_io io then (Inl (Err (IoError ''open heap'')), d4)
                               else
                                 let h = (case d_heaps d4 (heap_path m) of None \<Rightarrow> [] | Some h \<Rightarrow> h);
                                     d5 = d4\<lparr>d_heaps := (d_heaps d4)(heap_path m \<mapsto> h)\<rparr> in
                                 if \<not> open_wal_io io then (Inl (Err (IoError ''WAL open'')), d5)
                                 else (Inr \<lparr>rec_base_mmap = base, rec_base_bloom = bloom, rec_sstables = l0,
                                         rec_l1_sstables = l1, rec_manifest = m, rec_heap = h,
                                         rec_wal = wal_new (log_file (d_log d4)),
                                         rec_memtable = fold mem_insert_record rs mem_empty,
                                         rec_max_seq = recover_seq rs (max_seq m)\<rparr>, d5)))))"

text \<open>\<^verbatim>\<open>OmniKV::open\<close>, for a holder of the directory lock. What the files hold after a crash is
  on stable storage.\<close>

definition open_db :: "env \<Rightarrow> open_io \<Rightarrow> u64 \<Rightarrow> bytes \<Rightarrow> disk \<Rightarrow> OmniKV result \<times> disk" where
  "open_db e io tok mp d =
     (case recover_storage_roots e io mp d of
        (Inl err, d') \<Rightarrow> (Inl err, d')
      | (Inr r, d') \<Rightarrow>
          (Inr \<lparr>roots = \<lparr>base_mmap = rec_base_mmap r, base_bloom = rec_base_bloom r, sstables = rec_sstables r,
                 l1_sstables = rec_l1_sstables r, memtable = rec_memtable r, frozen_memtables = [],
                 manifest = rec_manifest r\<rparr>,
               global_seq = rec_max_seq r + 1, heap = rec_heap r, heap_durable = length (rec_heap r),
               heap_offset = word_of_nat (length (rec_heap r)), wal = rec_wal r, active_snapshots = [],
               replica_retention_floors = [], block_cache = Map.empty, compaction_policy = default_policy,
               group_commit = group_new, files = d_files d', bloom_files = d_blooms d',
               manifest_file = (case d_manifest d' of Some (Doc m) \<Rightarrow> Some m | _ \<Rightarrow> None),
               manifest_path = mp, file_seq = tok\<rparr>, d'))"

section \<open>Crashes\<close>

text \<open>An image a crash of a running database can leave: the tables and the manifest are on stable
  storage, the log keeps at least what an fsync covered, and so does the heap.\<close>

definition crash_image :: "OmniKV \<Rightarrow> disk \<Rightarrow> bool" where
  "crash_image db d \<longleftrightarrow>
     d_manifest d = map_option Doc (manifest_file db) \<and> d_files d = files db \<and> d_blooms d = bloom_files db \<and>
     (\<exists>h. d_heaps d (heap_path (manifest (roots db))) = Some h \<and> heap_durable db \<le> length h \<and> length h < 2 ^ 63 \<and>
        take (heap_durable db) h = take (heap_durable db) (heap db)) \<and>
     (\<exists>w. d_log d = LogContents w \<and> wal_crash (wal db) w)"

text \<open>A database that can be rebuilt.\<close>

definition stored :: "(bytes \<Rightarrow> bytes option) \<Rightarrow> (bytes \<Rightarrow> BloomFilter option) \<Rightarrow> handle \<Rightarrow> bool" where
  "stored f g t \<longleftrightarrow> f (snd (snd t)) = Some (fst t) \<and> g (snd (snd t)) = Some (fst (snd t))"

definition tables_on_disk :: "OmniKV \<Rightarrow> bool" where
  "tables_on_disk db \<longleftrightarrow>
     (let r = roots db; m = manifest r in
      manifest_file db = Some (m\<lparr>format_version := MANIFEST_FORMAT_VERSION\<rparr>) \<and>
      m_sstables m = map (snd \<circ> snd) (sstables r) \<and> m_l1_sstables m = map (snd \<circ> snd) (l1_sstables r) \<and>
      (\<forall>t \<in> set (sstables r @ l1_sstables r). stored (files db) (bloom_files db) t) \<and>
      files db (base_path m) = Some (base_mmap r) \<and> base_mmap r \<noteq> [] \<and>
      bloom_files db (base_path m) \<in> {None, Some (base_bloom r)})"

definition table_seqs :: "env \<Rightarrow> StorageRoots \<Rightarrow> u64 set" where
  "table_seqs e r = {q. \<exists>t \<in> set (base_handle r # sstables r @ l1_sstables r). \<exists>k. handle_versions e t k q \<noteq> None}"

definition recoverable :: "env \<Rightarrow> OmniKV \<Rightarrow> bool" where
  "recoverable e db \<longleftrightarrow> db_ok e db \<and> tables_on_disk db \<and> frozen_memtables (roots db) = [] \<and>
     (\<exists>s. wal_rel (crc_of e) (wal db) s [] \<and>
        memtable (roots db) = fold mem_insert_record (concat (map butlast s)) mem_empty) \<and>
     (\<forall>q \<in> table_seqs e (roots db). q \<le> max_seq (manifest (roots db))) \<and>
     max_seq (manifest (roots db)) \<le> global_seq db \<and> global_seq db < - 1"

definition open_io_ok :: "open_io \<Rightarrow> bool" where
  "open_io_ok io \<longleftrightarrow> new_manifest_io io = Saved \<and> open_base_io io \<and> (\<forall>p. map_io io p) \<and> open_heap_io io \<and> open_wal_io io"

section \<open>Rebuilding the state\<close>

lemma load_filter_ok:
  assumes "handle_ok e (data, b0, path)" and "zero_crc_ok e" and "d_blooms d path \<in> {None, Some b0}"
    and "\<And>r. r \<in> set (table_records e data) \<Longrightarrow> keep r"
  obtains b bs where "load_filter e io keep data path d = (Inr b, d\<lparr>d_blooms := bs\<rparr>)"
    and "bloom_ok b (table_records e data)" and "bs = d_blooms d \<or> bs = (d_blooms d)(path \<mapsto> b)"
    and "d_blooms d path = Some b0 \<Longrightarrow> b = b0"
proof (cases "d_blooms d path")
  case None
  let ?rs = "table_records e data"
  have it: "iter_from (crc_of e) data [] = Inr ?rs" using iter_all(1) [OF assms(1)] by simp
  have "filter keep ?rs = ?rs" using assms(4) by (simp add: filter_id_conv)
  moreover obtain b where "build_bloom e (length ?rs) ?rs = Inr b" "bloom_ok b ?rs" by (rule build_bloom_ok [OF assms(2)])
  ultimately show thesis
    using None it
    by (intro that [of b "if save_bloom_io io path then (d_blooms d)(path \<mapsto> b) else d_blooms d"])
      (simp_all add: load_filter_def build_bloom_def)
next
  case (Some b)
  then have "b = b0" using assms(3) by simp
  then show thesis using Some assms(1) by (intro that [of b0 "d_blooms d"]) (simp_all add: load_filter_def handle_ok_def)
qed

lemma load_tables_ok:
  assumes "\<forall>p. map_io io p"
    and "\<forall>t \<in> set ts. stored (d_files d) (d_blooms d) t"
  shows "load_tables e io (map (snd \<circ> snd) ts) d = (Inr ts, d)"
  using assms(2)
proof (induction ts)
  case (Cons t ts)
  then show ?case using assms(1) by (cases t) (simp add: load_filter_def stored_def)
qed simp

lemma recover_seq_bounds:
  "q \<le> recover_seq rs q \<and> (\<forall>r \<in> set rs. seq r \<le> recover_seq rs q) \<and> recover_seq rs q \<in> insert q (seq ` set rs)"
proof (induction rs arbitrary: q)
  case (Cons r rs)
  show ?case
  proof (cases "seq r > q")
    case True
    then show ?thesis using Cons.IH [of "seq r"] by (auto intro: order.trans less_imp_le)
  next
    case False
    then show ?thesis using Cons.IH [of q] by (auto intro: order.trans)
  qed
qed simp

lemma mem_insert_records:
  "mem_wf m \<Longrightarrow> mem_wf (fold mem_insert_record rs m) \<and>
     (mem_versions (fold mem_insert_record rs m) k q \<noteq> None \<longleftrightarrow>
        mem_versions m k q \<noteq> None \<or> (\<exists>r \<in> set rs. key r = k \<and> seq r = q))"
proof (induction rs arbitrary: m)
  case (Cons r rs)
  have "mem_wf (mem_insert_record r m)" using Cons.prems by (simp add: mem_insert_record_def mem_wf_insert)
  moreover have "mem_versions (mem_insert_record r m) k q \<noteq> None \<longleftrightarrow> mem_versions m k q \<noteq> None \<or> key r = k \<and> seq r = q"
    unfolding mem_insert_record_def mem_versions_insert [OF Cons.prems] by (auto simp del: not_None_eq)
  ultimately show ?case using Cons.IH [of "mem_insert_record r m"] by (auto simp del: not_None_eq)
qed simp

text \<open>The part of the heap an fsync covered decides every live value.\<close>

lemma durable_value:
  assumes "unat (fst p) + raw_len (fst (snd p)) \<le> n" and "n \<le> length h" "n \<le> length h'" and "take n h' = take n h"
  shows "heap_value e h' p = heap_value e h p"
proof (rule heap_value_cong)
  have "slice i j g = slice i j (take n g)" if "j \<le> n" for i j and g :: bytes
    using that by (simp add: slice_def drop_take min_def)
  then show "slice (unat (fst p)) (unat (fst p) + raw_len (fst (snd p))) h' =
      slice (unat (fst p)) (unat (fst p) + raw_len (fst (snd p))) h"
    using assms(1,4) by metis
qed (use assms in simp_all)

lemma db_ok_reopen:
  assumes ok: "db_ok e db" and r: "roots_ok e (roots db')"
    and v: "\<And>k. db_versions e (roots db') k = db_versions e (roots db) k"
    and h: "heap_durable db \<le> length (heap db')" "take (heap_durable db) (heap db') = take (heap_durable db) (heap db)"
      "length (heap db') < 2 ^ 63" "heap_durable db' = length (heap db')" "heap_offset db' = word_of_nat (length (heap db'))"
    and c: "block_cache db' = Map.empty"
    and q: "\<And>k q p. db_versions e (roots db) k q = Some p \<Longrightarrow> q < global_seq db'" "0 < global_seq db'"
  shows "db_ok e db' \<and> db_cells e db' = db_cells e db"
proof -
  have l: "live e (roots db') = live e (roots db)" by (simp add: live_def v)
  have off: "unat (heap_offset db') = length (heap db')" using h by (simp add: unat_small)
  have hv: "heap_value e (heap db') p = heap_value e (heap db) p" if "p \<in> live e (roots db)" "fst (snd p) \<noteq> 0" for p
    using db_okD(4) [OF ok that(1)] that(2) db_okD(2) [OF ok] h(1,2) durable_value [of p "heap_durable db" "heap db" "heap db'" e]
    unfolding ptr_ok_def by simp
  have p: "ptr_ok e db' p" if "p \<in> live e (roots db)" for p
    using db_okD(4) [OF ok that] hv [OF that] h(1) off unfolding ptr_ok_def c by (auto simp: h(4))
  have sv: "same_values e (heap db') (live e (roots db))"
    unfolding same_values_def
  proof (intro ballI impI)
    fix p p' assume "p \<in> live e (roots db)" "p' \<in> live e (roots db)" "fst (snd p) \<noteq> 0 \<and> fst (snd p') \<noteq> 0 \<and> fst p = fst p'"
    then show "heap_value e (heap db') p = heap_value e (heap db') p'"
      using hv [of p] hv [of p'] same_valuesD [OF db_okD(5) [OF ok], of p p'] by simp
  qed
  have "db_ok e db'"
    unfolding db_ok_def l v
  proof (intro conjI allI impI ballI)
    fix k q p assume x: "db_versions e (roots db) k q = Some p"
    then show "utf8_valid k" "length k < 65536" "0 < q" "q < global_seq db'" using db_okD(3) [OF ok x] q(1) [OF x] by simp_all
  qed (use r h(4) p sv q(2) in \<open>simp_all add: c\<close>)
  moreover have "db_cells e db' k q = db_cells e db k q" for k q
  proof (cases "db_versions e (roots db) k q")
    case (Some p)
    then have "p \<in> live e (roots db)" by (auto simp: live_def)
    from hv [OF this] show ?thesis using Some by (cases p) (simp add: db_cells_def v cell_of_def)
  qed (simp add: db_cells_def v)
  ultimately show ?thesis by (simp add: fun_eq_iff)
qed

lemma table_seqsI:
  assumes "t \<in> set (base_handle r # sstables r @ l1_sstables r)" and "handle_versions e t k q = Some p"
  shows "q \<in> table_seqs e r"
  unfolding table_seqs_def by (rule CollectI, rule bexI [OF _ assms(1)], rule exI [of _ k]) (simp add: assms(2))

lemma level_sources:
  assumes "frozen_memtables r = []" and "l \<in> set (levels e r k)"
  shows "l = mem_versions (memtable r) k \<or> (\<exists>t \<in> set (base_handle r # sstables r @ l1_sstables r). l = handle_versions e t k)"
  using assms by (simp add: levels_def image_iff bex_Un)

lemma handle_versions_bloom: "handle_versions e (d, b, p) = handle_versions e (d, b', p')"
  by (simp add: handle_versions_def)

text \<open>The recovered sequence lies above every stored version, and at most one above the sequence
  of the running database.\<close>

lemma recovered_seq:
  assumes rc: "recoverable e db" and w: "wal_rel (crc_of e) (wal db) s []"
    and m: "memtable (roots db) = fold mem_insert_record rs mem_empty"
  defines "q0 \<equiv> recover_seq rs (max_seq (manifest (roots db)))"
  shows "q0 \<le> global_seq db" and "db_versions e (roots db) k q = Some p \<Longrightarrow> q \<le> q0"
proof -
  have ok: "db_ok e db" and fr: "frozen_memtables (roots db) = []"
    and ts: "\<forall>q \<in> table_seqs e (roots db). q \<le> max_seq (manifest (roots db))" and mx: "max_seq (manifest (roots db)) \<le> global_seq db"
    using rc by (simp_all add: recoverable_def)
  have so: "sorted_wrt above (levels e (roots db) k)" for k using db_okD(1) [OF ok] by (simp add: roots_ok_def)
  note b = recover_seq_bounds [of "max_seq (manifest (roots db))" rs]
  have mem: "mem_versions (memtable (roots db)) k q \<noteq> None \<longleftrightarrow> (\<exists>r \<in> set rs. key r = k \<and> seq r = q)" for k q
    using mem_insert_records [of mem_empty rs k q] unfolding m by simp
  have "seq r < global_seq db" if "r \<in> set rs" for r
  proof -
    have "mem_versions (memtable (roots db)) (key r) (seq r) \<noteq> None" using mem [of "key r" "seq r"] that by blast
    then obtain p where p: "mem_versions (memtable (roots db)) (key r) (seq r) = Some p" by blast
    moreover have "mem_versions (memtable (roots db)) (key r) \<in> set (levels e (roots db) (key r))" by (simp add: levels_def)
    ultimately have "db_versions e (roots db) (key r) (seq r) = Some p"
      unfolding db_versions_def merge_levels_iff [OF so] by blast
    from db_okD(3) [OF ok this] show ?thesis by simp
  qed
  then show "q0 \<le> global_seq db" using b mx unfolding q0_def by fastforce
  show "q \<le> q0" if v: "db_versions e (roots db) k q = Some p" for k q p
  proof -
    obtain l where l: "l \<in> set (levels e (roots db) k)" "l q = Some p"
      using v merge_levels_iff [OF so, of k q p] unfolding db_versions_def by blast
    then consider "mem_versions (memtable (roots db)) k q \<noteq> None" | "q \<in> table_seqs e (roots db)"
      using level_sources [OF fr l(1)] table_seqsI [of _ "roots db" e k q p] by (metis option.distinct(1))
    then show ?thesis
    proof cases
      case 1
      then show ?thesis using mem [of k q] b unfolding q0_def by blast
    next
      case 2
      then show ?thesis using ts b unfolding q0_def by (blast intro: order.trans)
    qed
  qed
qed

lemma max_u64: "unat (- 1 :: u64) = 2 ^ 64 - 1"
  by (simp add: unsigned_minus_1_eq_mask mask_eq_exp_minus_1)

lemma open_recovers:
  assumes rc: "recoverable e db" and z: "zero_crc_ok e" and io: "open_io_ok io" and d: "crash_image db d"
    and room: "unat (global_seq db) + 2 < 2 ^ 64"
  obtains db' d' where "open_db e io tok mp d = (Inr db', d')" and "recoverable e db'"
    and "db_cells e db' = db_cells e db" and "global_seq db' \<le> global_seq db + 1" and "group_idle (group_commit db')"
proof -
  let ?r = "roots db" let ?m = "manifest (roots db)"
  let ?m1 = "?m\<lparr>format_version := MANIFEST_FORMAT_VERSION\<rparr>"
  have ok: "db_ok e db" and t: "tables_on_disk db" and fr: "frozen_memtables ?r = []"
    using rc by (simp_all add: recoverable_def)
  obtain s where w: "wal_rel (crc_of e) (wal db) s []"
    and m: "memtable ?r = fold mem_insert_record (concat (map butlast s)) mem_empty"
    using rc unfolding recoverable_def by blast
  let ?rs = "concat (map butlast s)"
  let ?q = "recover_seq ?rs (max_seq ?m)"
  note q = recovered_seq [OF rc w m]
  obtain h where h: "d_heaps d (heap_path ?m) = Some h" "heap_durable db \<le> length h" "length h < 2 ^ 63"
    "take (heap_durable db) h = take (heap_durable db) (heap db)" using d unfolding crash_image_def by blast
  obtain wf where lg: "d_log d = LogContents wf" "wal_crash (wal db) wf" using d unfolding crash_image_def by blast
  have wf: "wf = wal_file (wal db)" using w lg(2) by (auto simp: wal_rel_def wal_crash_def)
  have rp: "replay_loop (crc_of e) wf = ?rs" using wal_crash_replay [OF w lg(2)] by auto
  have D: "d_manifest d = Some (Doc ?m1)" "d_files d = files db" "d_blooms d = bloom_files db"
    using d t by (simp_all add: crash_image_def tables_on_disk_def Let_def)
  have base: "files db (base_path ?m) = Some (base_mmap ?r)" "base_mmap ?r \<noteq> []"
    and bb: "bloom_files db (base_path ?m) \<in> {None, Some (base_bloom ?r)}"
    and tb: "\<forall>t \<in> set (sstables ?r @ l1_sstables ?r). stored (files db) (bloom_files db) t"
    and ml: "m_sstables ?m = map (snd \<circ> snd) (sstables ?r)" "m_l1_sstables ?m = map (snd \<circ> snd) (l1_sstables ?r)"
    using t by (simp_all add: tables_on_disk_def Let_def)
  have hb: "handle_ok e (base_mmap ?r, base_bloom ?r, base_path ?m)"
    using db_okD(1) [OF ok] by (simp add: roots_ok_def base_handle_def handle_ok_def)
  have fu: "(files db)(base_path ?m \<mapsto> base_mmap ?r) = files db" using base(1) by (simp add: fun_upd_idem)
  obtain b bs where lf: "load_filter e io (\<lambda>_. True) (base_mmap ?r) (base_path ?m) d = (Inr b, d\<lparr>d_blooms := bs\<rparr>)"
    and b: "bloom_ok b (table_records e (base_mmap ?r))" and bs: "bs = bloom_files db \<or> bs = (bloom_files db)(base_path ?m \<mapsto> b)"
    and b0: "bloom_files db (base_path ?m) = Some (base_bloom ?r) \<Longrightarrow> b = base_bloom ?r"
    by (rule load_filter_ok [OF hb z, of d "\<lambda>_. True" io]) (use bb D in simp_all)
  have bsx: "bs p = Some x" if "bloom_files db p = Some x" for p x using bs b0 bb that by (auto split: if_splits)
  have tb': "\<forall>t \<in> set (sstables ?r @ l1_sstables ?r). stored (files db) bs t"
    using tb bsx unfolding stored_def by blast
  let ?d2 = "d\<lparr>d_blooms := bs\<rparr>"
  have lt: "load_tables e io (map (snd \<circ> snd) (sstables ?r)) ?d2 = (Inr (sstables ?r), ?d2)"
    "load_tables e io (map (snd \<circ> snd) (l1_sstables ?r)) ?d2 = (Inr (l1_sstables ?r), ?d2)"
    by (rule load_tables_ok; use io tb' in \<open>simp add: open_io_ok_def D\<close>)+
  let ?rec = "\<lparr>rec_base_mmap = base_mmap ?r, rec_base_bloom = b, rec_sstables = sstables ?r, rec_l1_sstables = l1_sstables ?r,
    rec_manifest = ?m1, rec_heap = h, rec_wal = wal_new wf, rec_memtable = memtable ?r, rec_max_seq = ?q\<rparr>"
  have du: "d\<lparr>d_files := files db\<rparr> = d" using D(2) by (simp flip: D(2))
  have "recover_storage_roots e io mp d = (Inr ?rec, ?d2\<lparr>d_heaps := (d_heaps d)(heap_path ?m \<mapsto> h)\<rparr>)"
    using io unfolding recover_storage_roots_def open_manifest_def
    by (simp add: D base base_data_def fu du lf lt ml rp h(1) lg(1) log_file_def open_io_ok_def m Let_def MANIFEST_FORMAT_VERSION_def)
  then obtain db' d' where o: "open_db e io tok mp d = (Inr db', d')"
    and R: "roots db' = ?r\<lparr>base_bloom := b, manifest := ?m1, frozen_memtables := []\<rparr>" "global_seq db' = ?q + 1" "heap db' = h"
      "heap_durable db' = length h" "heap_offset db' = word_of_nat (length h)" "wal db' = wal_new wf" "block_cache db' = Map.empty"
      "group_commit db' = group_new" "files db' = files db" "bloom_files db' = bs" "manifest_file db' = Some ?m1"
    by (simp add: open_db_def D)
  have fr': "frozen_memtables (roots db') = []" by (simp add: R)
  have lv: "levels e (roots db') k = levels e ?r k" for k by (simp add: levels_def R fr base_handle_def handle_versions_def)
  have ro: "roots_ok e (roots db')"
    using db_okD(1) [OF ok] b unfolding roots_ok_def lv by (simp add: R fr base_handle_def handle_ok_def)
  have qq: "unat ?q \<le> unat (global_seq db)" using q(1) by (simp add: word_le_nat_alt)
  then have q1: "unat (?q + 1) = unat ?q + 1" "unat (global_seq db + 1) = unat (global_seq db) + 1"
    using room by (simp_all add: unat_word_ariths)
  have lt1: "?q < ?q + 1" "0 < ?q + 1" using q1(1) by (simp_all add: word_less_nat_alt)
  have C: "db_ok e db' \<and> db_cells e db' = db_cells e db"
  proof (rule db_ok_reopen [OF ok ro])
    show "db_versions e (roots db') k = db_versions e ?r k" for k by (simp add: db_versions_def lv)
    show "q < global_seq db'" if "db_versions e ?r k q = Some p" for k q p
      unfolding R(2) by (rule le_less_trans [OF q(2) [OF that] lt1(1)])
  qed (use h lt1(2) in \<open>simp_all add: R\<close>)
  have "tables_on_disk db'"
    using base bs b0 bb tb' by (auto simp: tables_on_disk_def R ml Let_def)
  moreover have "wal_rel (crc_of e) (wal db') s []" using w by (simp add: R wal_rel_def wal_new_def wf)
  moreover have "\<forall>q \<in> table_seqs e (roots db'). q \<le> max_seq (manifest (roots db'))"
    using rc unfolding recoverable_def table_seqs_def by (simp add: R base_handle_def handle_versions_def)
  moreover have "max_seq ?m \<le> ?q + 1" using recover_seq_bounds [of "max_seq ?m" ?rs] lt1(1) by (meson less_imp_le order.trans)
  moreover have "?q + 1 < - 1" using q1(1) qq room by (simp add: word_less_nat_alt max_u64)
  ultimately have "recoverable e db'" using C fr' m unfolding recoverable_def by (auto simp: R)
  moreover have "global_seq db' \<le> global_seq db + 1" using q1 qq by (simp add: R(2) word_le_nat_alt)
  moreover have "group_idle (group_commit db')" unfolding R(8) by (simp add: group_idle_def group_new_def)
  ultimately show thesis using C by (intro that [OF o]) simp_all
qed

end
