(* ===== verification/Recovery_Run.thy ===== *)
theory Recovery_Run
  imports Recovery
begin

text \<open>
  Which operations keep a database rebuildable, and what follows for clients: acknowledged batches
  survive any sequence of commits, reads, flushes, crashes and reopenings, while a failed flush
  and a garbage collection can lose them at the next crash or reopening.
\<close>

section \<open>An empty directory\<close>

definition empty_disk :: disk where
  "empty_disk = \<lparr>d_manifest = None, d_files = Map.empty, d_blooms = Map.empty, d_heaps = Map.empty, d_log = LogMissing\<rparr>"

lemma open_empty:
  assumes z: "zero_crc_ok e" and io: "open_io_ok io"
  obtains db d where "open_db e io tok mp empty_disk = (Inr db, d)" and "recoverable e db"
    and "db_cells e db = (\<lambda>_ _. None)" and "global_seq db = 1" and "group_idle (group_commit db)"
    and "roots db = roots (fresh_db e tok mp)" and "heap db = []" and "heap_offset db = 0" and "compaction_policy db = default_policy"
proof -
  let ?f = "fresh_db e tok mp" let ?m = "new_manifest mp" let ?b = "bloom_new (bloom_dims e) 100"
  have it: "iter_from (crc_of e) (replicate 4096 0) [] = Inr []" using z by (simp add: zero_table zero_crc_ok_def)
  let ?d0 = "empty_disk\<lparr>d_manifest := Some (Doc ?m)\<rparr>"
  let ?d1 = "?d0\<lparr>d_files := Map.empty(base_path ?m \<mapsto> replicate 4096 0)\<rparr>"
  have om: "open_manifest (new_manifest_io io) mp empty_disk = (Inr ?m, ?d0)"
    using io by (simp add: open_manifest_def open_io_ok_def Let_def empty_disk_def)
  define bs where "bs = (if save_bloom_io io (base_path ?m) then Map.empty(base_path ?m \<mapsto> ?b) else Map.empty)"
  have lf: "load_filter e io (\<lambda>_. True) (replicate 4096 0) (base_path ?m) ?d1 = (Inr ?b, ?d1\<lparr>d_blooms := bs\<rparr>)"
    using it by (simp add: load_filter_def bs_def empty_disk_def)
  have m: "m_sstables ?m = []" "m_l1_sstables ?m = []" "max_seq ?m = 0" by (simp_all add: new_manifest_def)
  have e0: "d_files empty_disk = Map.empty" "d_log empty_disk = LogMissing" "d_heaps empty_disk = Map.empty" by (simp_all add: empty_disk_def)
  have rr: "recover_storage_roots e io mp empty_disk =
      (Inr \<lparr>rec_base_mmap = replicate 4096 0, rec_base_bloom = ?b, rec_sstables = [], rec_l1_sstables = [], rec_manifest = ?m,
         rec_heap = [], rec_wal = wal_new [], rec_memtable = mem_empty, rec_max_seq = 0\<rparr>,
       ?d1\<lparr>d_blooms := bs, d_heaps := Map.empty(heap_path ?m \<mapsto> [])\<rparr>)"
    using io unfolding recover_storage_roots_def om
    by (simp add: e0 base_data_def lf m log_file_def open_io_ok_def Let_def)
  obtain db d where o: "open_db e io tok mp empty_disk = (Inr db, d)"
    and R: "roots db = roots ?f" "global_seq db = 1" "heap db = []" "heap_durable db = 0" "heap_offset db = 0"
      "wal db = wal_new []" "block_cache db = Map.empty" "group_commit db = group_new" "compaction_policy db = default_policy"
      "files db = Map.empty(base_path ?m \<mapsto> replicate 4096 0)" "manifest_file db = Some ?m" "bloom_files db = bs"
    by (simp add: open_db_def rr) (simp add: fresh_db_def new_manifest_def MANIFEST_FORMAT_VERSION_def Let_def)
  have F: "heap ?f = []" "heap_durable ?f = 0" "heap_offset ?f = 0" "block_cache ?f = Map.empty" "global_seq ?f = 1"
    "sstables (roots ?f) = []" "l1_sstables (roots ?f) = []" "frozen_memtables (roots ?f) = []" "memtable (roots ?f) = mem_empty"
    "manifest (roots ?f) = ?m" "base_mmap (roots ?f) = replicate 4096 0" "base_bloom (roots ?f) = ?b" "max_seq ?m = 0"
    "m_sstables ?m = []" "m_l1_sstables ?m = []" "format_version ?m = MANIFEST_FORMAT_VERSION"
    by (simp_all add: fresh_db_def Let_def new_manifest_def MANIFEST_FORMAT_VERSION_def)
  have C: "db_ok e db \<and> db_cells e db = db_cells e ?f"
    by (rule db_frame [OF fresh_db_ok(1) [OF z]]) (simp_all add: R F)
  have fm: "?m\<lparr>format_version := MANIFEST_FORMAT_VERSION\<rparr> = ?m" by (simp add: new_manifest_def)
  have "tables_on_disk db" by (simp add: tables_on_disk_def R(1,10-12) F fm bs_def Let_def)
  moreover have "table_seqs e (roots db) = {}"
    using z by (simp add: table_seqs_def R(1) F base_handle_def handle_versions_def table_records_def zero_table zero_crc_ok_def rec_versions_def)
  moreover have "\<exists>s. wal_rel (crc_of e) (wal db) s [] \<and> memtable (roots db) = fold mem_insert_record (concat (map butlast s)) mem_empty"
    by (intro exI [of _ "[]"]) (simp add: R F wal_rel_def wal_new_def)
  moreover have "(1 :: u64) < - 1" by (simp add: word_less_nat_alt max_u64)
  ultimately have "recoverable e db" using C unfolding recoverable_def by (simp add: R F)
  then show thesis using C fresh_db_ok(2) [OF z]
    by (intro that [OF o]) (simp_all add: R(1-6,8,9) group_idle_def group_new_def)
qed

section \<open>Commits\<close>

lemma write_recs_valid: "r \<in> set (write_recs e q off ps) \<Longrightarrow> is_valid (crc_of e) r"
  by (induction e q off ps rule: write_recs.induct) auto

lemma delete_recs_valid: "r \<in> set (delete_recs e q ks) \<Longrightarrow> is_valid (crc_of e) r"
  by (induction e q ks rule: delete_recs.induct) auto

lemma batch_records_committed:
  assumes "tx_ok tx"
  shows "committed_batch (crc_of e) (batch_records e q off (prep_writes e (buffered_writes tx)) (buffered_deletes tx))"
    and "filter (\<lambda>r. \<not> is_marker r) (batch_records e q off (prep_writes e (buffered_writes tx)) (buffered_deletes tx)) =
      butlast (batch_records e q off (prep_writes e (buffered_writes tx)) (buffered_deletes tx))"
proof -
  let ?ps = "prep_writes e (buffered_writes tx)" let ?ks = "buffered_deletes tx"
  let ?rs = "write_recs e q off ?ps @ delete_recs e (q + word_of_nat (length ?ps)) ?ks"
  have b: "batch_records e q off ?ps ?ks = ?rs @ [record_new (crc_of e) (q + word_of_nat (length ?ps + length ?ks)) COMMIT_MARKER
      (word_of_nat (length ?ps + length ?ks)) 0 0 0]" by (simp add: batch_records_def Let_def)
  have kk: "map key ?rs = map fst (buffered_writes tx) @ ?ks" by (simp add: write_recs_keys delete_recs_keys)
  have "key r \<in> set (map fst (buffered_writes tx) @ ?ks)" if "r \<in> set ?rs" for r
    using that unfolding kk [symmetric] by auto
  then have k: "\<forall>r \<in> set ?rs. key_ok (key r)" using assms unfolding tx_ok_def by fastforce
  have v: "\<forall>r \<in> set ?rs. is_valid (crc_of e) r" using write_recs_valid delete_recs_valid by auto
  have n: "length ?rs = op_count tx" using arg_cong [OF kk, of length] by (simp add: op_count_def)
  have "op_count tx \<le> 10000" using assms by (simp add: tx_ok_def batch_ok_def MAX_BATCH_SIZE_def)
  then show "committed_batch (crc_of e) (batch_records e q off ?ps ?ks)"
    using k v n unfolding b committed_batch_def wf_batch_def
    by (auto simp: storable_def key_ok_def is_marker_iff COMMIT_MARKER_def)
  show "filter (\<lambda>r. \<not> is_marker r) (batch_records e q off ?ps ?ks) = butlast (batch_records e q off ?ps ?ks)"
    using k unfolding b by (auto simp: filter_id_conv is_marker_iff key_ok_def butlast_append)
qed

lemma group_sync_log:
  assumes "group_sync io db = (None, db')" and "current_epoch (group_commit db) = 0"
  shows "wal db' = mark_pending_durable (wal db) \<and> files db' = files db \<and> bloom_files db' = bloom_files db \<and>
    manifest_file db' = manifest_file db \<and> compaction_policy db' = compaction_policy db"
  using assms
  by (auto simp: group_sync_def join_enter_def begin_next_sync_def sync_group_commit_files_def wal_sync_def Let_def
      split: option.splits if_splits sum.splits)

lemma commit_recoverable:
  assumes rc: "recoverable e db" and e: "env_ok e" and tx: "tx_ok tx" "room_for e tx db"
    and room: "unat (global_seq db) + op_count tx + 2 < 2 ^ 64"
    and lead: "current_epoch (group_commit db) = 0" and c: "commit_batch_local e io tx db = (Inr q, db')"
  shows "recoverable e db'"
proof -
  let ?ps = "prep_writes e (buffered_writes tx)"
  let ?rs = "batch_records e (global_seq db) (heap_offset db) ?ps (buffered_deletes tx)"
  have ok: "db_ok e db" and t: "tables_on_disk db" and fr: "frozen_memtables (roots db) = []"
    and ts: "\<forall>q \<in> table_seqs e (roots db). q \<le> max_seq (manifest (roots db))" and mx: "max_seq (manifest (roots db)) \<le> global_seq db"
    using rc by (simp_all add: recoverable_def)
  obtain s where w: "wal_rel (crc_of e) (wal db) s []"
    and m: "memtable (roots db) = fold mem_insert_record (concat (map butlast s)) mem_empty"
    using rc unfolding recoverable_def by blast
  note A = commit_acked [OF ok e tx lead c]
  note B = batch_records_committed [OF tx(1), of e "global_seq db" "heap_offset db"]
  obtain w db3 where a: "append_batch_nosync (crc_of e) (wal_flush io) ?rs (wal db) = (Inr (), w)"
    and g: "group_sync io ((heap_put (unat (heap_offset db)) (payload ?ps) (reserve (length ?ps + length (buffered_deletes tx)) (total_heap_bytes ?ps) db))\<lparr>wal := w\<rparr>) = (None, db3)"
    and d: "db' = publish ?rs db3"
    using c by (auto simp: commit_batch_local_def Let_def split: if_splits option.splits prod.splits sum.splits)
  define db2 where "db2 = (heap_put (unat (heap_offset db)) (payload ?ps) (reserve (length ?ps + length (buffered_deletes tx)) (total_heap_bytes ?ps) db))\<lparr>wal := w\<rparr>"
  have "wal_flush io = Flushed" using a by (auto simp: append_batch_nosync_def wal_write_def Let_def split: flush_io.splits)
  then have 2: "roots db2 = roots db" "wal db2 = wal_step (crc_of e) (LAppend ?rs) (wal db)" "files db2 = files db"
      "bloom_files db2 = bloom_files db" "manifest_file db2 = manifest_file db" "group_commit db2 = group_commit db"
    using a by (simp_all add: db2_def heap_put_def reserve_def)
  have g: "group_sync io db2 = (None, db3)" using g by (simp add: db2_def)
  note G = group_sync_log [OF g] group_sync_frame [OF g]
  have "wal_rel (crc_of e) (wal_step (crc_of e) (LAppend ?rs) (wal db)) s [?rs]"
    by (rule wal_step_rel [OF w]) (use B(1) in \<open>simp_all add: ops_ok_def\<close>)
  then have "wal_rel (crc_of e) (wal_step (crc_of e) (LSync True) (wal db2)) (s @ [?rs]) []"
    unfolding 2(2) by (rule wal_step_rel) (simp_all add: ops_ok_def)
  moreover have "wal db' = wal_step (crc_of e) (LSync True) (wal db2)"
    using G lead 2(6) by (simp add: d publish_def wal_sync_def)
  ultimately have "wal_rel (crc_of e) (wal db') (s @ [?rs]) []" by simp
  moreover have "memtable (roots db') = fold mem_insert_record (concat (map butlast (s @ [?rs]))) mem_empty"
    using G 2 lead by (simp add: d publish_def B(2) m)
  moreover have "tables_on_disk db'" using t G 2 lead by (simp add: tables_on_disk_def d publish_def Let_def)
  moreover have "\<forall>q \<in> table_seqs e (roots db'). q \<le> max_seq (manifest (roots db'))"
    using ts G 2 unfolding d by (simp add: table_seqs_def base_handle_def publish_def)
  moreover have "max_seq (manifest (roots db')) \<le> global_seq db'"
    using mx A G 2 by (simp add: d publish_def word_le_nat_alt)
  moreover have "global_seq db' < - 1" using A room by (simp add: word_less_nat_alt max_u64)
  moreover have "frozen_memtables (roots db') = []" using G 2 fr by (simp add: d publish_def)
  ultimately show ?thesis using A unfolding recoverable_def by blast
qed

lemma recoverable_frame:
  assumes "recoverable e db" and "db_ok e db'" and "roots db' = roots db" and "wal db' = wal db" and "files db' = files db"
    and "bloom_files db' = bloom_files db" and "manifest_file db' = manifest_file db"
    and "global_seq db \<le> global_seq db'" and "global_seq db' < - 1"
  shows "recoverable e db'"
proof -
  have "tables_on_disk db'" using assms by (simp add: recoverable_def tables_on_disk_def Let_def)
  moreover have "max_seq (manifest (roots db)) \<le> global_seq db'"
    using assms(1,8) unfolding recoverable_def by (blast intro: order.trans)
  ultimately show ?thesis using assms unfolding recoverable_def by auto
qed

lemma group_sync_files:
  "group_sync io db = (r, db') \<Longrightarrow> roots db' = roots db \<and> global_seq db' = global_seq db \<and> files db' = files db \<and> bloom_files db' = bloom_files db \<and> manifest_file db' = manifest_file db"
  by (auto simp: group_sync_def sync_group_commit_files_def Let_def split: prod.splits join_outcome.splits option.splits if_splits sum.splits)

lemma commit_error_frame:
  assumes "commit_batch_local e io tx db = (Inl err, db')"
  shows "roots db' = roots db \<and> files db' = files db \<and> bloom_files db' = bloom_files db \<and> manifest_file db' = manifest_file db \<and>
    global_seq db' \<in> {global_seq db, global_seq db + word_of_nat (op_count tx + 1)}"
proof -
  have n: "op_count tx = length (prep_writes e (buffered_writes tx)) + length (buffered_deletes tx)"
    by (simp add: op_count_def prep_writes_def)
  show ?thesis
    using assms unfolding n
    by (auto simp: commit_batch_local_def heap_put_def reserve_def Let_def dest!: group_sync_files
        split: if_splits option.splits prod.splits sum.splits)
qed

lemma reject_recoverable:
  assumes rc: "recoverable e db" and e: "env_ok e" and tx: "tx_ok tx" "room_for e tx db"
    and room: "unat (global_seq db) + op_count tx + 2 < 2 ^ 64"
    and c: "commit_batch_local e io tx db = (Inl err, db')" and w: "wal db' = wal db"
  shows "recoverable e db'"
proof -
  have ok: "db_ok e db" using rc by (simp add: recoverable_def)
  note F = commit_failed [OF ok e tx c]
  note commit_error_frame [OF c]
  moreover have "global_seq db + word_of_nat (op_count tx + 1) < - 1"
    using room by (simp add: word_less_nat_alt max_u64 unat_word_ariths unat_of_nat)
  ultimately show ?thesis using F rc w by (intro recoverable_frame [OF rc]) (auto simp: recoverable_def)
qed

section \<open>Flushes\<close>

lemma install_done:
  assumes "install_table e io tag rs listing update db = (Inr u, db')"
  obtains path bf t where "files db path = None"
    and "db' = db\<lparr>file_seq := t, files := (files db)(path \<mapsto> sst_bytes rs), bloom_files := (bloom_files db)(path \<mapsto> bf),
      manifest_file := Some ((listing path (db\<lparr>file_seq := t, files := (files db)(path \<mapsto> sst_bytes rs),
        bloom_files := (bloom_files db)(path \<mapsto> bf)\<rparr>))\<lparr>format_version := 1\<rparr>),
      roots := update (sst_bytes rs, bf, path) (listing path (db\<lparr>file_seq := t, files := (files db)(path \<mapsto> sst_bytes rs),
        bloom_files := (bloom_files db)(path \<mapsto> bf)\<rparr>)) (roots db)\<rparr>"
proof -
  obtain h db1 where w: "write_output e io tag rs db = (Inr h, db1)"
    and s: "save_io io = Saved" "db' = db1\<lparr>manifest_file := Some ((listing (snd (snd h)) db1)\<lparr>format_version := 1\<rparr>),
      roots := update h (listing (snd (snd h)) db1) (roots db1)\<rparr>"
    using assms by (auto simp: install_table_def save_manifest_def Let_def split: sum.splits prod.splits manifest_io.splits)
  obtain bf path db0 where c: "create_unique_output tag ''.sst'' io db = (Inr path, db0)" "h = (sst_bytes rs, bf, path)"
    "db1 = db0\<lparr>files := (files db0)(path \<mapsto> sst_bytes rs), bloom_files := (bloom_files db0)(path \<mapsto> bf)\<rparr>"
    using w by (auto simp: write_output_def split: sum.splits prod.splits if_splits)
  obtain t where "db0 = db\<lparr>file_seq := t\<rparr>" "files db path = None"
    using c(1) create_attempts_result [of 32 "output_path db tag ''.sst'' io" "\<lambda>p. files db p \<noteq> None" "create_ok io" "file_seq db" "Inr path"]
    by (auto simp: create_unique_output_def simp del: create_attempts.simps split: prod.splits)
  then show thesis using that [of path bf t] c s by simp
qed

text \<open>What a successful flush leaves behind: the old tables and perhaps one more.\<close>

lemma flush_tables:
  assumes t: "tables_on_disk db" and fr: "frozen_memtables (roots db) = []" and c: "compact_sstables e io db = (Inr u, db')"
  obtains "tables_on_disk db'" and "roots db' = (roots db)\<lparr>memtable := mem_empty\<rparr>" and "wal db' = snd (rotate_segment (rotate_ok io) (wal db))"
  | bf path m where "tables_on_disk db'" and "roots db' = (roots db)\<lparr>memtable := mem_empty, sstables := sstables (roots db) @ [(sst_bytes (flush_records e db), bf, path)], manifest := m\<rparr>"
    and "max_seq m = max (max_seq (manifest (roots db))) (global_seq db)" and "wal db' = snd (rotate_segment (rotate_ok io) (wal db))"
proof (cases "flush_records e db = []")
  case True
  then have d: "db' = remove_frozen_memtable 0 (freeze io db)" using c fr by (simp add: compact_sstables_def Let_def)
  have r: "roots db' = (roots db)\<lparr>memtable := mem_empty\<rparr>" using fr unfolding d by (simp add: remove_frozen_memtable_def freeze_def)
  have "files db' = files db" "bloom_files db' = bloom_files db" "manifest_file db' = manifest_file db"
    "wal db' = snd (rotate_segment (rotate_ok io) (wal db))"
    using fr unfolding d by (simp_all add: remove_frozen_memtable_def freeze_def)
  then show thesis using t r by (intro that(1)) (simp_all add: tables_on_disk_def Let_def)
next
  case False
  then obtain db1 where i: "install_table e io ''_l0_0_'' (flush_records e db) l0_listing l0_update (freeze io db) = (Inr (), db1)"
    and d: "db' = remove_frozen_memtable 0 db1"
    using c fr by (auto simp: compact_sstables_def Let_def split: sum.splits prod.splits)
  let ?data = "sst_bytes (flush_records e db)" let ?m = "manifest (roots db)"
  obtain path bf t1 where p: "files (freeze io db) path = None"
    and d1: "db1 = (freeze io db)\<lparr>file_seq := t1, files := (files (freeze io db))(path \<mapsto> ?data),
      bloom_files := (bloom_files (freeze io db))(path \<mapsto> bf),
      manifest_file := Some ((l0_listing path ((freeze io db)\<lparr>file_seq := t1, files := (files (freeze io db))(path \<mapsto> ?data),
        bloom_files := (bloom_files (freeze io db))(path \<mapsto> bf)\<rparr>))\<lparr>format_version := 1\<rparr>),
      roots := l0_update (?data, bf, path) (l0_listing path ((freeze io db)\<lparr>file_seq := t1, files := (files (freeze io db))(path \<mapsto> ?data),
        bloom_files := (bloom_files (freeze io db))(path \<mapsto> bf)\<rparr>)) (roots (freeze io db))\<rparr>"
    by (rule install_done [OF i]) (rule that)
  let ?m1 = "?m\<lparr>m_sstables := m_sstables ?m @ [path], max_seq := max (max_seq ?m) (global_seq db)\<rparr>"
  have R: "roots db' = (roots db)\<lparr>memtable := mem_empty, sstables := sstables (roots db) @ [(?data, bf, path)], manifest := ?m1\<rparr>"
    "files db' = (files db)(path \<mapsto> ?data)" "bloom_files db' = (bloom_files db)(path \<mapsto> bf)"
    "manifest_file db' = Some (?m1\<lparr>format_version := 1\<rparr>)" "wal db' = snd (rotate_segment (rotate_ok io) (wal db))"
    using fr unfolding d d1 by (simp_all add: remove_frozen_memtable_def freeze_def)
  have pn: "files db path = None" using p by (simp add: freeze_def)
  have B: "files db (base_path ?m) = Some (base_mmap (roots db))" "base_mmap (roots db) \<noteq> []"
    "bloom_files db (base_path ?m) \<in> {None, Some (base_bloom (roots db))}"
    and T: "\<forall>t \<in> set (sstables (roots db) @ l1_sstables (roots db)). stored (files db) (bloom_files db) t"
    and M: "m_sstables ?m = map (snd \<circ> snd) (sstables (roots db))" "m_l1_sstables ?m = map (snd \<circ> snd) (l1_sstables (roots db))"
    using t by (simp_all add: tables_on_disk_def Let_def)
  have "stored (files db') (bloom_files db') t" if "stored (files db) (bloom_files db) t" for t
    using that pn by (auto simp: stored_def R)
  moreover have "stored (files db') (bloom_files db') (?data, bf, path)" by (simp add: stored_def R)
  ultimately have T': "\<forall>t \<in> set (sstables (roots db') @ l1_sstables (roots db')). stored (files db') (bloom_files db') t"
    using T by (simp add: R(1) ball_Un)
  have pb: "path \<noteq> base_path ?m" using pn B(1) by auto
  have B': "files db' (base_path ?m) = Some (base_mmap (roots db))" "bloom_files db' (base_path ?m) \<in> {None, Some (base_bloom (roots db))}"
    using pb B by (simp_all add: R(2,3))
  have "tables_on_disk db'"
    unfolding tables_on_disk_def Let_def
    by (intro conjI) (use T' B' B(2) M in \<open>simp_all add: R(1,4) MANIFEST_FORMAT_VERSION_def\<close>)
  then show thesis using that(2) [of ?m1 bf path] R by simp
qed

lemma flush_recoverable:
  assumes rc: "recoverable e db" and z: "zero_crc_ok e" and fit: "fits (flush_records e db)" and ro: "rotate_ok io"
    and c: "compact_sstables e io db = (Inr u, db')"
  shows "recoverable e db' \<and> db_cells e db' = db_cells e db \<and> global_seq db' = global_seq db"
proof -
  have ok: "db_ok e db" and t: "tables_on_disk db" and fr: "frozen_memtables (roots db) = []"
    and ts: "\<forall>q \<in> table_seqs e (roots db). q \<le> max_seq (manifest (roots db))"
    and mx: "max_seq (manifest (roots db)) \<le> global_seq db" "global_seq db < - 1"
    using rc by (simp_all add: recoverable_def)
  obtain s where w: "wal_rel (crc_of e) (wal db) s []" using rc unfolding recoverable_def by blast
  note F = flush_ok [OF ok z fr fit c]
  have st: "global_seq db' = global_seq db" using F by (simp add: same_store_def)
  have fm: "frozen_memtables (roots db') = []" "memtable (roots db') = mem_empty" using F by simp_all
  have "wal_rel (crc_of e) (wal_step (crc_of e) LRotate (wal db)) [] []" by (rule wal_step_rel [OF w]) (simp_all add: ops_ok_def)
  then have W: "\<exists>s. wal_rel (crc_of e) (wal db') s [] \<and> memtable (roots db') = fold mem_insert_record (concat (map butlast s)) mem_empty"
    if "wal db' = snd (rotate_segment (rotate_ok io) (wal db))"
    using that ro fm by (intro exI [of _ "[]"]) simp
  have "tables_on_disk db' \<and> wal db' = snd (rotate_segment (rotate_ok io) (wal db)) \<and>
      (\<forall>q \<in> table_seqs e (roots db'). q \<le> max_seq (manifest (roots db'))) \<and> max_seq (manifest (roots db')) \<le> global_seq db"
    using t fr c
  proof (cases rule: flush_tables)
    case 1
    then have "table_seqs e (roots db') = table_seqs e (roots db)" by (simp add: table_seqs_def base_handle_def)
    then show ?thesis using 1 ts mx by simp
  next
    case (2 bf path m)
    let ?h = "(sst_bytes (flush_records e db), bf, path)"
    have hv: "handle_versions e ?h = mem_versions (memtable (roots db))"
      using flush_entries [OF ok fit] sst_iter_records [of "crc_of e" "flush_records e db" 0]
      by (simp add: handle_versions_def table_records_def)
    have hs: "set (base_handle (roots db') # sstables (roots db') @ l1_sstables (roots db')) =
        insert ?h (set (base_handle (roots db) # sstables (roots db) @ l1_sstables (roots db)))"
      by (auto simp: 2(2) base_handle_def)
    have "q \<le> max_seq m" if q: "q \<in> table_seqs e (roots db')" for q
    proof -
      obtain t k where tk: "t \<in> set (base_handle (roots db) # sstables (roots db) @ l1_sstables (roots db)) \<or> t = ?h" "handle_versions e t k q \<noteq> None"
        using q unfolding table_seqs_def hs by blast
      show ?thesis
      proof (cases "t = ?h")
        case True
        then obtain p where "mem_versions (memtable (roots db)) k q = Some p" using tk(2) hv by auto
        then have "db_versions e (roots db) k q = Some p" by (simp add: db_versions_def levels_def)
        then show ?thesis using db_okD(3) [OF ok] 2(3) by (fastforce simp: less_imp_le le_max_iff_disj)
      next
        case False
        then have "q \<in> table_seqs e (roots db)" using tk unfolding table_seqs_def by blast
        then show ?thesis using ts 2(3) by (simp add: le_max_iff_disj)
      qed
    qed
    then show ?thesis using 2 mx by simp
  qed
  then show ?thesis using F W fm st mx unfolding recoverable_def by simp
qed

section \<open>Runs with crashes\<close>

text \<open>Commits with their outcomes, reads, snapshots, flushes that succeed, and crashes followed by
  a reopening. A commit that fails does so before it reaches the log.\<close>

inductive durable_run :: "env \<Rightarrow> OmniKV \<Rightarrow> (u64 \<times> WriteBatch) list \<Rightarrow> OmniKV \<Rightarrow> bool" for e db0 where
  dur_start: "durable_run e db0 [] db0"
| dur_commit: "durable_run e db0 H db \<Longrightarrow> tx_ok tx \<Longrightarrow> room_for e tx db \<Longrightarrow>
    unat (global_seq db) + op_count tx + 2 < 2 ^ 64 \<Longrightarrow>
    commit_batch_local e io tx db = (Inr q, db') \<Longrightarrow> durable_run e db0 (H @ [(global_seq db, tx)]) db'"
| dur_reject: "durable_run e db0 H db \<Longrightarrow> tx_ok tx \<Longrightarrow> room_for e tx db \<Longrightarrow>
    unat (global_seq db) + op_count tx + 2 < 2 ^ 64 \<Longrightarrow>
    commit_batch_local e io tx db = (Inl err, db') \<Longrightarrow> wal db' = wal db \<Longrightarrow> durable_run e db0 H db'"
| dur_find: "durable_run e db0 H db \<Longrightarrow> db_find e now k s db = (r, db') \<Longrightarrow> durable_run e db0 H db'"
| dur_scan: "durable_run e db0 H db \<Longrightarrow> db_scan e now k k' s db = (r', db') \<Longrightarrow> durable_run e db0 H db'"
| dur_snapshot: "durable_run e db0 H db \<Longrightarrow> durable_run e db0 H (snd (snapshot db))"
| dur_unregister: "durable_run e db0 H db \<Longrightarrow> durable_run e db0 H (unregister_snapshot s db)"
| dur_flush: "durable_run e db0 H db \<Longrightarrow> fits (flush_records e db) \<Longrightarrow> rotate_ok cio \<Longrightarrow>
    compact_sstables e cio db = (Inr u, db') \<Longrightarrow> durable_run e db0 H db'"
| dur_crash: "durable_run e db0 H db \<Longrightarrow> crash_image db d \<Longrightarrow> open_io_ok oio \<Longrightarrow>
    unat (global_seq db) + 2 < 2 ^ 64 \<Longrightarrow> open_db e oio tok mp d = (Inr db', d') \<Longrightarrow> durable_run e db0 H db'"

lemma flush_lead: "compact_sstables e io db = (r, db') \<Longrightarrow> group_commit db' = group_commit db"
  by (auto simp: compact_sstables_def install_table_def write_output_def create_unique_output_def save_manifest_def
      discard_output_def remove_frozen_memtable_def freeze_def Let_def split: sum.splits prod.splits if_splits manifest_io.splits)

lemma recoverable_cache:
  "recoverable e db \<Longrightarrow> db_ok e (db\<lparr>block_cache := c\<rparr>) \<Longrightarrow> recoverable e (db\<lparr>block_cache := c\<rparr>)"
  by (rule recoverable_frame [of e db]) (auto simp: recoverable_def)

lemma recoverable_snapshots:
  assumes "recoverable e db" shows "recoverable e (db\<lparr>active_snapshots := c\<rparr>)"
proof -
  have "db_ok e (db\<lparr>active_snapshots := c\<rparr>)" using assms db_frame [of e db "db\<lparr>active_snapshots := c\<rparr>"] by (simp add: recoverable_def)
  then show ?thesis by (rule recoverable_frame [OF assms]) (use assms in \<open>simp_all add: recoverable_def\<close>)
qed

lemma durable_run_ok:
  assumes e: "env_ok e" "zero_crc_ok e" and db0: "recoverable e db0" "current_epoch (group_commit db0) = 0"
    and "durable_run e db0 H db"
  shows "recoverable e db \<and> current_epoch (group_commit db) = 0 \<and> db_cells e db = replay_history H (db_cells e db0)"
  using assms(5)
proof induction
  case dur_start
  then show ?case using db0 by simp
next
  case (dur_commit H db tx io q db')
  have ok: "db_ok e db" "current_epoch (group_commit db) = 0" using dur_commit.IH by (simp_all add: recoverable_def)
  show ?case
    using commit_acked [OF ok(1) e(1) dur_commit(2,3) ok(2) dur_commit(5)] commit_lead [OF ok(2) dur_commit(5)]
      commit_recoverable [OF _ e(1) dur_commit(2-4) ok(2) dur_commit(5)] dur_commit.IH
    by (simp add: replay_history_append)
next
  case (dur_reject H db tx io err db')
  have ok: "db_ok e db" "current_epoch (group_commit db) = 0" using dur_reject.IH by (simp_all add: recoverable_def)
  show ?case
    using commit_failed [OF ok(1) e(1) dur_reject(2,3,5)] commit_lead [OF ok(2) dur_reject(5)]
      reject_recoverable [OF _ e(1) dur_reject(2-6)] dur_reject.IH by simp
next
  case (dur_find H db now k s r db')
  have ok: "db_ok e db" using dur_find.IH by (simp add: recoverable_def)
  obtain c where c: "db' = db\<lparr>block_cache := c\<rparr>" "db_ok e db'" using find_spec [OF ok, of now k s] dur_find(2) by auto
  then show ?case using dur_find.IH recoverable_cache [of e db c] by (simp add: db_cells_def [abs_def])
next
  case (dur_scan H db now k k' s r db')
  have ok: "db_ok e db" using dur_scan.IH by (simp add: recoverable_def)
  obtain c where c: "db' = db\<lparr>block_cache := c\<rparr>" "db_ok e db'" using scan_spec [OF ok, of now k k' s] dur_scan(2) by auto
  then show ?case using dur_scan.IH recoverable_cache [of e db c] by (simp add: db_cells_def [abs_def])
next
  case (dur_snapshot H db)
  obtain c where "snd (snapshot db) = db\<lparr>active_snapshots := c\<rparr>" using snapshot_frame by blast
  then show ?case using dur_snapshot.IH recoverable_snapshots [of e db c] by (simp add: db_cells_def [abs_def])
next
  case (dur_unregister H db s)
  obtain c where "unregister_snapshot s db = db\<lparr>active_snapshots := c\<rparr>" using snapshot_frame by blast
  then show ?case using dur_unregister.IH recoverable_snapshots [of e db c] by (simp add: db_cells_def [abs_def])
next
  case (dur_flush H db cio u db')
  then show ?case using flush_recoverable [OF _ e(2) dur_flush(2-4)] flush_lead [OF dur_flush(4)] by simp
next
  case (dur_crash H db d oio tok mp db' d')
  obtain db1 d1 where "open_db e oio tok mp d = (Inr db1, d1)" "recoverable e db1" "db_cells e db1 = db_cells e db" "group_idle (group_commit db1)"
    by (rule open_recovers [OF _ e(2) dur_crash(3,2,4), of tok mp]) (use dur_crash.IH in auto)
  then show ?case using dur_crash by (simp add: group_idle_def)
qed


definition full_image :: "OmniKV \<Rightarrow> disk" where
  "full_image db = \<lparr>d_manifest = map_option Doc (manifest_file db), d_files = files db, d_blooms = bloom_files db,
     d_heaps = Map.empty(heap_path (manifest (roots db)) \<mapsto> heap db), d_log = LogContents (wal_file (wal db))\<rparr>"

lemma full_image_crash: "heap_durable db \<le> length (heap db) \<Longrightarrow> length (heap db) < 2 ^ 63 \<Longrightarrow> crash_image db (full_image db)"
  unfolding crash_image_def full_image_def wal_crash_def
  by (auto intro!: exI [of _ "max (durable_offset (wal db)) (length (wal_file (wal db)))"])

definition demo_oio :: open_io where
  "demo_oio = \<lparr>new_manifest_io = Saved, open_base_io = True, map_io = (\<lambda>_. True), save_bloom_io = (\<lambda>_. True),
     open_heap_io = True, open_wal_io = True\<rparr>"

lemma demo_oio_ok [simp]: "open_io_ok demo_oio"
  by (simp add: open_io_ok_def demo_oio_def)

text \<open>The value \<^verbatim>\<open>1\<close> under the key \<^verbatim>\<open>a\<close> of a new database.\<close>

lemma demo_opened:
  obtains db0 d0 q db where "open_db demo_env demo_oio 7 [109] empty_disk = (Inr db0, d0)"
    and "commit_batch_local demo_env demo_io (set_tx [97] [49]) db0 = (Inr q, db)"
    and "durable_run demo_env db0 [(1, set_tx [97] [49])] db" and "recoverable demo_env db"
    and "roots db = (roots demo_db)\<lparr>memtable := mem_insert [97] 1 demo_ptr mem_empty\<rparr>" and "heap db = [49]"
    and "heap_offset db = 1" and "global_seq db = 3" and "group_idle (group_commit db)" and "compaction_policy db = default_policy"
    and "\<And>s now. 1 \<le> s \<Longrightarrow> spec_read (db_cells demo_env db) now [97] s = Some [49]"
    and "heap_durable db = 1" and "crash_image db (full_image db)"
proof -
  let ?tx = "set_tx [97] [49]"
  obtain db0 d0 where o: "open_db demo_env demo_oio 7 [109] empty_disk = (Inr db0, d0)" and rc0: "recoverable demo_env db0"
    and D: "db_cells demo_env db0 = (\<lambda>_ _. None)" "global_seq db0 = 1" "group_idle (group_commit db0)"
      "roots db0 = roots demo_db" "heap db0 = []" "heap_offset db0 = 0" "compaction_policy db0 = default_policy"
    by (rule open_empty [OF demo_ok(2) demo_oio_ok, of 7 "[109]", folded demo_db_def]) (rule that)
  have st: "\<not> write_stalled demo_io db0"
    by (simp add: write_stalled_def D) (simp add: demo_db_def fresh_db_def default_policy_def Let_def)
  have me: "memtable (roots demo_db) = mem_empty" by (simp add: demo_db_def fresh_db_def Let_def)
  obtain q db where c: "commit_batch_local demo_env demo_io ?tx db0 = (Inr q, db)"
    and F: "roots db = (roots db0)\<lparr>memtable := mem_insert [97] (global_seq db0)
      (heap_offset db0, word_of_nat (length [49::u8]) OR UNCOMPRESSED_FLAG, 1, 0) (memtable (roots db0))\<rparr>"
      "heap db = write_at (unat (heap_offset db0)) [49] (heap db0)"
      "heap_offset db = heap_offset db0 + word_of_nat (length [49::u8])" "global_seq db = global_seq db0 + 2"
      "compaction_policy db = compaction_policy db0" "group_idle (group_commit db)" "heap_durable db = length (heap db)"
    by (rule commit_set [of "[49]" "[97]" db0]) (simp_all add: COMMIT_MARKER_def st D)
  have tx: "tx_ok ?tx" by (rule set_tx_ok) (rule demo_keys)+
  have room: "room_for demo_env ?tx db0" "unat (global_seq db0) + op_count ?tx + 2 < 2 ^ 64"
    by (simp_all add: room_for_def D set_tx_def op_count_def prep_writes_def prep_value_def payload_def)
  have ep: "current_epoch (group_commit db0) = 0" using D(3) by (simp add: group_idle_def)
  have run: "durable_run demo_env db0 ([] @ [(global_seq db0, ?tx)]) db"
    by (rule dur_commit [OF dur_start tx room c])
  note A = durable_run_ok [OF demo_ok(1,2) rc0 ep run]
  have "spec_read (db_cells demo_env db) now [97] s = Some [49]" if "1 \<le> s" for s now
  proof -
    have "1 \<le> unat s" using that by (simp add: word_le_nat_alt)
    then have "unat (1 :: u64) + op_count ?tx \<le> unat s + 1" by (simp add: op_count_def set_tx_def)
    then have "spec_read (apply_batch 1 ?tx (\<lambda>_ _. None)) now [97] s = batch_read ?tx (\<lambda>now k. spec_read (\<lambda>_ _. None) now k s) now [97]"
      by (intro spec_read_batch(1)) (simp_all add: op_count_def set_tx_def)
    then show ?thesis using A by (simp add: D batch_read_def set_tx_def expired_def)
  qed
  moreover have "crash_image db (full_image db)" by (rule full_image_crash) (simp_all add: F D write_at_def)
  ultimately show thesis using o c run A F by (intro that) (simp_all add: D me write_at_def)
qed


section \<open>A crash after a failed flush\<close>

lemma uncreated_flush:
  assumes "zero_crc_ok e" and "\<not> create_ok io" and "flush_records e db \<noteq> []" and "compact_sstables e io db = (r, db1)"
  shows "isl r" and "\<exists>t. db1 = (freeze io db)\<lparr>file_seq := t\<rparr>"
proof -
  have ca: "isl (fst (create_attempts n path ex False tok))" for n path ex tok by (induction n arbitrary: tok) auto
  obtain bf where bf: "build_bloom e (length (flush_records e db)) (flush_records e db) = Inr bf" by (rule build_bloom_ok [OF assms(1)])
  obtain r1 t where r1: "create_attempts 32 (output_path (freeze io db) ''_l0_0_'' ''.sst'' io) (\<lambda>p. files (freeze io db) p \<noteq> None) False
      (file_seq (freeze io db)) = (r1, t)" by force
  then obtain err where "r1 = Inl err"
    using ca [of 32 "output_path (freeze io db) ''_l0_0_'' ''.sst'' io" "\<lambda>p. files (freeze io db) p \<noteq> None" "file_seq (freeze io db)"]
    by (auto simp: isl_def)
  then have c: "create_unique_output ''_l0_0_'' ''.sst'' io (freeze io db) = (Inl err, (freeze io db)\<lparr>file_seq := t\<rparr>)"
    using assms(2) r1 by (simp add: create_unique_output_def del: create_attempts.simps)
  then have "compact_sstables e io db = (Inl err, (freeze io db)\<lparr>file_seq := t\<rparr>)"
    using assms(3) by (simp add: compact_sstables_def install_table_def write_output_def bf Let_def)
  then show "isl r" "\<exists>t. db1 = (freeze io db)\<lparr>file_seq := t\<rparr>" using assms(4) by auto
qed

text \<open>C27. A flush empties the log before its table is written. When the table cannot be created the
  flush fails, and after a crash the acknowledged values of the memtable are gone: a lookup of a key
  that no table holds finds nothing. The witness commits a value, reads it after the failed flush,
  and no longer after the crash.\<close>

theorem failed_flush_loses_writes:
  assumes "recoverable e db" and "zero_crc_ok e" and "unat (global_seq db) + 2 < 2 ^ 64" and "open_io_ok oio"
    and "rotate_ok io" and "\<not> create_ok io" and "flush_records e db \<noteq> []" and "compact_sstables e io db = (r, db1)"
    and "crash_image db1 d" and "\<forall>t \<in> set (base_handle (roots db) # sstables (roots db) @ l1_sstables (roots db)). handle_versions e t k = Map.empty"
  shows "isl r \<and> (\<exists>db2 d2. open_db e oio tok mp d = (Inr db2, d2) \<and> fst (db_find e now k s db2) = Inr None)"
proof -
  let ?x = "(remove_frozen_memtable 0 (freeze io db))"
  have ok: "db_ok e db" and fr: "frozen_memtables (roots db) = []" using assms(1) by (simp_all add: recoverable_def)
  obtain t where d1: "db1 = (freeze io db)\<lparr>file_seq := t\<rparr>" using uncreated_flush(2) [OF assms(2,6-8)] by blast
  have X: "roots ?x = (roots db)\<lparr>memtable := mem_empty\<rparr>" "wal ?x = snd (rotate_segment True (wal db))" "files ?x = files db"
    "bloom_files ?x = bloom_files db" "manifest_file ?x = manifest_file db" "same_store ?x db"
    using fr assms(5) by (simp_all add: remove_frozen_memtable_def freeze_def same_store_def)
  have ci: "crash_image ?x d"
    using assms(9) fr unfolding d1 by (simp add: crash_image_def remove_frozen_memtable_def freeze_def)
  have so: "sorted_wrt above (levels e (roots db) k)" for k using db_okD(1) [OF ok] by (simp add: roots_ok_def)
  have lv: "levels e (roots db) k = mem_versions (memtable (roots db)) k # tl (levels e (roots db) k)"
      "levels e (roots ?x) k = Map.empty # tl (levels e (roots db) k)" for k
    by (simp_all add: levels_def X fr base_handle_def fun_eq_iff)
  have so': "sorted_wrt above (levels e (roots ?x) k)" for k
    using so [of k] unfolding lv(2) by (subst (asm) lv(1)) (simp add: above_def)
  have rok: "roots_ok e (roots ?x)"
    using db_okD(1) [OF ok] so' unfolding roots_ok_def by (simp add: X base_handle_def)
  have "submap (db_versions e (roots ?x) k) (db_versions e (roots db) k)" for k
    unfolding submap_def
  proof (intro allI impI)
    fix q p assume "db_versions e (roots ?x) k q = Some p"
    then obtain l where l: "l \<in> set (levels e (roots ?x) k)" "l q = Some p"
      using merge_levels_iff [OF so', of k q p] unfolding db_versions_def by blast
    then have "l \<in> set (levels e (roots db) k)" unfolding lv(2) by (subst lv(1)) auto
    then show "db_versions e (roots db) k q = Some p"
      using l(2) merge_levels_iff [OF so, of k q p] unfolding db_versions_def by blast
  qed
  then have okx: "db_ok e ?x" by (rule db_ok_shrink [OF ok rok _ same_storeD [OF X(6)]])
  obtain w where "wal_rel (crc_of e) (wal db) w []" using assms(1) unfolding recoverable_def by blast
  then have "wal_rel (crc_of e) (wal_step (crc_of e) LRotate (wal db)) [] []" by (rule wal_step_rel) (simp_all add: ops_ok_def)
  then have W: "\<exists>s. wal_rel (crc_of e) (wal ?x) s [] \<and> memtable (roots ?x) = fold mem_insert_record (concat (map butlast s)) mem_empty"
    by (intro exI [of _ "[]"]) (simp add: X)
  have rx: "recoverable e ?x"
    using assms(1) okx W X unfolding recoverable_def tables_on_disk_def table_seqs_def
    by (simp add: same_store_def base_handle_def Let_def)
  obtain db2 d2 where o: "open_db e oio tok mp d = (Inr db2, d2)" "recoverable e db2" "db_cells e db2 = db_cells e ?x"
    by (rule open_recovers [OF rx assms(2,4) ci, of tok mp]) (use assms(3) X(6) in \<open>simp_all add: same_store_def\<close>)
  have "l = Map.empty" if "l \<in> set (levels e (roots ?x) k)" for l
    using level_sources [OF _ that] assms(10) by (auto simp: X fr base_handle_def)
  then have "db_versions e (roots ?x) k = Map.empty"
    using merge_levels_iff [OF so', of k] unfolding db_versions_def by (metis option.distinct(1) option.exhaust)
  then have "spec_read (db_cells e db2) now k s = None"
    unfolding o(3) by (simp add: spec_read_def db_cells_def [abs_def] visible_def)
  then have "fst (db_find e now k s db2) = Inr None"
    using find_spec [of e db2 now k s] o(2) by (auto simp: recoverable_def)
  then show ?thesis using o(1) uncreated_flush(1) [OF assms(2,6-8)] by blast
qed

theorem failed_flush_loses_writes_witness:
  "\<exists>db0 d0 q db r db1 db2 d2. open_db demo_env demo_oio 7 [109] empty_disk = (Inr db0, d0) \<and>
     commit_batch_local demo_env demo_io (set_tx [97] [49]) db0 = (Inr q, db) \<and> fst (db_find demo_env 0 [97] 1 db) = Inr (Some [49]) \<and>
     compact_sstables demo_env (demo_cio\<lparr>create_ok := False\<rparr>) db = (r, db1) \<and>
     open_db demo_env demo_oio 8 [109] (full_image db1) = (Inr db2, d2) \<and> fst (db_find demo_env 0 [97] 1 db2) = Inr None"
proof -
  let ?io = "demo_cio\<lparr>create_ok := False\<rparr>"
  obtain db0 d0 q db where D: "open_db demo_env demo_oio 7 [109] empty_disk = (Inr db0, d0)"
    "commit_batch_local demo_env demo_io (set_tx [97] [49]) db0 = (Inr q, db)"
    "recoverable demo_env db" "roots db = (roots demo_db)\<lparr>memtable := mem_insert [97] 1 demo_ptr mem_empty\<rparr>" "heap db = [49]"
    "global_seq db = 3" "heap_durable db = 1" and rd: "spec_read (db_cells demo_env db) 0 [97] 1 = Some [49]"
    by (rule demo_opened) (blast dest: that [rotated -1])
  have f: "fst (db_find demo_env 0 [97] 1 db) = Inr (Some [49])"
    using find_spec [of demo_env db 0 "[97]" 1] D(3) rd by (auto simp: recoverable_def)
  have rs: "flush_records demo_env db \<noteq> []" using demo_flush_records [of db] by (simp add: D(4))
  obtain r db1 where c: "compact_sstables demo_env ?io db = (r, db1)" by force
  then obtain t where "db1 = (freeze ?io db)\<lparr>file_seq := t\<rparr>" using uncreated_flush(2) [OF demo_ok(2) _ rs c] by auto
  then have "heap db1 = [49]" "heap_durable db1 = 1" using D by (simp_all add: freeze_def)
  then have ci: "crash_image db1 (full_image db1)" by (intro full_image_crash) simp_all
  have nt: "\<forall>t \<in> set (base_handle (roots db) # sstables (roots db) @ l1_sstables (roots db)). handle_versions demo_env t [97] = Map.empty"
    using demo_ok(2)
    by (simp add: D(4) base_handle_def handle_versions_def table_records_def demo_db_def fresh_db_def zero_table zero_crc_ok_def rec_versions_def Let_def)
  have "isl r \<and> (\<exists>db2 d2. open_db demo_env demo_oio 8 [109] (full_image db1) = (Inr db2, d2) \<and> fst (db_find demo_env 0 [97] 1 db2) = Inr None)"
    by (rule failed_flush_loses_writes [OF D(3) demo_ok(2) _ demo_oio_ok _ _ rs c ci nt]) (simp_all add: D(6) demo_cio_def)
  then show ?thesis using D(1,2) f c by blast
qed

section \<open>Reopening after garbage collection\<close>

lemma sst_bytes_nonempty: "sst_bytes rs \<noteq> []"
  using trailer [of rs] by (auto simp: has_trailer_def)

lemma gc_done:
  assumes "run_garbage_collection e io db = (Inr (), db')"
  defines "m \<equiv> manifest (roots db')"
  shows "files db' (base_path m) = Some (base_mmap (roots db'))" and "bloom_files db' (base_path m) = Some (base_bloom (roots db'))"
    and "manifest_file db' = Some (m\<lparr>format_version := MANIFEST_FORMAT_VERSION\<rparr>)" and "m_sstables m = []" and "m_l1_sstables m = []"
    and "max_seq m = max_seq (manifest (roots db))" and "wal db' = snd (wal_clear (rotate_ok io) (wal db))"
    and "base_mmap (roots db') \<noteq> []"
  using assms(1) unfolding m_def
  by (auto simp: run_garbage_collection_def save_manifest_def create_unique_output_def sst_bytes_nonempty MANIFEST_FORMAT_VERSION_def Let_def
      simp del: create_attempts.simps merge_tables.simps gc_rewrite.simps split: sum.splits prod.splits if_splits manifest_io.splits)

lemma commit_wal_buf:
  assumes "commit_batch_local e io tx db = (Inr q, db')"
  shows "wal_buf (wal db') = []"
proof -
  have "wal_buf (wal db2) = wal_buf (wal db1)" if "group_sync io db1 = (None, db2)" for db1 db2
    using that by (auto simp: group_sync_def sync_group_commit_files_def wal_sync_def mark_pending_durable_def Let_def
        split: prod.splits join_outcome.splits option.splits if_splits sum.splits)
  then show ?thesis
    using assms by (fastforce simp: commit_batch_local_def publish_def append_batch_nosync_def wal_write_def Let_def
        split: if_splits option.splits prod.splits sum.splits flush_io.splits)
qed

text \<open>C28. Garbage collection moves the values of the memtable to the base level and clears the log,
  but leaves the sequence recorded in the manifest as the last flush wrote it. A reopened database
  continues from there, below the sequences of the values it holds. The witness commits two values
  without a flush: after garbage collection and a reopening, the sequence starts at 1 again and a
  snapshot sees neither of them.\<close>

theorem gc_forgets_sequence:
  assumes "run_garbage_collection e io db = (Inr (), db1)" and "rotate_ok io" and "wal_buf (wal db) = []"
    and "crash_image db1 d" and "open_io_ok oio"
  shows "\<exists>db2 d2. open_db e oio tok mp d = (Inr db2, d2) \<and> global_seq db2 = max_seq (manifest (roots db)) + 1 \<and>
    memtable (roots db2) = mem_empty \<and> frozen_memtables (roots db2) = [] \<and> sstables (roots db2) = [] \<and> l1_sstables (roots db2) = [] \<and>
    base_mmap (roots db2) = base_mmap (roots db1) \<and> base_bloom (roots db2) = base_bloom (roots db1)"
proof -
  note G = gc_done [OF assms(1)]
  let ?m = "manifest (roots db1)"
  obtain h where h: "d_heaps d (heap_path ?m) = Some h" using assms(4) unfolding crash_image_def by blast
  have "wal_file (wal db1) = []" using G(7) assms(2,3) by (auto simp: wal_clear_def rotate_segment_def)
  then have lg: "d_log d = LogContents []" using assms(4) by (auto simp: crash_image_def wal_crash_def)
  have D: "d_manifest d = Some (Doc (?m\<lparr>format_version := MANIFEST_FORMAT_VERSION\<rparr>))" "d_files d = files db1" "d_blooms d = bloom_files db1"
    using assms(4) G(3) by (simp_all add: crash_image_def)
  have du: "d\<lparr>d_files := files db1\<rparr> = d" using D(2) by (simp flip: D(2))
  have fu: "(files db1)(base_path ?m \<mapsto> base_mmap (roots db1)) = files db1" using G(1) by (simp add: fun_upd_idem)
  show ?thesis
    using assms(5) G(1,2,4-6,8)
    by (simp add: open_db_def recover_storage_roots_def open_manifest_def D base_data_def fu du load_filter_def lg h log_file_def
        open_io_ok_def MANIFEST_FORMAT_VERSION_def Let_def)
qed

theorem gc_forgets_sequence_witness:
  "\<exists>db1 db db' db2 d2. commit_batch_local demo_env demo_io (set_tx [97] [49]) demo_db = (Inr 2, db1) \<and>
     commit_batch_local demo_env demo_io (set_tx [97] [50, 50]) db1 = (Inr 4, db) \<and>
     run_garbage_collection demo_env demo_cio db = (Inr (), db') \<and>
     open_db demo_env demo_oio 8 [109] (full_image db') = (Inr db2, d2) \<and> global_seq db2 = 1 \<and>
     fst (db_find demo_env 0 [97] (fst (snapshot db2)) db2) = Inr None"
proof -
  let ?rs = "[make_record demo_env [97] 3 (0, 2 OR UNCOMPRESSED_FLAG, 1, 0)]"
  obtain db1 db where d: "commit_batch_local demo_env demo_io (set_tx [97] [49]) demo_db = (Inr 2, db1)"
    "commit_batch_local demo_env demo_io (set_tx [97] [50, 50]) db1 = (Inr 4, db)"
    "roots db = (roots demo_db)\<lparr>memtable := mem_insert [97] 3 demo_ptr2 (mem_insert [97] 1 demo_ptr mem_empty)\<rparr>"
    "heap db = [49, 50, 50]" "block_cache db = Map.empty" "files db = Map.empty" "compaction_retention_floor db = None"
    by (rule demo_set2) (rule that)
  obtain db' where g: "run_garbage_collection demo_env demo_cio db = (Inr (), db')" "heap db' = [50, 50]"
    "base_mmap (roots db') = sst_bytes ?rs" "bloom_ok (base_bloom (roots db')) ?rs" "heap_durable db' = 2"
    by (rule demo_gc2 [OF d(3,4,6,7)])
  have wb: "wal_buf (wal db) = []" by (rule commit_wal_buf [OF d(2)])
  have ci: "crash_image db' (full_image db')" by (rule full_image_crash) (simp_all add: g)
  obtain db2 d2 where o: "open_db demo_env demo_oio 8 [109] (full_image db') = (Inr db2, d2)"
    and R: "global_seq db2 = max_seq (manifest (roots db)) + 1" "memtable (roots db2) = mem_empty" "frozen_memtables (roots db2) = []"
      "sstables (roots db2) = []" "l1_sstables (roots db2) = []" "base_mmap (roots db2) = sst_bytes ?rs" "bloom_ok (base_bloom (roots db2)) ?rs"
    using gc_forgets_sequence [OF g(1) _ wb ci demo_oio_ok, of 8 "[109]"] g by (auto simp: demo_cio_def)
  have q: "global_seq db2 = 1" using R(1) d(3) by (simp add: demo_db_def fresh_db_def Let_def)
  have t: "table_ok (crc_of demo_env) ?rs" by (simp add: table_ok_def storable_def recs_size_def)
  have tr: "table_records demo_env (sst_bytes ?rs) = ?rs" using sst_iter_records [OF t, of 0] by (simp add: table_records_def)
  have "handle_ok demo_env (base_handle (roots db2))"
    using t fits_single [of "hd ?rs"] R(6,7) unfolding handle_ok_def base_handle_def table_data_def fits_def
    by (auto simp: tr rec_functional_def)
  then have "handle_find demo_env (base_handle (roots db2)) [97] 0 = Inr (visible (handle_versions demo_env (base_handle (roots db2)) [97]) 0)"
    by (rule handle_find_visible)
  moreover have "visible (handle_versions demo_env (base_handle (roots db2)) [97]) 0 = None"
  proof -
    have "newest [3 \<mapsto> p] 0 = None" for p :: ptr by (simp add: newest_None)
    then show ?thesis by (simp add: base_handle_def handle_versions_def R(6) tr rec_versions_def visible_def)
  qed
  moreover have "mem_find mem_empty k s = None" for k s by (simp add: mem_find_newest newest_None dom_def)
  ultimately have "find_ptr demo_env (roots db2) [97] 0 = Inr None" by (simp add: find_ptr_def or_else_def R)
  then have "fst (db_find demo_env 0 [97] (fst (snapshot db2)) db2) = Inr None" by (simp add: db_find_def snapshot_def q Let_def)
  then show ?thesis using d(1,2) g(1) o q by blast
qed

end
