(* ===== verification/Store.thy ===== *)
theory Store
  imports Engine
begin

text \<open>
  The storage engine as its clients see it: a commit that applies a batch to the contents or leaves
  them alone, and a scan of the contents. The locale \<open>kv_store\<close> is that contract, with the facts its
  clients share; the engine of \<^verbatim>\<open>storage/core.rs\<close> provides it.
\<close>

section \<open>The contract\<close>

definition batch_keys :: "WriteBatch \<Rightarrow> bytes set" where
  "batch_keys b = fst ` set (buffered_writes b) \<union> set (buffered_deletes b)"

lemma batch_read_other: "k \<notin> batch_keys b \<Longrightarrow> batch_read b f now k = f now k"
proof -
  assume k: "k \<notin> batch_keys b"
  then have "filter (\<lambda>w. fst w = k) (rev (buffered_writes b)) = []" by (auto simp: batch_keys_def filter_empty_conv)
  then show ?thesis using k by (simp add: batch_read_def batch_keys_def)
qed

lemma batch_read_put: "batch_read (set_tx k v) f now k' = (if k' = k then Some v else f now k')"
  by (simp add: batch_read_def set_tx_def expired_def)

lemma batch_set_put: "length v \<le> MAX_VALUE_SIZE \<Longrightarrow> batch_set now k v batch_new = Inr (set_tx k v)"
  by (simp add: batch_set_def set_with_ttl_def batch_new_def op_count_def MAX_BATCH_SIZE_def set_tx_def)

locale kv_store =
  fixes commit :: "'io \<Rightarrow> WriteBatch \<Rightarrow> 'd \<Rightarrow> u64 result \<times> 'd"
    and scan :: "u64 \<Rightarrow> bytes \<Rightarrow> bytes \<Rightarrow> 'd \<Rightarrow> (bytes \<times> bytes) list result \<times> 'd"
    and contents :: "'d \<Rightarrow> u64 \<Rightarrow> bytes \<Rightarrow> bytes option"
    and inv :: "'d \<Rightarrow> bool"
    and accepts :: "WriteBatch \<Rightarrow> 'd \<Rightarrow> bool"
  assumes commit_ok: "inv d \<Longrightarrow> accepts b d \<Longrightarrow> commit io b d = (Inr q, d') \<Longrightarrow>
      inv d' \<and> contents d' = batch_read b (contents d)"
    and commit_err: "inv d \<Longrightarrow> accepts b d \<Longrightarrow> commit io b d = (Inl f, d') \<Longrightarrow> inv d' \<and> contents d' = contents d"
    and scan_contents: "inv d \<Longrightarrow> \<exists>kvs d'. scan now lo hi d = (Inr kvs, d') \<and> inv d' \<and> contents d' = contents d \<and>
      sorted_wrt (<) (map fst kvs) \<and> (\<forall>k v. (k, v) \<in> set kvs \<longleftrightarrow> lo \<le> k \<and> k \<le> hi \<and> contents d now k = Some v)"
begin

lemma commit_inv: "inv d \<Longrightarrow> accepts b d \<Longrightarrow> commit io b d = (r, d') \<Longrightarrow> inv d'"
  using commit_ok commit_err by (cases r) blast+

lemma commit_untouched:
  "inv d \<Longrightarrow> accepts b d \<Longrightarrow> commit io b d = (r, d') \<Longrightarrow> k \<notin> batch_keys b \<Longrightarrow> contents d' now k = contents d now k"
  using commit_ok commit_err by (cases r) (metis batch_read_other)+

lemma commit_put:
  assumes "inv d" and "accepts (set_tx k v) d" and "commit io (set_tx k v) d = (r, d')"
  shows "contents d' now k' = (if r \<in> range Inr \<and> k' = k then Some v else contents d now k')"
  using commit_ok [OF assms(1,2)] commit_err [OF assms(1,2)] assms(3) by (cases r) (auto simp: batch_read_put)

end

section \<open>The engine is a store\<close>

definition store_ok :: "env \<Rightarrow> OmniKV \<Rightarrow> bool" where
  "store_ok e db \<longleftrightarrow> env_ok e \<and> db_ok e db \<and> current_epoch (group_commit db) = 0"

definition accepts :: "env \<Rightarrow> WriteBatch \<Rightarrow> OmniKV \<Rightarrow> bool" where
  "accepts e b db \<longleftrightarrow> tx_ok b \<and> room_for e b db"

text \<open>What a read at the current sequence returns.\<close>

definition contents :: "env \<Rightarrow> OmniKV \<Rightarrow> u64 \<Rightarrow> bytes \<Rightarrow> bytes option" where
  "contents e db now k = spec_read (db_cells e db) now k (global_seq db)"

text \<open>The callers of \<^verbatim>\<open>scan\<close> pass \<^verbatim>\<open>get_seq\<close>.\<close>

definition get_seq :: "OmniKV \<Rightarrow> u64" where
  "get_seq db = global_seq db"

lemma unchanged_visible:
  assumes "\<And>q. a k q \<noteq> None \<Longrightarrow> q \<le> r" and "r \<le> s"
  shows "spec_read a now k s = spec_read a now k r"
proof -
  have "{q \<in> dom (a k). q \<le> s} = {q \<in> dom (a k). q \<le> r}" using assms by (auto intro: order.trans)
  then have "newest (a k) s = newest (a k) r" unfolding newest_def by presburger
  then show ?thesis by (simp add: spec_read_def visible_def)
qed

lemma store_cells: "db_ok e db \<Longrightarrow> db_cells e db k q \<noteq> None \<Longrightarrow> q < global_seq db"
  using db_okD(3) [of e db k q] by (auto simp: db_cells_def)

lemma contents_later:
  assumes "db_ok e db" and "global_seq db \<le> s"
  shows "spec_read (db_cells e db) now k s = contents e db now k"
  unfolding contents_def
  by (rule unchanged_visible [OF _ assms(2)]) (erule store_cells [OF assms(1), THEN less_imp_le])

lemma commit_contents:
  assumes "store_ok e db" and "accepts e b db" and "commit_batch_local e io b db = (Inr q, db')"
  shows "store_ok e db' \<and> contents e db' = batch_read b (contents e db)"
proof -
  note ok = assms(1,2) [unfolded store_ok_def accepts_def]
  have a: "db_ok e db' \<and> db_cells e db' = apply_batch (global_seq db) b (db_cells e db) \<and>
      unat (global_seq db') = unat (global_seq db) + op_count b + 1"
    using commit_acked [OF _ _ _ _ _ assms(3)] ok by simp
  have le: "global_seq db \<le> global_seq db'" using a by (simp add: word_le_nat_alt)
  have room: "unat (global_seq db) + op_count b < 2 ^ 64" using ok by (simp add: room_for_def)
  have old: "q' < global_seq db" if "db_cells e db k q' \<noteq> None" for k q' using store_cells that ok by blast
  have "contents e db' now k = batch_read b (contents e db) now k" for now k
    using spec_read_batch(1) [where a = "db_cells e db" and s = "global_seq db'" and now = now and k = k, OF old room] a ok
    by (simp add: contents_def [of e db'] contents_later [OF _ le])
  moreover have "current_epoch (group_commit db') = 0" using commit_lead [OF _ assms(3)] ok by simp
  ultimately show ?thesis using a ok by (simp add: store_ok_def fun_eq_iff)
qed

lemma commit_error_contents:
  assumes "store_ok e db" and "accepts e b db" and "commit_batch_local e io b db = (Inl f, db')"
  shows "store_ok e db' \<and> contents e db' = contents e db"
proof -
  note ok = assms(1,2) [unfolded store_ok_def accepts_def]
  have a: "db_ok e db' \<and> db_cells e db' = db_cells e db \<and> global_seq db \<le> global_seq db'"
    using commit_failed [OF _ _ _ _ assms(3)] ok by blast
  then have "contents e db' now k = contents e db now k" for now k
    using contents_later [of e db "global_seq db'" now k] ok by (simp add: contents_def [of e db'])
  moreover have "current_epoch (group_commit db') = 0" using commit_lead [OF _ assms(3)] ok by simp
  ultimately show ?thesis using a ok by (simp add: store_ok_def fun_eq_iff)
qed

lemma scan_store:
  assumes "store_ok e db"
  shows "\<exists>kvs db'. db_scan e now lo hi (get_seq db) db = (Inr kvs, db') \<and> store_ok e db' \<and> contents e db' = contents e db \<and>
    sorted_wrt (<) (map fst kvs) \<and> (\<forall>k v. (k, v) \<in> set kvs \<longleftrightarrow> lo \<le> k \<and> k \<le> hi \<and> contents e db now k = Some v)"
proof -
  have ok: "db_ok e db" using assms by (simp add: store_ok_def)
  from scan_spec [OF ok, of now lo hi "get_seq db"] obtain kvs c
    where s: "db_scan e now lo hi (get_seq db) db = (Inr kvs, db\<lparr>block_cache := c\<rparr>)" "db_ok e (db\<lparr>block_cache := c\<rparr>)"
      "sorted_wrt (<) (map fst kvs)"
      "\<forall>k v. (k, v) \<in> set kvs \<longleftrightarrow> lo \<le> k \<and> k \<le> hi \<and> spec_read (db_cells e db) now k (get_seq db) = Some v" by blast
  have "store_ok e (db\<lparr>block_cache := c\<rparr>)" "contents e (db\<lparr>block_cache := c\<rparr>) = contents e db"
    using assms s(2) by (simp_all add: store_ok_def contents_def [abs_def] db_cells_def [abs_def])
  then show ?thesis using s by (auto simp: contents_def get_seq_def)
qed

interpretation kv: kv_store "commit_batch_local e" "\<lambda>now lo hi db. db_scan e now lo hi (get_seq db) db" "contents e" "store_ok e" "accepts e"
  for e
  by unfold_locales (use commit_contents commit_error_contents scan_store in blast)+

section \<open>A store without faults\<close>

text \<open>The demonstration database after at most \<open>n\<close> short writes, for the concrete runs of clients.\<close>

definition quiet :: "nat \<Rightarrow> OmniKV \<Rightarrow> bool" where
  "quiet n db \<longleftrightarrow> store_ok demo_env db \<and> \<not> write_stalled demo_io db \<and> group_idle (group_commit db) \<and>
     unat (global_seq db) \<le> 2 * n + 1 \<and> unat (heap_offset db) \<le> 64 * n"

lemma quiet_demo: "quiet 0 demo_db" "contents demo_env demo_db now k = None"
proof -
  have "heap_offset demo_db = 0" by (simp add: demo_db_def fresh_db_def Let_def)
  then show "quiet 0 demo_db" by (simp add: quiet_def store_ok_def)
  show "contents demo_env demo_db now k = None" by (simp add: contents_def spec_read_def visible_def)
qed

lemma quiet_set:
  assumes "quiet n db" and "n < 1000" and "key_ok k" and "value_ok v" and "length v < 64"
  shows "accepts demo_env (set_tx k v) db"
    and "\<exists>q db'. commit_batch_local demo_env demo_io (set_tx k v) db = (Inr q, db') \<and> quiet (Suc n) db'"
proof -
  note q = assms(1) [unfolded quiet_def]
  have v: "v \<noteq> []" "k \<noteq> COMMIT_MARKER" using assms(3,4) by (auto simp: value_ok_def key_ok_def)
  have "payload (prep_writes demo_env (buffered_writes (set_tx k v))) = v"
    using assms(5) by (simp add: payload_def prep_writes_def set_tx_def prep_value_def)
  then show acc: "accepts demo_env (set_tx k v) db"
    using q assms(2,5) set_tx_ok [OF assms(3,4)] by (simp add: accepts_def room_for_def op_count_def set_tx_def)
  obtain r db' where c: "commit_batch_local demo_env demo_io (set_tx k v) db = (Inr r, db')"
    and f: "heap_offset db' = heap_offset db + word_of_nat (length v)" "global_seq db' = global_seq db + 2"
      "compaction_policy db' = compaction_policy db" "group_idle (group_commit db')" "sstables (roots db') = sstables (roots db)"
    by (rule commit_set [OF v(1) assms(5) v(2)]) (use q in auto)
  have "store_ok demo_env db'" using kv.commit_inv [OF _ acc c] q by simp
  moreover have "unat (global_seq db') \<le> 2 * Suc n + 1" "unat (heap_offset db') \<le> 64 * Suc n"
    using q assms(2,5) by (simp_all add: f unat_word_ariths unat_of_nat)
  ultimately show "\<exists>q db'. commit_batch_local demo_env demo_io (set_tx k v) db = (Inr q, db') \<and> quiet (Suc n) db'"
    using c f q by (auto simp: quiet_def write_stalled_def)
qed

end
