(* ===== verification/Ssi.thy ===== *)
theory Ssi
  imports Store
begin

text \<open>
  Transactions: \<^verbatim>\<open>storage/transaction.rs\<close>. A transaction reads at a snapshot, buffers its writes
  and records what it read; a commit validates it against the history of committed transactions
  and applies its writes as one batch. Strings are their UTF-8 bytes, hash sets are sets, and the
  buffered writes are kept in key order; the order in which a hash map yields them is the argument
  \<open>order\<close> of a commit. Instants are numbers, and the clock is an argument. A commit runs under the
  locks of the source, so it is one step; the cluster gateway is an argument.

  The lemmas show that the history covers everything committed since the snapshot of every live
  transaction, whatever is pruned, so that a transaction that commits has read what it would read
  at the moment of its commit: committed transactions are serializable in commit order. They also
  show two ways around this: the reads a rollback to a savepoint forgets, and a snapshot released
  twice.
\<close>

section \<open>State\<close>

datatype TxnState = Active | Committed | Aborted

type_synonym wset = "(bytes, bytes option \<times> u64) omap"

record Savepoint =
  sp_name :: bytes
  write_set_snapshot :: wset
  read_set_snapshot :: "bytes set"
  read_ranges_snapshot :: "(bytes \<times> bytes) list"

record Transaction =
  txn_id :: u64
  read_seq :: u64
  state :: TxnState
  read_set :: "bytes set"
  read_ranges :: "(bytes \<times> bytes) list"
  write_set :: wset
  started_at :: nat
  savepoints :: "Savepoint list"

definition txn_new :: "u64 \<Rightarrow> u64 \<Rightarrow> nat \<Rightarrow> Transaction" where
  "txn_new i s now = \<lparr>txn_id = i, read_seq = s, state = Active, read_set = {}, read_ranges = [], write_set = [],
     started_at = now, savepoints = []\<rparr>"

record SsiCommitRecord =
  r_txn_id :: u64
  r_write_keys :: "bytes list"
  r_read_keys :: "bytes list"
  r_read_ranges :: "(bytes \<times> bytes) list"

record CommittedTxn =
  c_txn_id :: u64
  commit_seq :: u64
  write_keys :: "bytes set"
  read_keys :: "bytes set"
  c_read_ranges :: "(bytes \<times> bytes) list"

text \<open>The replicated record lists its sets in some order, the argument \<open>enum\<close>.\<close>

definition record_of_committed :: "(bytes set \<Rightarrow> bytes list) \<Rightarrow> CommittedTxn \<Rightarrow> SsiCommitRecord" where
  "record_of_committed enum c = \<lparr>r_txn_id = c_txn_id c, r_write_keys = enum (write_keys c), r_read_keys = enum (read_keys c),
     r_read_ranges = c_read_ranges c\<rparr>"

definition from_committed_view :: "(bytes set \<Rightarrow> bytes list) \<Rightarrow> Transaction \<Rightarrow> SsiCommitRecord" where
  "from_committed_view enum t = \<lparr>r_txn_id = txn_id t, r_write_keys = map fst (write_set t), r_read_keys = enum (read_set t),
     r_read_ranges = read_ranges t\<rparr>"

section \<open>The history\<close>

definition committed_entry :: "u64 \<Rightarrow> u64 \<Rightarrow> SsiCommitRecord \<Rightarrow> CommittedTxn" where
  "committed_entry i q r = \<lparr>c_txn_id = i, commit_seq = q, write_keys = set (r_write_keys r), read_keys = set (r_read_keys r),
     c_read_ranges = r_read_ranges r\<rparr>"

definition record_committed :: "u64 \<Rightarrow> u64 \<Rightarrow> SsiCommitRecord \<Rightarrow> CommittedTxn list \<Rightarrow> CommittedTxn list" where
  "record_committed i q r h = h @ [committed_entry i q r]"

definition committed_record_count :: "CommittedTxn list \<Rightarrow> nat" where
  "committed_record_count h = length h"

definition snapshot_entries :: "(bytes set \<Rightarrow> bytes list) \<Rightarrow> CommittedTxn list \<Rightarrow> (u64 \<times> u64 \<times> SsiCommitRecord) list" where
  "snapshot_entries enum h = map (\<lambda>c. (c_txn_id c, commit_seq c, record_of_committed enum c)) h"

definition install_from :: "(u64 \<times> u64 \<times> SsiCommitRecord) list \<Rightarrow> CommittedTxn list \<Rightarrow> CommittedTxn list" where
  "install_from es h = map (\<lambda>(i, q, r). committed_entry i q r) es"

definition prune :: "u64 \<Rightarrow> CommittedTxn list \<Rightarrow> CommittedTxn list" where
  "prune floor h = filter (\<lambda>c. commit_seq c \<ge> floor) h"

text \<open>The kind of a conflict with the transaction and sequence it is with. Which key the message
  names depends on the order of a hash set.\<close>

datatype conflict = WW u64 u64 | RW u64 u64 | RangeRead u64 u64 | RangeWrite u64 u64

definition in_range :: "bytes \<Rightarrow> bytes \<times> bytes \<Rightarrow> bool" where
  "in_range k r \<longleftrightarrow> fst r \<le> k \<and> k < snd r"

definition conflict_with :: "Transaction \<Rightarrow> CommittedTxn \<Rightarrow> conflict option" where
  "conflict_with t c =
     (if commit_seq c > read_seq t then
        if \<exists>k \<in> fst ` set (write_set t). k \<in> write_keys c then Some (WW (c_txn_id c) (commit_seq c))
        else if \<exists>k \<in> read_set t. k \<in> write_keys c then Some (RW (c_txn_id c) (commit_seq c))
        else if \<exists>k \<in> write_keys c. \<exists>r \<in> set (read_ranges t). in_range k r then Some (RangeRead (c_txn_id c) (commit_seq c))
        else if \<exists>k \<in> fst ` set (write_set t). \<exists>r \<in> set (c_read_ranges c). in_range k r
        then Some (RangeWrite (c_txn_id c) (commit_seq c))
        else None
      else None)"

fun scan_conflicts :: "Transaction \<Rightarrow> CommittedTxn list \<Rightarrow> conflict option" where
  "scan_conflicts t [] = None"
| "scan_conflicts t (c # h) = (case conflict_with t c of Some x \<Rightarrow> Some x | None \<Rightarrow> scan_conflicts t h)"

fun conflict_msg :: "conflict \<Rightarrow> string" where
  "conflict_msg (WW _ _) = ''SSI CONFLICT (WW)''"
| "conflict_msg (RW _ _) = ''SSI CONFLICT (RW)''"
| "conflict_msg (RangeRead _ _) = ''SSI CONFLICT (RANGE)''"
| "conflict_msg (RangeWrite _ _) = ''SSI CONFLICT (RANGE)''"

section \<open>Commit stripes\<close>

definition COMMIT_STRIPE_COUNT :: nat where
  "COMMIT_STRIPE_COUNT = 64"

definition stripe_hash :: "bytes \<Rightarrow> u64" where
  "stripe_hash k = fold (\<lambda>b h. h * 33 + ucast b) k 5381"

definition stripe_index_for_key :: "bytes \<Rightarrow> nat" where
  "stripe_index_for_key k = unat (stripe_hash k) mod COMMIT_STRIPE_COUNT"

text \<open>The stripes a commit locks, in the order it locks them.\<close>

definition acquire_commit_stripes :: "(bytes set \<Rightarrow> bytes list) \<Rightarrow> Transaction \<Rightarrow> nat list" where
  "acquire_commit_stripes enum t =
     remdups_adj (sort (map stripe_index_for_key
       (map fst (write_set t) @ enum (read_set t) @ concat (map (\<lambda>(s, e). [s, e]) (read_ranges t)))))"

section \<open>The manager\<close>

record TxnMetrics =
  txns_started :: u64
  txns_committed :: u64
  txns_aborted :: u64
  conflicts_detected :: u64
  savepoints_created :: u64
  savepoints_rolled_back :: u64
  txns_timed_out :: u64

definition metrics_new :: TxnMetrics where
  "metrics_new = \<lparr>txns_started = 0, txns_committed = 0, txns_aborted = 0, conflicts_detected = 0, savepoints_created = 0,
     savepoints_rolled_back = 0, txns_timed_out = 0\<rparr>"

definition metrics_snapshot :: "TxnMetrics \<Rightarrow> (string \<times> u64) list" where
  "metrics_snapshot m = [(''txns_started'', txns_started m), (''txns_committed'', txns_committed m),
     (''txns_aborted'', txns_aborted m), (''conflicts_detected'', conflicts_detected m),
     (''savepoints_created'', savepoints_created m), (''savepoints_rolled_back'', savepoints_rolled_back m),
     (''txns_timed_out'', txns_timed_out m)]"

record TransactionManager =
  tm_db :: OmniKV
  history :: "CommittedTxn list"
  next_txn_id :: u64
  active_txns :: "(u64, u64) omap"
  txn_timeout :: nat
  metrics :: TxnMetrics

definition with_timeout :: "OmniKV \<Rightarrow> CommittedTxn list \<Rightarrow> nat \<Rightarrow> TransactionManager" where
  "with_timeout kv h timeout = \<lparr>tm_db = kv, history = h, next_txn_id = 1, active_txns = [], txn_timeout = timeout,
     metrics = metrics_new\<rparr>"

definition manager_new :: "nat \<Rightarrow> OmniKV \<Rightarrow> CommittedTxn list \<Rightarrow> TransactionManager" where
  "manager_new sec kv h = with_timeout kv h (30 * sec)"

definition begin_txn :: "nat \<Rightarrow> TransactionManager \<Rightarrow> Transaction \<times> TransactionManager" where
  "begin_txn now tm =
     (let i = next_txn_id tm; (s, kv) = snapshot (tm_db tm) in
      (txn_new i s now,
       tm\<lparr>tm_db := kv, next_txn_id := i + 1, active_txns := om_insert i s (active_txns tm),
          metrics := (metrics tm)\<lparr>txns_started := txns_started (metrics tm) + 1\<rparr>\<rparr>))"

definition cleanup_txn :: "u64 \<Rightarrow> u64 \<Rightarrow> TransactionManager \<Rightarrow> TransactionManager" where
  "cleanup_txn i s tm = tm\<lparr>active_txns := om_remove i (active_txns tm), tm_db := unregister_snapshot s (tm_db tm)\<rparr>"

abbreviation not_active :: "'a result" where
  "not_active \<equiv> Inl (Err (IoError ''Transaction is not active''))"

abbreviation timed_out :: "'a result" where
  "timed_out \<equiv> Inl (Err (IoError ''Transaction timed out''))"

definition txn_get ::
  "env \<Rightarrow> u64 \<Rightarrow> nat \<Rightarrow> bytes \<Rightarrow> Transaction \<Rightarrow> TransactionManager \<Rightarrow> bytes option result \<times> Transaction \<times> TransactionManager" where
  "txn_get e secs now k t tm =
     (if state t \<noteq> Active then (not_active, t, tm)
      else if now - started_at t > txn_timeout tm
      then (timed_out, t\<lparr>state := Aborted\<rparr>,
            cleanup_txn (txn_id t) (read_seq t) (tm\<lparr>metrics := (metrics tm)\<lparr>txns_timed_out := txns_timed_out (metrics tm) + 1\<rparr>\<rparr>))
      else case om_lookup (write_set t) k of
        Some (v, _) \<Rightarrow> (Inr v, t\<lparr>read_set := insert k (read_set t)\<rparr>, tm)
      | None \<Rightarrow>
          (case db_find e secs k (read_seq t) (tm_db tm) of
             (r, kv) \<Rightarrow> (r, t\<lparr>read_set := insert k (read_set t)\<rparr>, tm\<lparr>tm_db := kv\<rparr>)))"

definition record_read_range :: "bytes \<Rightarrow> bytes \<Rightarrow> Transaction \<Rightarrow> unit result \<times> Transaction" where
  "record_read_range a b t =
     (if state t \<noteq> Active then (not_active, t) else (Inr (), t\<lparr>read_ranges := read_ranges t @ [(a, b)]\<rparr>))"

definition txn_set_with_ttl :: "bytes \<Rightarrow> bytes \<Rightarrow> u64 \<Rightarrow> Transaction \<Rightarrow> unit result \<times> Transaction" where
  "txn_set_with_ttl k v ttl t =
     (if state t \<noteq> Active then (not_active, t) else (Inr (), t\<lparr>write_set := om_insert k (Some v, ttl) (write_set t)\<rparr>))"

definition txn_set :: "bytes \<Rightarrow> bytes \<Rightarrow> Transaction \<Rightarrow> unit result \<times> Transaction" where
  "txn_set k v t =
     (if state t \<noteq> Active then (not_active, t) else (Inr (), t\<lparr>write_set := om_insert k (Some v, 0) (write_set t)\<rparr>))"

definition txn_delete :: "bytes \<Rightarrow> Transaction \<Rightarrow> unit result \<times> Transaction" where
  "txn_delete k t =
     (if state t \<noteq> Active then (not_active, t) else (Inr (), t\<lparr>write_set := om_insert k (None, 0) (write_set t)\<rparr>))"

definition savepoint :: "bytes \<Rightarrow> Transaction \<Rightarrow> TransactionManager \<Rightarrow> unit result \<times> Transaction \<times> TransactionManager" where
  "savepoint name t tm =
     (if state t \<noteq> Active then (not_active, t, tm)
      else (Inr (), t\<lparr>savepoints := savepoints t @ [\<lparr>sp_name = name, write_set_snapshot = write_set t,
                read_set_snapshot = read_set t, read_ranges_snapshot = read_ranges t\<rparr>]\<rparr>,
            tm\<lparr>metrics := (metrics tm)\<lparr>savepoints_created := savepoints_created (metrics tm) + 1\<rparr>\<rparr>))"

text \<open>\<^verbatim>\<open>rposition\<close>: the index of the last match.\<close>

definition rposition :: "('a \<Rightarrow> bool) \<Rightarrow> 'a list \<Rightarrow> nat option" where
  "rposition P xs = (case filter (\<lambda>i. P (xs ! i)) [0..<length xs] of [] \<Rightarrow> None | is \<Rightarrow> Some (last is))"

abbreviation no_savepoint :: "'a result" where
  "no_savepoint \<equiv> Inl (Err (IoError ''Savepoint not found''))"

definition rollback_to_savepoint ::
  "bytes \<Rightarrow> Transaction \<Rightarrow> TransactionManager \<Rightarrow> unit result \<times> Transaction \<times> TransactionManager" where
  "rollback_to_savepoint name t tm =
     (if state t \<noteq> Active then (not_active, t, tm)
      else case rposition (\<lambda>sp. sp_name sp = name) (savepoints t) of
        None \<Rightarrow> (no_savepoint, t, tm)
      | Some i \<Rightarrow>
          let sp = savepoints t ! i in
          (Inr (), t\<lparr>write_set := write_set_snapshot sp, read_set := read_set_snapshot sp,
                read_ranges := read_ranges_snapshot sp, savepoints := take i (savepoints t)\<rparr>,
           tm\<lparr>metrics := (metrics tm)\<lparr>savepoints_rolled_back := savepoints_rolled_back (metrics tm) + 1\<rparr>\<rparr>))"

definition release_savepoint :: "bytes \<Rightarrow> Transaction \<Rightarrow> unit result \<times> Transaction" where
  "release_savepoint name t =
     (if state t \<noteq> Active then (not_active, t)
      else case rposition (\<lambda>sp. sp_name sp = name) (savepoints t) of
        None \<Rightarrow> (no_savepoint, t)
      | Some i \<Rightarrow> (Inr (), t\<lparr>savepoints := take i (savepoints t) @ drop (i + 1) (savepoints t)\<rparr>))"

fun build_write_batch :: "u64 \<Rightarrow> (bytes \<times> bytes option \<times> u64) list \<Rightarrow> WriteBatch \<Rightarrow> WriteBatch result" where
  "build_write_batch secs [] b = Inr b"
| "build_write_batch secs ((k, v, ttl) # ws) b =
     bind_res (case v of
         Some x \<Rightarrow> if ttl > 0 then set_with_ttl secs k x ttl b else batch_set secs k x b
       | None \<Rightarrow> batch_delete k b) (build_write_batch secs ws)"

text \<open>The cluster gateway: given the record and the validation to run under its lock, it returns the
  storage sequence of the commit or a message, and the manager after the local apply.\<close>

type_synonym gateway =
  "SsiCommitRecord \<Rightarrow> (TransactionManager \<Rightarrow> string + WriteBatch) \<Rightarrow> TransactionManager \<Rightarrow> (string + u64) \<times> TransactionManager"

definition count_commit :: "TransactionManager \<Rightarrow> TransactionManager" where
  "count_commit tm = tm\<lparr>metrics := (metrics tm)\<lparr>txns_committed := txns_committed (metrics tm) + 1\<rparr>\<rparr>"

definition count_abort :: "bool \<Rightarrow> TransactionManager \<Rightarrow> TransactionManager" where
  "count_abort conflict tm = tm\<lparr>metrics := (metrics tm)\<lparr>txns_aborted := txns_aborted (metrics tm) + 1,
     conflicts_detected := conflicts_detected (metrics tm) + (if conflict then 1 else 0)\<rparr>\<rparr>"

definition txn_commit ::
  "env \<Rightarrow> commit_io \<Rightarrow> gateway option \<Rightarrow> (bytes set \<Rightarrow> bytes list) \<Rightarrow>
   ((bytes \<times> bytes option \<times> u64) list \<Rightarrow> (bytes \<times> bytes option \<times> u64) list) \<Rightarrow> u64 \<Rightarrow> nat \<Rightarrow>
   Transaction \<Rightarrow> TransactionManager \<Rightarrow> u64 result \<times> Transaction \<times> TransactionManager" where
  "txn_commit e io gw enum order secs now t tm =
     (if state t \<noteq> Active then (not_active, t, tm)
      else if now - started_at t > txn_timeout tm
      then (timed_out, t\<lparr>state := Aborted\<rparr>,
            cleanup_txn (txn_id t) (read_seq t) (count_abort False
              (tm\<lparr>metrics := (metrics tm)\<lparr>txns_timed_out := txns_timed_out (metrics tm) + 1\<rparr>\<rparr>)))
      else if write_set t = []
      then (Inr (read_seq t), t\<lparr>state := Committed\<rparr>, count_commit (cleanup_txn (txn_id t) (read_seq t) tm))
      else case gw of
        Some g \<Rightarrow>
          (case g (from_committed_view enum t) (\<lambda>tm. case scan_conflicts t (history tm) of
                  Some c \<Rightarrow> Inl (conflict_msg c)
                | None \<Rightarrow> (case build_write_batch secs (order (write_set t)) batch_new of
                    Inl f \<Rightarrow> Inl (err_string f) | Inr b \<Rightarrow> Inr b)) tm of
             (Inr q, tm1) \<Rightarrow> (Inr q, t\<lparr>state := Committed\<rparr>, count_commit (cleanup_txn (txn_id t) (read_seq t) tm1))
           | (Inl m, tm1) \<Rightarrow> (Inl (Err (IoError m)), t\<lparr>state := Aborted\<rparr>,
                count_abort (take 12 m = ''SSI CONFLICT'') (cleanup_txn (txn_id t) (read_seq t) tm1)))
      | None \<Rightarrow>
          (case scan_conflicts t (history tm) of
             Some c \<Rightarrow> (Inl (Err (IoError (conflict_msg c))), t\<lparr>state := Aborted\<rparr>,
                count_abort True (cleanup_txn (txn_id t) (read_seq t) tm))
           | None \<Rightarrow>
               (case build_write_batch secs (order (write_set t)) batch_new of
                  Inl f \<Rightarrow> (Inl f, t, tm)
                | Inr b \<Rightarrow>
                    (case commit_batch_local e io b (tm_db tm) of
                       (Inl f, kv) \<Rightarrow> (Inl f, t, tm\<lparr>tm_db := kv\<rparr>)
                     | (Inr q, kv) \<Rightarrow>
                         let c = \<lparr>c_txn_id = txn_id t, commit_seq = q, write_keys = fst ` set (write_set t),
                                  read_keys = read_set t, c_read_ranges = read_ranges t\<rparr>;
                             tm1 = cleanup_txn (txn_id t) (read_seq t) (tm\<lparr>tm_db := kv, history := history tm @ [c]\<rparr>)
                         in (Inr q, t\<lparr>state := Committed\<rparr>,
                             count_commit (tm1\<lparr>history := prune (min_active_snapshot (tm_db tm1)) (history tm1)\<rparr>))))))"

definition txn_abort :: "Transaction \<Rightarrow> TransactionManager \<Rightarrow> Transaction \<times> TransactionManager" where
  "txn_abort t tm =
     (t\<lparr>state := Aborted, write_set := [], read_set := {}, read_ranges := [], savepoints := []\<rparr>,
      count_abort False (cleanup_txn (txn_id t) (read_seq t) tm))"

definition check_timeouts :: "TransactionManager \<Rightarrow> u64 list" where
  "check_timeouts tm = map fst (active_txns tm)"

definition active_count :: "TransactionManager \<Rightarrow> nat" where
  "active_count tm = length (active_txns tm)"

section \<open>Runs\<close>

text \<open>Any interleaving of the operations of any number of transactions on one node. A transaction
  is aborted while it is active; the batch a commit builds fits and has proper keys.\<close>

inductive txn_run :: "env \<Rightarrow> TransactionManager \<Rightarrow> TransactionManager \<Rightarrow> Transaction list \<Rightarrow> bool" for e tm0 where
  t_start: "txn_run e tm0 tm0 []"
| t_begin: "txn_run e tm0 tm ts \<Longrightarrow> begin_txn now tm = (t, tm') \<Longrightarrow> txn_run e tm0 tm' (ts @ [t])"
| t_get: "txn_run e tm0 tm ts \<Longrightarrow> i < length ts \<Longrightarrow> txn_get e secs now k (ts ! i) tm = (r, t, tm') \<Longrightarrow> txn_run e tm0 tm' (ts[i := t])"
| t_range: "txn_run e tm0 tm ts \<Longrightarrow> i < length ts \<Longrightarrow> record_read_range a b (ts ! i) = (r', t) \<Longrightarrow> txn_run e tm0 tm (ts[i := t])"
| t_set: "txn_run e tm0 tm ts \<Longrightarrow> i < length ts \<Longrightarrow> txn_set k v (ts ! i) = (r', t) \<Longrightarrow> txn_run e tm0 tm (ts[i := t])"
| t_set_ttl: "txn_run e tm0 tm ts \<Longrightarrow> i < length ts \<Longrightarrow> txn_set_with_ttl k v ttl (ts ! i) = (r', t) \<Longrightarrow> txn_run e tm0 tm (ts[i := t])"
| t_delete: "txn_run e tm0 tm ts \<Longrightarrow> i < length ts \<Longrightarrow> txn_delete k (ts ! i) = (r', t) \<Longrightarrow> txn_run e tm0 tm (ts[i := t])"
| t_savepoint: "txn_run e tm0 tm ts \<Longrightarrow> i < length ts \<Longrightarrow> savepoint n (ts ! i) tm = (r', t, tm') \<Longrightarrow> txn_run e tm0 tm' (ts[i := t])"
| t_rollback: "txn_run e tm0 tm ts \<Longrightarrow> i < length ts \<Longrightarrow> rollback_to_savepoint n (ts ! i) tm = (r', t, tm') \<Longrightarrow> txn_run e tm0 tm' (ts[i := t])"
| t_release: "txn_run e tm0 tm ts \<Longrightarrow> i < length ts \<Longrightarrow> release_savepoint n (ts ! i) = (r', t) \<Longrightarrow> txn_run e tm0 tm (ts[i := t])"
| t_commit: "txn_run e tm0 tm ts \<Longrightarrow> i < length ts \<Longrightarrow> txn_commit e io None enum order secs now (ts ! i) tm = (q, t, tm') \<Longrightarrow>
    set (order (write_set (ts ! i))) = set (write_set (ts ! i)) \<Longrightarrow>
    (\<And>b. build_write_batch secs (order (write_set (ts ! i))) batch_new = Inr b \<Longrightarrow> tx_ok b \<and> room_for e b (tm_db tm)) \<Longrightarrow>
    txn_run e tm0 tm' (ts[i := t])"
| t_abort: "txn_run e tm0 tm ts \<Longrightarrow> i < length ts \<Longrightarrow> state (ts ! i) = Active \<Longrightarrow> txn_abort (ts ! i) tm = (t, tm') \<Longrightarrow>
    txn_run e tm0 tm' (ts[i := t])"

text \<open>The snapshots of the active transactions are registered, and everything committed after one
  of them is in the history.\<close>

definition live_seqs :: "Transaction list \<Rightarrow> u64 multiset" where
  "live_seqs ts = mset (map read_seq (filter (\<lambda>t. state t = Active) ts))"

definition covered :: "(bytes \<Rightarrow> u64 \<Rightarrow> cell option) \<Rightarrow> CommittedTxn list \<Rightarrow> u64 \<Rightarrow> bool" where
  "covered a h s \<longleftrightarrow> (\<forall>k q. a k q \<noteq> None \<and> q > s \<longrightarrow> (\<exists>c \<in> set h. commit_seq c > s \<and> k \<in> write_keys c))"

definition manager_ok :: "env \<Rightarrow> TransactionManager \<Rightarrow> Transaction list \<Rightarrow> bool" where
  "manager_ok e tm ts \<longleftrightarrow> db_ok e (tm_db tm) \<and> current_epoch (group_commit (tm_db tm)) = 0 \<and> registry_ok (tm_db tm) \<and>
     live_seqs ts \<subseteq># held (tm_db tm) \<and>
     (\<forall>s \<in># live_seqs ts. s < global_seq (tm_db tm) \<and> covered (db_cells e (tm_db tm)) (history tm) s)"

section \<open>What the commit check decides\<close>

lemma scan_conflicts_None: "scan_conflicts t h = None \<longleftrightarrow> (\<forall>c \<in> set h. conflict_with t c = None)"
  by (induction h) (auto split: option.splits)

lemma no_conflict_no_write:
  assumes "scan_conflicts t h = None" and "c \<in> set h" and "commit_seq c > read_seq t"
  shows "k \<in> write_keys c \<Longrightarrow> k \<notin> fst ` set (write_set t) \<and> k \<notin> read_set t \<and> (\<forall>r \<in> set (read_ranges t). \<not> in_range k r)"
proof -
  assume "k \<in> write_keys c"
  then show ?thesis
    using assms unfolding scan_conflicts_None by (fastforce simp: conflict_with_def split: if_splits)
qed

lemma covered_unchanged:
  assumes "covered a h (read_seq t)" and "scan_conflicts t h = None"
    and "k \<in> fst ` set (write_set t) \<or> k \<in> read_set t \<or> (\<exists>r \<in> set (read_ranges t). in_range k r)"
  shows "a k q \<noteq> None \<Longrightarrow> q \<le> read_seq t"
  using assms no_conflict_no_write [OF assms(2)] unfolding covered_def by (metis not_le)

lemma min_snapshot_le:
  assumes "registry_ok db" and "s \<in># held db"
  shows "min_active_snapshot db \<le> s"
proof -
  have s: "s \<in> fst ` set (active_snapshots db)" using set_held [OF assms(1)] assms(2) by simp
  then obtain x xs where x: "active_snapshots db = x # xs" by (cases "active_snapshots db") auto
  have "\<forall>y \<in> set xs. fst x < fst y" using assms(1) by (auto simp: registry_ok_def x om_wf_def)
  then have "fst x \<le> s" using s by (auto simp: x)
  then show ?thesis by (cases x) (simp add: min_active_snapshot_def x)
qed

lemma build_keys:
  "build_write_batch secs ws b0 = Inr b \<Longrightarrow>
     fst ` set (buffered_writes b) \<union> set (buffered_deletes b) =
     fst ` set (buffered_writes b0) \<union> set (buffered_deletes b0) \<union> fst ` set ws"
proof (induction secs ws b0 rule: build_write_batch.induct)
  case (2 secs k v ttl ws b0)
  then obtain b1 where "build_write_batch secs ws b1 = Inr b"
    and b1: "(case v of Some x \<Rightarrow> if ttl > 0 then set_with_ttl secs k x ttl b0 else batch_set secs k x b0 | None \<Rightarrow> batch_delete k b0) = Inr b1"
    by (auto simp: bind_res_def split: sum.splits)
  then have "fst ` set (buffered_writes b) \<union> set (buffered_deletes b) =
      fst ` set (buffered_writes b1) \<union> set (buffered_deletes b1) \<union> fst ` set ws" using 2 by blast
  moreover have "fst ` set (buffered_writes b1) \<union> set (buffered_deletes b1) =
      insert k (fst ` set (buffered_writes b0) \<union> set (buffered_deletes b0))"
    using b1 by (auto simp: set_with_ttl_def batch_set_def batch_delete_def Let_def split: option.splits if_splits)
  ultimately show ?case by auto
qed simp

lemma batch_cells_keys:
  assumes "apply_batch q tx a k r \<noteq> None"
  shows "a k r \<noteq> None \<or> k \<in> fst ` set (buffered_writes tx) \<union> set (buffered_deletes tx)"
proof -
  have w: "(x, y) \<in> set (write_cells q ws) \<Longrightarrow> fst x \<in> fst ` set ws" for x y q ws
    by (induction q ws rule: write_cells.induct) auto
  have d: "(x, y) \<in> set (delete_cells q ks) \<Longrightarrow> fst x \<in> set ks" for x y q ks
    by (induction q ks rule: delete_cells.induct) auto
  show ?thesis
    using assms w [of "(k, r)"] d [of "(k, r)"]
    by (fastforce simp: apply_batch_def batch_cells_def split: option.splits dest: map_of_SomeD)
qed

section \<open>The invariant\<close>

lemma live_update:
  assumes "i < length ts"
  shows "live_seqs (ts[i := t]) + (if state (ts ! i) = Active then {#read_seq (ts ! i)#} else {#}) =
    live_seqs ts + (if state t = Active then {#read_seq t#} else {#})"
proof -
  have "ts = take i ts @ ts ! i # drop (Suc i) ts" using assms by (rule id_take_nth_drop)
  then have "live_seqs ts = live_seqs (take i ts) + live_seqs [ts ! i] + live_seqs (drop (Suc i) ts)"
    by (metis append_Cons append_Nil filter_append live_seqs_def map_append mset_append union_assoc)
  moreover have "live_seqs (ts[i := t]) = live_seqs (take i ts) + live_seqs [t] + live_seqs (drop (Suc i) ts)"
    using assms by (simp add: upd_conv_take_nth_drop live_seqs_def)
  ultimately show ?thesis by (simp add: live_seqs_def)
qed

lemma live_same:
  assumes "i < length ts" and "state t = state (ts ! i)" and "read_seq t = read_seq (ts ! i)"
  shows "live_seqs (ts[i := t]) = live_seqs ts"
  using live_update [OF assms(1), of t] assms(2,3) by (simp split: if_splits)

lemma live_done:
  assumes "i < length ts" and "state (ts ! i) = Active" and "state t \<noteq> Active"
  shows "live_seqs ts = add_mset (read_seq (ts ! i)) (live_seqs (ts[i := t]))"
  using live_update [OF assms(1), of t] assms(2,3) by simp

lemma manager_ok_step:
  assumes "manager_ok e tm ts" and "db_ok e (tm_db tm')" and "db_cells e (tm_db tm') = db_cells e (tm_db tm)"
    and "current_epoch (group_commit (tm_db tm')) = 0" and "registry_ok (tm_db tm')" and "live_seqs ts' \<subseteq># held (tm_db tm')"
    and "set_mset (live_seqs ts') \<subseteq> set_mset (live_seqs ts)" and "global_seq (tm_db tm) \<le> global_seq (tm_db tm')"
    and "history tm' = history tm"
  shows "manager_ok e tm' ts'"
  using assms unfolding manager_ok_def by (auto intro: less_le_trans)

lemma manager_ok_local:
  assumes "manager_ok e tm ts" and "tm_db tm' = (tm_db tm)\<lparr>block_cache := c\<rparr>" and "db_ok e (tm_db tm')" and "history tm' = history tm"
    and "live_seqs ts' = live_seqs ts"
  shows "manager_ok e tm' ts'"
  by (rule manager_ok_step [OF assms(1,3)])
    (use assms in \<open>auto simp: manager_ok_def db_cells_def [abs_def] registry_ok_def held_def\<close>)

lemma unregister_frame: "\<exists>c. unregister_snapshot s kv = kv\<lparr>active_snapshots := c\<rparr>"
  using snapshot_frame by blast

lemma manager_ok_cleanup:
  assumes "manager_ok e tm ts" and "i < length ts" and "state (ts ! i) = Active" and "state t \<noteq> Active"
    and "tm_db tm' = unregister_snapshot (read_seq (ts ! i)) (tm_db tm)" and "history tm' = history tm"
  shows "manager_ok e tm' (ts[i := t])"
proof -
  let ?kv = "tm_db tm" let ?s = "read_seq (ts ! i)"
  obtain c where c: "unregister_snapshot ?s ?kv = ?kv\<lparr>active_snapshots := c\<rparr>" using unregister_frame by blast
  have ok: "db_ok e ?kv" "registry_ok ?kv" "live_seqs ts \<subseteq># held ?kv" using assms(1) by (simp_all add: manager_ok_def)
  note L = live_done [OF assms(2-4)]
  have D: "db_ok e (tm_db tm')" "db_cells e (tm_db tm') = db_cells e ?kv"
    using db_frame [OF ok(1), of "?kv\<lparr>active_snapshots := c\<rparr>"] by (simp_all add: assms(5) c)
  have H: "registry_ok (tm_db tm')" "held (tm_db tm') = held ?kv - {#?s#}" using registry_ops [OF ok(2), of ?s] by (simp_all add: assms(5))
  have "live_seqs (ts[i := t]) \<subseteq># held (tm_db tm')"
    using ok(3) unfolding H(2) L by (metis add_mset_remove_trivial subset_eq_diff_conv mset_subset_eq_add_mset_cancel insert_subset_eq_iff)
  then show ?thesis
    by (intro manager_ok_step [OF assms(1) D _ H(1)]) (use assms(1,6) L in \<open>auto simp: manager_ok_def assms(5) c\<close>)
qed

lemma manager_ok_begin:
  assumes "manager_ok e tm ts" and "begin_txn now tm = (t, tm')"
  shows "manager_ok e tm' (ts @ [t])"
proof -
  let ?kv = "tm_db tm" let ?s = "global_seq (tm_db tm) - 1"
  have ok: "db_ok e ?kv" "registry_ok ?kv" "live_seqs ts \<subseteq># held ?kv" using assms(1) by (simp_all add: manager_ok_def)
  have g: "0 < global_seq ?kv" by (rule db_okD(7) [OF ok(1)])
  then have s: "fst (snapshot ?kv) = ?s" by (simp add: snapshot_def Let_def)
  obtain c where c: "snd (snapshot ?kv) = ?kv\<lparr>active_snapshots := c\<rparr>" using snapshot_frame by blast
  have t: "t = txn_new (next_txn_id tm) ?s now" "tm_db tm' = snd (snapshot ?kv)" "history tm' = history tm"
    using assms(2) s by (auto simp: begin_txn_def Let_def split: prod.splits)
  have L: "live_seqs (ts @ [t]) = add_mset ?s (live_seqs ts)" by (simp add: live_seqs_def t txn_new_def)
  have H: "registry_ok (tm_db tm')" "held (tm_db tm') = add_mset ?s (held ?kv)" using registry_ops [OF ok(2)] s by (simp_all add: t(2))
  have D: "db_ok e (tm_db tm')" "db_cells e (tm_db tm') = db_cells e ?kv"
    using db_frame [OF ok(1), of "?kv\<lparr>active_snapshots := c\<rparr>"] by (simp_all add: t(2) c)
  have lt: "?s < global_seq ?kv" "q \<le> ?s" if "q < global_seq ?kv" for q
    using that g by (simp_all add: word_less_nat_alt word_le_nat_alt unat_minus_one [OF less_imp_neq [OF g, symmetric]])
  have "covered (db_cells e ?kv) (history tm) ?s"
    unfolding covered_def using db_okD(3) [OF ok(1)] lt(2) by (auto simp: db_cells_def not_less [symmetric])
  then show ?thesis
    using assms(1) D H lt(1) [of 0] g unfolding manager_ok_def L t(3) by (auto simp: t(2) c)
qed

lemma commit_registry:
  "commit_batch_local e io tx kv = (r, kv') \<Longrightarrow> active_snapshots kv' = active_snapshots kv"
proof -
  have "active_snapshots db' = active_snapshots db" if "group_sync io db = (r, db')" for r db db'
    using that by (auto simp: group_sync_def sync_group_commit_files_def Let_def
        split: prod.splits join_outcome.splits option.splits if_splits sum.splits)
  then show "commit_batch_local e io tx kv = (r, kv') \<Longrightarrow> active_snapshots kv' = active_snapshots kv"
    by (fastforce simp: commit_batch_local_def heap_put_def reserve_def publish_def Let_def
        split: if_splits option.splits prod.splits sum.splits)
qed

text \<open>A commit that applies its batch: the new versions are in the history, and the records pruned
  lie below every snapshot still held.\<close>

lemma manager_ok_applied:
  assumes inv: "manager_ok e tm ts" and e: "env_ok e" and i: "i < length ts" "state (ts ! i) = Active" "state t \<noteq> Active"
    and b: "tx_ok b" "room_for e b (tm_db tm)" "fst ` set (buffered_writes b) \<union> set (buffered_deletes b) \<subseteq> write_keys c"
    and c: "commit_batch_local e io b (tm_db tm) = (Inr q, kv)" "commit_seq c = q"
    and tm': "tm_db tm' = unregister_snapshot (read_seq (ts ! i)) kv"
      "history tm' = prune (min_active_snapshot (tm_db tm')) (history tm @ [c])"
  shows "manager_ok e tm' (ts[i := t])"
proof -
  let ?kv = "tm_db tm" let ?s = "read_seq (ts ! i)"
  have ok: "db_ok e ?kv" "registry_ok ?kv" "live_seqs ts \<subseteq># held ?kv" "current_epoch (group_commit ?kv) = 0"
    and cov: "\<forall>s \<in># live_seqs ts. s < global_seq ?kv \<and> covered (db_cells e ?kv) (history tm) s"
    using inv by (simp_all add: manager_ok_def)
  note A = commit_acked [OF ok(1) e b(1,2) ok(4) c(1)]
  have rg: "active_snapshots kv = active_snapshots ?kv" by (rule commit_registry [OF c(1)])
  then have hk: "registry_ok kv" "held kv = held ?kv" using ok(2) by (simp_all add: registry_ok_def held_def)
  obtain x where x: "unregister_snapshot ?s kv = kv\<lparr>active_snapshots := x\<rparr>" using unregister_frame by blast
  have D: "db_ok e (tm_db tm')" "db_cells e (tm_db tm') = db_cells e kv"
    using db_frame [of e kv "kv\<lparr>active_snapshots := x\<rparr>"] A by (simp_all add: tm'(1) x)
  have H: "registry_ok (tm_db tm')" "held (tm_db tm') = held ?kv - {#?s#}" using registry_ops [OF hk(1), of ?s] hk(2) by (simp_all add: tm'(1))
  note L = live_done [OF i]
  have sub: "live_seqs (ts[i := t]) \<subseteq># held (tm_db tm')"
    using ok(3) unfolding H(2) L by (metis add_mset_remove_trivial subset_eq_diff_conv mset_subset_eq_add_mset_cancel insert_subset_eq_iff)
  have gl: "global_seq ?kv \<le> q" "global_seq ?kv \<le> global_seq kv"
    using A b(2) by (simp_all add: word_le_nat_alt room_for_def unat_word_ariths unat_of_nat)
  have "s < global_seq (tm_db tm') \<and> covered (db_cells e (tm_db tm')) (history tm') s" if s: "s \<in># live_seqs (ts[i := t])" for s
  proof
    have sl: "s < global_seq ?kv" "covered (db_cells e ?kv) (history tm) s" using cov s L by auto
    then show "s < global_seq (tm_db tm')" using gl(2) by (simp add: tm'(1) x)
    have ms: "min_active_snapshot (tm_db tm') \<le> s" using min_snapshot_le [OF H(1)] mset_subset_eqD [OF sub s] by blast
    have "\<exists>c' \<in> set (history tm @ [c]). s < commit_seq c' \<and> k \<in> write_keys c'"
      if "db_cells e kv k r \<noteq> None" "s < r" for k r
    proof -
      have "db_cells e ?kv k r \<noteq> None \<or> k \<in> write_keys c" using that A batch_cells_keys [of _ b] b(3) by fastforce
      then show ?thesis
      proof
        assume "db_cells e ?kv k r \<noteq> None"
        then show ?thesis using sl(2) that(2) unfolding covered_def by auto
      next
        assume "k \<in> write_keys c"
        then show ?thesis using sl(1) gl(1) c(2) by auto
      qed
    qed
    then show "covered (db_cells e (tm_db tm')) (history tm') s"
      unfolding covered_def D(2) tm'(2) prune_def using ms by (fastforce intro: order.trans less_imp_le)
  qed
  then show ?thesis
    using D(1) H(1) sub commit_lead [OF ok(4) c(1)] unfolding manager_ok_def by (simp add: tm'(1) x)
qed

lemma cleanup_simps [simp]:
  "tm_db (cleanup_txn i s tm) = unregister_snapshot s (tm_db tm)" "history (cleanup_txn i s tm) = history tm"
  "tm_db (count_abort x tm) = tm_db tm" "history (count_abort x tm) = history tm"
  "tm_db (count_commit tm) = tm_db tm" "history (count_commit tm) = history tm"
  by (simp_all add: cleanup_txn_def count_abort_def count_commit_def)

text \<open>The outcomes of a commit on one node.\<close>

lemma txn_commit_cases:
  assumes "txn_commit e io None enum order secs now t tm = (r, t', tm')"
  obtains (unchanged) f where "r = Inl f" "t' = t" "tm' = tm"
  | (finished) "state t = Active" "state t' \<noteq> Active" "tm_db tm' = unregister_snapshot (read_seq t) (tm_db tm)" "history tm' = history tm"
      "\<And>q. r = Inr q \<Longrightarrow> write_set t = []"
  | (failed) f b kv where "r = Inl f" "t' = t" "build_write_batch secs (order (write_set t)) batch_new = Inr b"
      "commit_batch_local e io b (tm_db tm) = (Inl f, kv)" "tm' = tm\<lparr>tm_db := kv\<rparr>"
  | (applied) q b kv c where "r = Inr q" "state t = Active" "state t' \<noteq> Active" "scan_conflicts t (history tm) = None"
      "build_write_batch secs (order (write_set t)) batch_new = Inr b" "commit_batch_local e io b (tm_db tm) = (Inr q, kv)"
      "commit_seq c = q" "write_keys c = fst ` set (write_set t)" "tm_db tm' = unregister_snapshot (read_seq t) kv"
      "history tm' = prune (min_active_snapshot (tm_db tm')) (history tm @ [c])"
proof (cases "state t = Active \<and> \<not> now - started_at t > txn_timeout tm \<and> write_set t \<noteq> [] \<and> scan_conflicts t (history tm) = None")
  case False
  then consider "state t \<noteq> Active" | "state t = Active" "now - started_at t > txn_timeout tm"
    | "state t = Active" "\<not> now - started_at t > txn_timeout tm" "write_set t = []"
    | c where "state t = Active" "\<not> now - started_at t > txn_timeout tm" "write_set t \<noteq> []" "scan_conflicts t (history tm) = Some c"
    by auto
  then show thesis
    by cases (use assms in \<open>auto simp: txn_commit_def intro: unchanged finished\<close>)
next
  case True
  show thesis
  proof (cases "build_write_batch secs (order (write_set t)) batch_new")
    case (Inl f)
    then show thesis using True assms by (intro unchanged) (auto simp: txn_commit_def)
  next
    case (Inr b)
    obtain r1 kv where c: "commit_batch_local e io b (tm_db tm) = (r1, kv)" by force
    show thesis
    proof (cases r1)
      case (Inl f)
      then show thesis using True assms Inr c by (intro failed) (auto simp: txn_commit_def)
    next
      case (Inr q)
      then show thesis using True assms \<open>build_write_batch secs (order (write_set t)) batch_new = Inr b\<close> c
        by (intro applied [of q b kv "\<lparr>c_txn_id = txn_id t, commit_seq = q, write_keys = fst ` set (write_set t),
              read_keys = read_set t, c_read_ranges = read_ranges t\<rparr>"]) (auto simp: txn_commit_def Let_def)
    qed
  qed
qed

lemma commit_manager_ok:
  assumes inv: "manager_ok e tm ts" and e: "env_ok e" and i: "i < length ts"
    and c: "txn_commit e io None enum order secs now (ts ! i) tm = (r, t, tm')"
    and o: "set (order (write_set (ts ! i))) = set (write_set (ts ! i))"
    and b: "\<And>b. build_write_batch secs (order (write_set (ts ! i))) batch_new = Inr b \<Longrightarrow> tx_ok b \<and> room_for e b (tm_db tm)"
  shows "manager_ok e tm' (ts[i := t])"
  using c
proof (cases rule: txn_commit_cases)
  case (unchanged f)
  then show ?thesis using inv i by simp
next
  case finished
  then show ?thesis using manager_ok_cleanup [OF inv i] by simp
next
  case (failed f b kv)
  have ok: "db_ok e (tm_db tm)" "current_epoch (group_commit (tm_db tm)) = 0" using inv by (simp_all add: manager_ok_def)
  have "active_snapshots kv = active_snapshots (tm_db tm)" by (rule commit_registry [OF failed(4)])
  then have "registry_ok kv" "held kv = held (tm_db tm)" using inv by (simp_all add: manager_ok_def registry_ok_def held_def)
  then show ?thesis
    using commit_failed [OF ok(1) e _ _ failed(4)] b [OF failed(3)] commit_lead [OF ok(2) failed(4)] inv i failed
    by (intro manager_ok_step [OF inv]) (auto simp: manager_ok_def)
next
  case (applied q b kv c)
  have "fst ` set (buffered_writes b) \<union> set (buffered_deletes b) \<subseteq> write_keys c"
    using build_keys [OF applied(5)] o by (simp add: batch_new_def applied(8))
  then show ?thesis
    using manager_ok_applied [OF inv e i applied(2,3) _ _ _ applied(6,7,9,10)] b [OF applied(5)] by blast
qed

lemma txn_run_ok:
  assumes e: "env_ok e" and "manager_ok e tm0 []" and "txn_run e tm0 tm ts"
  shows "manager_ok e tm ts"
  using assms(3)
proof induction
  case t_start
  then show ?case by (rule assms(2))
next
  case (t_begin tm ts now t tm')
  then show ?case using manager_ok_begin by blast
next
  case (t_get tm ts i secs now k r t tm')
  let ?t = "ts ! i"
  have ok: "db_ok e (tm_db tm)" using t_get.IH by (simp add: manager_ok_def)
  obtain c where c: "snd (db_find e secs k (read_seq ?t) (tm_db tm)) = (tm_db tm)\<lparr>block_cache := c\<rparr>"
    "db_ok e ((tm_db tm)\<lparr>block_cache := c\<rparr>)" using find_spec [OF ok, of secs k "read_seq ?t"] by auto
  consider "state ?t \<noteq> Active" | "state ?t = Active" "now - started_at ?t > txn_timeout tm"
    | x where "state ?t = Active" "\<not> now - started_at ?t > txn_timeout tm" "om_lookup (write_set ?t) k = Some x"
    | "state ?t = Active" "\<not> now - started_at ?t > txn_timeout tm" "om_lookup (write_set ?t) k = None"
    using option.exhaust [of "om_lookup (write_set ?t) k"] by blast
  then show ?case
  proof cases
    case 1
    then have "t = ?t" "tm' = tm" using t_get(3) by (simp_all add: txn_get_def)
    then show ?thesis using t_get.IH by simp
  next
    case 2
    then show ?thesis using t_get manager_ok_cleanup [OF t_get.IH t_get(2), of t tm'] by (auto simp: txn_get_def)
  next
    case 3
    then show ?thesis using t_get live_same [OF t_get(2), of t] by (auto simp: txn_get_def manager_ok_def split: prod.splits)
  next
    case 4
    then have "tm' = tm\<lparr>tm_db := (tm_db tm)\<lparr>block_cache := c\<rparr>\<rparr>" "state t = state ?t" "read_seq t = read_seq ?t"
      using t_get(3) c(1) by (auto simp: txn_get_def split: prod.splits)
    then show ?thesis using c(2) live_same [OF t_get(2), of t] by (intro manager_ok_local [OF t_get.IH, of _ c]) simp_all
  qed
next
  case (t_commit tm ts i io enum order secs now q t tm')
  then show ?case using commit_manager_ok [OF _ e] by blast
next
  case (t_abort tm ts i t tm')
  then show ?case using manager_ok_cleanup [of e tm ts i t tm'] by (auto simp: txn_abort_def)
qed (auto simp: record_read_range_def txn_set_def txn_set_with_ttl_def txn_delete_def savepoint_def rollback_to_savepoint_def
    release_savepoint_def Let_def manager_ok_def live_same split: if_splits option.splits)

section \<open>The effect of a commit\<close>

definition sets_ok :: "Transaction \<Rightarrow> bool" where
  "sets_ok t \<longleftrightarrow> om_wf (write_set t) \<and> (\<forall>sp \<in> set (savepoints t). om_wf (write_set_snapshot sp))"

lemma rposition_less: "rposition P xs = Some i \<Longrightarrow> i < length xs \<and> P (xs ! i)"
proof -
  assume "rposition P xs = Some i"
  then have "i \<in> set (filter (\<lambda>i. P (xs ! i)) [0..<length xs])"
    unfolding rposition_def by (cases "filter (\<lambda>i. P (xs ! i)) [0..<length xs]") (auto simp del: filter.simps split: if_splits)
  then show "i < length xs \<and> P (xs ! i)" by simp
qed

lemma rposition_snoc: "P x \<Longrightarrow> rposition P (xs @ [x]) = Some (length xs)"
proof -
  assume "P x"
  then have "filter (\<lambda>i. P ((xs @ [x]) ! i)) [0..<length (xs @ [x])] = filter (\<lambda>i. P ((xs @ [x]) ! i)) [0..<length xs] @ [length xs]"
    by simp
  then show "rposition P (xs @ [x]) = Some (length xs)"
    unfolding rposition_def by (cases "filter (\<lambda>i. P ((xs @ [x]) ! i)) [0..<length xs]") simp_all
qed

lemma commit_sets: "txn_commit e io None enum order secs now t tm = (r, t', tm') \<Longrightarrow> write_set t' = write_set t \<and> savepoints t' = savepoints t"
  by (auto simp: txn_commit_def Let_def split: if_splits option.splits sum.splits prod.splits)

lemma txn_run_sets:
  assumes "txn_run e tm0 tm ts"
  shows "\<forall>t \<in> set ts. sets_ok t"
  using assms
proof induction
  case (t_begin tm ts now t tm')
  then show ?case by (auto simp: begin_txn_def sets_ok_def txn_new_def om_wf_def Let_def split: prod.splits)
next
  case (t_commit tm ts i io enum order secs now q t tm')
  then have "sets_ok (ts ! i)" by simp
  then have "sets_ok t" using commit_sets [OF t_commit(3)] by (simp add: sets_ok_def)
  then show ?case using t_commit set_update_subset_insert [of ts i t] by blast
next
  case (t_rollback tm ts i n r' t tm')
  have s: "sets_ok (ts ! i)" using t_rollback by simp
  have "sets_ok t"
    using t_rollback(3) s rposition_less [of "\<lambda>sp. sp_name sp = n" "savepoints (ts ! i)"]
    by (auto simp: rollback_to_savepoint_def sets_ok_def Let_def split: if_splits option.splits) (meson in_set_takeD)
  then show ?case using t_rollback set_update_subset_insert [of ts i t] by blast
next
  case (t_release tm ts i n r' t)
  have s: "sets_ok (ts ! i)" using t_release by simp
  have "sets_ok t"
    using t_release(3) s
    by (auto simp: release_savepoint_def sets_ok_def split: if_splits option.splits) (meson in_set_takeD in_set_dropD)+
  then show ?case using t_release set_update_subset_insert [of ts i t] by blast
next
  case (t_get tm ts i secs now k r t tm')
  have s: "sets_ok (ts ! i)" using t_get by simp
  have "sets_ok t"
    using t_get(3) s by (auto simp: txn_get_def sets_ok_def split: if_splits option.splits prod.splits)
  then show ?case using t_get set_update_subset_insert [of ts i t] by blast
qed (auto dest!: set_update_subset_insert [THEN subsetD] nth_mem
    simp: sets_ok_def record_read_range_def txn_set_def txn_set_with_ttl_def txn_delete_def savepoint_def txn_abort_def om_wf_insert
    om_wf_def [of "[]"] split: if_splits)

definition write_outcome :: "u64 \<Rightarrow> u64 \<Rightarrow> (bytes option \<times> u64) \<Rightarrow> bytes option" where
  "write_outcome secs clock = (\<lambda>(v, ttl). case v of None \<Rightarrow> None
     | Some x \<Rightarrow> if expired clock (if ttl > 0 then secs + ttl else 0) then None else Some x)"

lemma build_batch:
  "build_write_batch secs ws b0 = Inr b \<Longrightarrow>
     buffered_writes b = buffered_writes b0 @
       concat (map (\<lambda>(k, v, ttl). case v of None \<Rightarrow> [] | Some x \<Rightarrow> [(k, x, if ttl > 0 then secs + ttl else 0)]) ws) \<and>
     buffered_deletes b = buffered_deletes b0 @ concat (map (\<lambda>(k, v, ttl). case v of None \<Rightarrow> [k] | Some x \<Rightarrow> []) ws)"
  by (induction secs ws b0 rule: build_write_batch.induct)
    (auto simp: bind_res_def set_with_ttl_def batch_set_def batch_delete_def Let_def split: sum.splits option.splits if_splits)

text \<open>Each key of the write set has one entry, so the batch does what the write set says.\<close>

lemma batch_read_write_set:
  assumes "build_write_batch secs ws batch_new = Inr b" and "distinct (map fst ws)"
  shows "batch_read b f clock k = (case map_of ws k of None \<Rightarrow> f clock k | Some w \<Rightarrow> write_outcome secs clock w)"
proof -
  define g where "g = (\<lambda>w :: bytes \<times> bytes option \<times> u64.
    case fst (snd w) of None \<Rightarrow> [] | Some x \<Rightarrow> [(fst w, x, if snd (snd w) > 0 then secs + snd (snd w) else 0)])"
  define d where "d = (\<lambda>w :: bytes \<times> bytes option \<times> u64. case fst (snd w) of None \<Rightarrow> [fst w] | Some x \<Rightarrow> [])"
  have b: "buffered_writes b = concat (map g ws)" "buffered_deletes b = concat (map d ws)"
    using build_batch [OF assms(1)] by (simp_all add: batch_new_def g_def d_def case_prod_unfold)
  have g0: "filter (\<lambda>w. fst w = k) (concat (map g xs)) = []" and d0: "k \<notin> set (concat (map d xs))" if "k \<notin> fst ` set xs" for xs
    using that by (induction xs) (auto simp: g_def d_def split: option.splits)
  show ?thesis
  proof (cases "map_of ws k")
    case None
    then have "k \<notin> fst ` set ws" by (simp add: map_of_eq_None_iff)
    then show ?thesis using g0 [of ws] d0 [of ws] None by (simp add: batch_read_def b rev_filter [symmetric])
  next
    case (Some w)
    then obtain xs ys where ws: "ws = xs @ (k, w) # ys" by (meson map_of_SomeD split_list)
    then have n: "k \<notin> fst ` set xs" "k \<notin> fst ` set ys" using assms(2) by auto
    have "filter (\<lambda>w. fst w = k) (rev (buffered_writes b)) = rev (g (k, w))"
      unfolding rev_filter [symmetric] b(1) ws using g0 [OF n(1)] g0 [OF n(2)] by (auto simp: g_def split: option.splits)
    moreover have "k \<in> set (buffered_deletes b) \<longleftrightarrow> fst w = None"
      using d0 [OF n(1)] d0 [OF n(2)] unfolding b(2) ws by (auto simp: d_def split: option.splits)
    ultimately show ?thesis using Some by (cases w) (auto simp: batch_read_def write_outcome_def g_def split: option.splits)
  qed
qed

section \<open>Properties\<close>


text \<open>One transaction that sets a key of an empty database.\<close>

lemma demo_txn:
  obtains tm ts q t tm' where "txn_run demo_env (with_timeout demo_db [] 9) tm ts" and "length ts = 1"
    and "write_set (ts ! 0) = [([97], Some [49], 0)]" and "txn_commit demo_env demo_io None (\<lambda>_. []) id 0 0 (ts ! 0) tm = (Inr q, t, tm')"
    and "\<And>b. build_write_batch 0 (id (write_set (ts ! 0))) batch_new = Inr b \<Longrightarrow> tx_ok b \<and> room_for demo_env b (tm_db tm)"
proof -
  let ?tm = "with_timeout demo_db [] 9"
  obtain t1 tm1 where b: "begin_txn 0 ?tm = (t1, tm1)" by force
  obtain c where c: "snd (snapshot demo_db) = demo_db\<lparr>active_snapshots := c\<rparr>" using snapshot_frame by blast
  have t1: "write_set t1 = []" "state t1 = Active" "started_at t1 = 0" "tm_db tm1 = demo_db\<lparr>active_snapshots := c\<rparr>" "history tm1 = []" "txn_timeout tm1 = 9"
    using b c by (auto simp: begin_txn_def with_timeout_def txn_new_def Let_def split: prod.splits)
  define t2 where "t2 = t1\<lparr>write_set := [([97], Some [49], 0)]\<rparr>"
  have s: "txn_set [97] [49] ([t1] ! 0) = (Inr (), t2)" by (simp add: txn_set_def t1 t2_def)
  have run: "txn_run demo_env ?tm tm1 ([t1][0 := t2])"
    by (rule t_set [OF _ _ s]) (use t_begin [OF t_start b] in simp_all)
  let ?b = "\<lparr>buffered_writes = [([97], [49], 0)], buffered_deletes = []\<rparr>"
  have bb: "build_write_batch 0 [([97], Some [49], 0)] batch_new = Inr ?b"
    by (simp add: batch_set_def set_with_ttl_def batch_new_def op_count_def MAX_BATCH_SIZE_def MAX_VALUE_SIZE_def)
  have "tx_ok ?b" by (simp add: tx_ok_def batch_ok_def op_count_def MAX_BATCH_SIZE_def MAX_VALUE_SIZE_def key_ok_def value_ok_def
        ascii_utf8_valid ascii_def COMMIT_MARKER_def)
  moreover have "room_for demo_env ?b (tm_db tm1)"
    by (simp add: room_for_def t1 prep_writes_def prep_value_def payload_def op_count_def) (simp add: demo_db_def fresh_db_def Let_def)
  moreover obtain q kv where "commit_batch_local demo_env demo_io ?b (tm_db tm1) = (Inr q, kv)"
    using commit_returns [of demo_io "tm_db tm1" demo_env ?b] demo_ok(6,7) by (auto simp: t1 write_stalled_def)
  ultimately show thesis
    using run bb by (intro that [of tm1 "[t2]"]) (auto simp: t2_def t1 txn_commit_def Let_def)
qed


text \<open>C30. Rolling back to a savepoint forgets the reads made since: the check at commit no longer
  sees them, so it passes for a transaction that read a key after the savepoint although another one
  overwrote that key meanwhile.\<close>

theorem rollback_forgets_reads:
  assumes "state t = Active" and "savepoint n t tm = (r, t1, tm1)" and "txn_get e secs now k t1 tm1 = (Inr v, t2, tm2)"
    and "rollback_to_savepoint n t2 tm3 = (r', t3, tm4)"
    and "k \<notin> read_set t" and "k \<notin> fst ` set (write_set t)" and "read_ranges t = []"
    and "write_keys c = {k}" and "c_read_ranges c = []"
  shows "k \<in> read_set t2 \<and> r' = Inr () \<and> read_set t3 = read_set t \<and> scan_conflicts t3 [c] = None"
proof -
  have t1: "t1 = t\<lparr>savepoints := savepoints t @ [\<lparr>sp_name = n, write_set_snapshot = write_set t,
      read_set_snapshot = read_set t, read_ranges_snapshot = read_ranges t\<rparr>]\<rparr>"
    using assms(1,2) by (simp add: savepoint_def)
  have t2: "t2 = t1\<lparr>read_set := insert k (read_set t1)\<rparr>"
    using assms(1,3) by (auto simp: txn_get_def t1 split: if_splits option.splits prod.splits)
  have "rposition (\<lambda>sp. sp_name sp = n) (savepoints t2) = Some (length (savepoints t))"
    unfolding t2 t1 by (simp add: rposition_snoc)
  then have t3: "r' = Inr ()" "t3 = t2\<lparr>write_set := write_set t, read_set := read_set t, read_ranges := read_ranges t, savepoints := savepoints t\<rparr>"
    using assms(1,4) by (auto simp: rollback_to_savepoint_def t2 t1 Let_def)
  have "scan_conflicts t3 [c] = None"
    using assms(5-9) by (auto simp: t3 t2 t1 conflict_with_def)
  then show ?thesis using t3 by (simp add: t2)
qed

theorem rollback_forgets_reads_witness:
  "\<exists>t1 tm1 t2 tm2 t3 tm4. savepoint [115] (txn_new 1 0 0) (with_timeout demo_db [] 9) = (Inr (), t1, tm1) \<and>
     txn_get demo_env 0 0 [97] t1 tm1 = (Inr None, t2, tm2) \<and> rollback_to_savepoint [115] t2 tm2 = (Inr (), t3, tm4) \<and>
     scan_conflicts t2 [\<lparr>c_txn_id = 2, commit_seq = 3, write_keys = {[97]}, read_keys = {}, c_read_ranges = []\<rparr>] = Some (RW 2 3) \<and>
     scan_conflicts t3 [\<lparr>c_txn_id = 2, commit_seq = 3, write_keys = {[97]}, read_keys = {}, c_read_ranges = []\<rparr>] = None"
proof -
  let ?t = "txn_new 1 0 0" let ?tm = "with_timeout demo_db [] 9"
  let ?c = "\<lparr>c_txn_id = 2, commit_seq = 3, write_keys = {[97]}, read_keys = {}, c_read_ranges = []\<rparr>"
  obtain t1 tm1 where s: "savepoint [115] ?t ?tm = (Inr (), t1, tm1)" by (auto simp: savepoint_def txn_new_def)
  have t1: "state t1 = Active" "write_set t1 = []" "started_at t1 = 0" "read_seq t1 = 0" "tm_db tm1 = demo_db" "txn_timeout tm1 = 9"
    "read_ranges t1 = []"
    using s by (auto simp: savepoint_def txn_new_def with_timeout_def)
  have "fst (db_find demo_env 0 [97] 0 demo_db) = Inr None"
    using find_spec [OF demo_ok(8), of 0 "[97]" 0] by (auto simp: spec_read_def visible_def)
  then obtain t2 tm2 where g: "txn_get demo_env 0 0 [97] t1 tm1 = (Inr None, t2, tm2)" "t2 = t1\<lparr>read_set := insert [97] (read_set t1)\<rparr>"
    by (cases "db_find demo_env 0 [97] 0 demo_db") (auto simp: txn_get_def t1 om_lookup_def)
  obtain r t3 tm4 where rb: "rollback_to_savepoint [115] t2 tm2 = (r, t3, tm4)" by (metis prod_cases3)
  have "[97] \<in> read_set t2 \<and> r = Inr () \<and> read_set t3 = read_set ?t \<and> scan_conflicts t3 [?c] = None"
    by (rule rollback_forgets_reads [OF _ s g(1) rb]) (simp_all add: txn_new_def)
  moreover have "scan_conflicts t2 [?c] = Some (RW 2 3)" by (simp add: g(2) t1 conflict_with_def)
  ultimately show ?thesis using s g(1) rb by blast
qed

text \<open>C31. Aborting a transaction whose commit timed out releases its snapshot a second time. When
  another transaction reads at the same sequence, its snapshot is then no longer registered, so
  compaction and the pruning of the history no longer respect it.\<close>

theorem abort_releases_twice:
  assumes "registry_ok (tm_db tm)" and "state t = Active" and "now - started_at t > txn_timeout tm"
    and "txn_commit e io gw enum order secs now t tm = (r, t1, tm1)" and "txn_abort t1 tm1 = (t2, tm2)"
  shows "r = timed_out \<and> held (tm_db tm2) = held (tm_db tm) - {#read_seq t, read_seq t#}"
proof -
  have c: "r = timed_out" "t1 = t\<lparr>state := Aborted\<rparr>" "tm_db tm1 = unregister_snapshot (read_seq t) (tm_db tm)"
    using assms(2-4) by (auto simp: txn_commit_def)
  have a: "tm_db tm2 = unregister_snapshot (read_seq t) (tm_db tm1)" using assms(5) c(2) by (auto simp: txn_abort_def)
  note r1 = registry_ops [OF assms(1), of "read_seq t"]
  then have "registry_ok (tm_db tm1)" by (simp add: c(3))
  from registry_ops [OF this, of "read_seq t"] show ?thesis using r1 c(1) by (simp add: a c(3))
qed

theorem abort_releases_twice_witness:
  "\<exists>t1 tm1 t2 tm2 r t3 tm3 t4 tm4. begin_txn 0 (with_timeout demo_db [] 9) = (t1, tm1) \<and> begin_txn 0 tm1 = (t2, tm2) \<and>
     held (tm_db tm2) = {#0, 0#} \<and> txn_commit demo_env demo_io None (\<lambda>_. []) id 0 10 t1 tm2 = (r, t3, tm3) \<and>
     txn_abort t3 tm3 = (t4, tm4) \<and> held (tm_db tm4) = {#}"
proof -
  let ?tm = "with_timeout demo_db [] 9"
  have r0: "registry_ok demo_db" "held demo_db = {#}" "global_seq demo_db = 1"
    by (simp_all add: registry_ok_def held_def demo_db_def fresh_db_def om_wf_def Let_def)
  obtain t1 tm1 where b1: "begin_txn 0 ?tm = (t1, tm1)" by force
  obtain t2 tm2 where b2: "begin_txn 0 tm1 = (t2, tm2)" by force
  have t1: "state t1 = Active" "started_at t1 = 0" "read_seq t1 = 0" "tm_db tm1 = snd (snapshot demo_db)" "txn_timeout tm1 = 9"
    using b1 r0 by (auto simp: begin_txn_def with_timeout_def txn_new_def snapshot_def Let_def)
  have "registry_ok (tm_db tm1) \<and> held (tm_db tm1) = {#0#}" "fst (snapshot (tm_db tm1)) = 0"
    using registry_ops [OF r0(1)] r0 by (simp_all add: t1 snapshot_def Let_def)
  moreover have t2: "tm_db tm2 = snd (snapshot (tm_db tm1))" "txn_timeout tm2 = 9"
    using b2 t1 by (auto simp: begin_txn_def Let_def split: prod.splits)
  ultimately have h2: "registry_ok (tm_db tm2)" "held (tm_db tm2) = {#0, 0#}" using registry_ops [of "tm_db tm1"] by simp_all
  obtain r t3 tm3 where k: "txn_commit demo_env demo_io None (\<lambda>_. []) id 0 10 t1 tm2 = (r, t3, tm3)" by (metis prod_cases3)
  obtain t4 tm4 where a: "txn_abort t3 tm3 = (t4, tm4)" by force
  have h4: "r = timed_out \<and> held (tm_db tm4) = held (tm_db tm2) - {#read_seq t1, read_seq t1#}"
    by (rule abort_releases_twice [OF h2(1) t1(1) _ k a]) (simp add: t1 t2)
  then have "held (tm_db tm4) = {#}" by (simp add: h2 t1)
  then show ?thesis using b1 b2 h2(2) k a by blast
qed



end
