(* ===== verification/Dist_Txn.thy ===== *)
theory Dist_Txn
  imports Store "HOL-Library.Product_Lexorder"
begin

text \<open>
  Two-phase commit: \<^verbatim>\<open>runtime/dist_txn.rs\<close>. A coordinator collects the writes of a transaction per
  node, logs PREPARE, gathers votes, logs the decision and tells the participants; after a crash it
  reads its log back. Hash maps are kept in key order. The JSON codec of the log, the cluster gateway
  of the store and the outcomes of the system calls are arguments. The lemmas show that the log is
  kept in the store under keys of its own and that recovery reads back exactly what was logged.
\<close>

section \<open>State\<close>

type_synonym GlobalTxnId = "u64 \<times> u64"

datatype DistTxnState = Preparing | WaitingForVotes | Committing | Committed | Aborted | InDoubt

record DistWrite =
  w_node :: u64
  w_key :: bytes
  w_value :: "bytes option"
  w_ttl :: u64

datatype Vote = Commit | Abort string

record DistTransaction =
  dt_id :: GlobalTxnId
  dt_state :: DistTxnState
  writes_by_node :: "(u64, DistWrite list) omap"
  votes :: "(u64, Vote) omap"
  created_at :: u64
  timeout_ms :: u64

record PrepareResult =
  pr_node :: u64
  pr_txn :: GlobalTxnId
  pr_vote :: Vote
  pr_seq :: u64

record TwoPhaseLogEntry =
  le_txn :: GlobalTxnId
  le_state :: bytes
  le_participants :: "u64 list"
  le_timestamp :: u64

record TwoPhaseCoordinator =
  co_node :: u64
  co_db :: OmniKV
  next_seq :: u64
  co_active :: "(GlobalTxnId, DistTransaction) omap"
  default_timeout_ms :: u64

record PreparedState =
  ps_batch :: WriteBatch
  ps_seq :: u64
  prepared_at :: nat

record TwoPhaseParticipant =
  pa_node :: u64
  pa_db :: OmniKV
  prepared :: "(GlobalTxnId, PreparedState) omap"

text \<open>What a node uses of code outside: the engine's own environment, the cluster gateway when one is
  set, and the JSON codec of log entries.\<close>

record node_env =
  n_env :: env
  n_gateway :: "(WriteBatch \<Rightarrow> OmniKV \<Rightarrow> u64 result \<times> OmniKV) option"
  to_json :: "TwoPhaseLogEntry \<Rightarrow> bytes option"
  from_json :: "bytes \<Rightarrow> TwoPhaseLogEntry option"

definition commit_batch :: "node_env \<Rightarrow> commit_io \<Rightarrow> WriteBatch \<Rightarrow> OmniKV \<Rightarrow> u64 result \<times> OmniKV" where
  "commit_batch x io tx db = (case n_gateway x of Some g \<Rightarrow> g tx db | None \<Rightarrow> commit_batch_local (n_env x) io tx db)"

section \<open>The coordinator\<close>

definition log_key :: "GlobalTxnId \<Rightarrow> bytes \<Rightarrow> bytes" where
  "log_key i st = str ''__2PC_LOG__/'' @ dec (unat (fst i)) @ str ''_'' @ dec (unat (snd i)) @ str ''/'' @ st"

definition PREPARE :: bytes where "PREPARE = str ''PREPARE''"
definition COMMIT :: bytes where "COMMIT = str ''COMMIT''"
definition ABORT :: bytes where "ABORT = str ''ABORT''"

lemma states_distinct [simp]: "PREPARE \<noteq> COMMIT" "PREPARE \<noteq> ABORT" "COMMIT \<noteq> ABORT" "COMMIT \<noteq> PREPARE" "ABORT \<noteq> PREPARE" "ABORT \<noteq> COMMIT"
  by (simp_all add: PREPARE_def COMMIT_def ABORT_def)

definition log_entry :: "u64 \<Rightarrow> GlobalTxnId \<Rightarrow> bytes \<Rightarrow> u64 list \<Rightarrow> TwoPhaseLogEntry" where
  "log_entry secs i st ps = \<lparr>le_txn = i, le_state = st, le_participants = ps, le_timestamp = secs\<rparr>"

definition log_state :: "node_env \<Rightarrow> commit_io \<Rightarrow> u64 \<Rightarrow> GlobalTxnId \<Rightarrow> bytes \<Rightarrow> u64 list \<Rightarrow> OmniKV \<Rightarrow> unit result \<times> OmniKV" where
  "log_state x io secs i st ps db =
     (case to_json x (log_entry secs i st ps) of
        None \<Rightarrow> (Inl (Err (IoError ''2PC log serialize'')), db)
      | Some v \<Rightarrow>
          (case batch_set secs (log_key i st) v batch_new of
             Inl f \<Rightarrow> (Inl f, db)
           | Inr b \<Rightarrow>
               (case commit_batch x io b db of
                  (Inl f, db') \<Rightarrow> (Inl f, db')
                | (Inr _, db') \<Rightarrow> (Inr (), db'))))"

definition coordinator_new :: "u64 \<Rightarrow> OmniKV \<Rightarrow> u64 \<Rightarrow> TwoPhaseCoordinator" where
  "coordinator_new n db timeout = \<lparr>co_node = n, co_db = db, next_seq = 1, co_active = [], default_timeout_ms = timeout\<rparr>"

definition dist_begin :: "u64 \<Rightarrow> TwoPhaseCoordinator \<Rightarrow> GlobalTxnId \<times> TwoPhaseCoordinator" where
  "dist_begin secs c =
     (let i = (co_node c, next_seq c);
          t = \<lparr>dt_id = i, dt_state = Preparing, writes_by_node = [], votes = [], created_at = secs,
               timeout_ms = default_timeout_ms c\<rparr>
      in (i, c\<lparr>next_seq := next_seq c + 1, co_active := om_insert i t (co_active c)\<rparr>))"

abbreviation no_txn :: "'a result" where
  "no_txn \<equiv> Inl (Err (IoError ''Transaction not found''))"

abbreviation not_preparing :: "'a result" where
  "not_preparing \<equiv> Inl (Err (IoError ''Transaction is not in PREPARING state''))"

definition put_txn :: "GlobalTxnId \<Rightarrow> DistTransaction \<Rightarrow> TwoPhaseCoordinator \<Rightarrow> TwoPhaseCoordinator" where
  "put_txn i t c = c\<lparr>co_active := om_insert i t (co_active c)\<rparr>"

definition add_write ::
  "GlobalTxnId \<Rightarrow> u64 \<Rightarrow> bytes \<Rightarrow> bytes option \<Rightarrow> u64 \<Rightarrow> TwoPhaseCoordinator \<Rightarrow> unit result \<times> TwoPhaseCoordinator" where
  "add_write i n k v ttl c =
     (case om_lookup (co_active c) i of
        None \<Rightarrow> (no_txn, c)
      | Some t \<Rightarrow>
          if dt_state t \<noteq> Preparing then (not_preparing, c)
          else let ws = (case om_lookup (writes_by_node t) n of None \<Rightarrow> [] | Some ws \<Rightarrow> ws);
                   w = \<lparr>w_node = n, w_key = k, w_value = v, w_ttl = ttl\<rparr>
               in (Inr (), put_txn i (t\<lparr>writes_by_node := om_insert n (ws @ [w]) (writes_by_node t)\<rparr>) c))"

definition participants :: "DistTransaction \<Rightarrow> u64 list" where
  "participants t = map fst (writes_by_node t)"

definition dist_prepare ::
  "node_env \<Rightarrow> commit_io \<Rightarrow> u64 \<Rightarrow> GlobalTxnId \<Rightarrow> TwoPhaseCoordinator \<Rightarrow> u64 list result \<times> TwoPhaseCoordinator" where
  "dist_prepare x io secs i c =
     (case om_lookup (co_active c) i of
        None \<Rightarrow> (no_txn, c)
      | Some t \<Rightarrow>
          if dt_state t \<noteq> Preparing then (not_preparing, c)
          else case log_state x io secs i PREPARE (participants t) (co_db c) of
            (Inl f, db) \<Rightarrow> (Inl f, c\<lparr>co_db := db\<rparr>)
          | (Inr _, db) \<Rightarrow> (Inr (participants t), put_txn i (t\<lparr>dt_state := WaitingForVotes\<rparr>) (c\<lparr>co_db := db\<rparr>)))"

fun join_reasons :: "string list \<Rightarrow> string" where
  "join_reasons [] = []"
| "join_reasons [r] = r"
| "join_reasons (r # rs) = r @ ''; '' @ join_reasons rs"

definition abort_reasons :: "(u64, Vote) omap \<Rightarrow> string list" where
  "abort_reasons vs = List.map_filter (\<lambda>(_, v). case v of Abort r \<Rightarrow> Some r | Commit \<Rightarrow> None) vs"

definition receive_vote ::
  "node_env \<Rightarrow> commit_io \<Rightarrow> u64 \<Rightarrow> GlobalTxnId \<Rightarrow> PrepareResult \<Rightarrow> TwoPhaseCoordinator \<Rightarrow>
   DistTxnState result \<times> TwoPhaseCoordinator" where
  "receive_vote x io secs i r c =
     (case om_lookup (co_active c) i of
        None \<Rightarrow> (no_txn, c)
      | Some t \<Rightarrow>
          if dt_state t \<noteq> WaitingForVotes then (Inl (Err (IoError ''Not waiting for votes'')), c)
          else
            let vs = om_insert (pr_node r) (pr_vote r) (votes t); t1 = t\<lparr>votes := vs\<rparr> in
            if set (map fst vs) = set (participants t) then
              if \<forall>v \<in> set (map snd vs). v = Commit then
                case log_state x io secs i COMMIT (participants t) (co_db c) of
                  (Inl f, db) \<Rightarrow> (Inl f, put_txn i (t1\<lparr>dt_state := Committing\<rparr>) (c\<lparr>co_db := db\<rparr>))
                | (Inr _, db) \<Rightarrow> (Inr Committing, put_txn i (t1\<lparr>dt_state := Committing\<rparr>) (c\<lparr>co_db := db\<rparr>))
              else
                case log_state x io secs i ABORT (participants t) (co_db c) of
                  (Inl f, db) \<Rightarrow> (Inl f, put_txn i (t1\<lparr>dt_state := Aborted\<rparr>) (c\<lparr>co_db := db\<rparr>))
                | (Inr _, db) \<Rightarrow> (Inl (Err (IoError (''Distributed transaction aborted: '' @ join_reasons (abort_reasons vs)))),
                    put_txn i (t1\<lparr>dt_state := Aborted\<rparr>) (c\<lparr>co_db := db\<rparr>))
            else (Inr WaitingForVotes, put_txn i t1 c))"

definition finalize_commit :: "GlobalTxnId \<Rightarrow> TwoPhaseCoordinator \<Rightarrow> TwoPhaseCoordinator" where
  "finalize_commit i c = c\<lparr>co_active := om_remove i (co_active c)\<rparr>"

definition dist_abort ::
  "node_env \<Rightarrow> commit_io \<Rightarrow> u64 \<Rightarrow> GlobalTxnId \<Rightarrow> TwoPhaseCoordinator \<Rightarrow> u64 list result \<times> TwoPhaseCoordinator" where
  "dist_abort x io secs i c =
     (case om_lookup (co_active c) i of
        None \<Rightarrow> (no_txn, c)
      | Some t \<Rightarrow>
          (case log_state x io secs i ABORT (participants t) (co_db c) of
             (Inl f, db) \<Rightarrow> (Inl f, put_txn i (t\<lparr>dt_state := Aborted\<rparr>) (c\<lparr>co_db := db\<rparr>))
           | (Inr _, db) \<Rightarrow> (Inr (participants t), c\<lparr>co_db := db, co_active := om_remove i (co_active c)\<rparr>)))"

text \<open>The elapsed time is computed in 64-bit arithmetic, which wraps in a release build.\<close>

definition dist_check_timeouts :: "u64 \<Rightarrow> TwoPhaseCoordinator \<Rightarrow> GlobalTxnId list" where
  "dist_check_timeouts secs c =
     map fst (filter (\<lambda>(i, t). dt_state t = WaitingForVotes \<and> (secs - created_at t) * 1000 > timeout_ms t) (co_active c))"

definition get_state :: "GlobalTxnId \<Rightarrow> TwoPhaseCoordinator \<Rightarrow> DistTxnState option" where
  "get_state i c = map_option dt_state (om_lookup (co_active c) i)"

definition get_participant_writes :: "GlobalTxnId \<Rightarrow> u64 \<Rightarrow> TwoPhaseCoordinator \<Rightarrow> DistWrite list option" where
  "get_participant_writes i n c = Option.bind (om_lookup (co_active c) i) (\<lambda>t. om_lookup (writes_by_node t) n)"

definition dist_active_count :: "TwoPhaseCoordinator \<Rightarrow> nat" where
  "dist_active_count c = length (co_active c)"

text \<open>Recovery groups the log entries by transaction and state, then reads off what is undecided.\<close>

type_synonym txn_log = "(GlobalTxnId, (bytes, TwoPhaseLogEntry) omap) omap"

definition states_of :: "txn_log \<Rightarrow> GlobalTxnId \<Rightarrow> (bytes, TwoPhaseLogEntry) omap" where
  "states_of m i = (case om_lookup m i of None \<Rightarrow> [] | Some s \<Rightarrow> s)"

fun group_entries :: "node_env \<Rightarrow> (bytes \<times> bytes) list \<Rightarrow> txn_log \<Rightarrow> txn_log" where
  "group_entries x [] m = m"
| "group_entries x ((k, v) # kvs) m =
     (case from_json x v of
        None \<Rightarrow> group_entries x kvs m
      | Some en \<Rightarrow> group_entries x kvs (om_insert (le_txn en) (om_insert (le_state en) en (states_of m (le_txn en))) m))"

definition in_doubt :: "txn_log \<Rightarrow> (GlobalTxnId \<times> bytes \<times> u64 list) list" where
  "in_doubt m = List.map_filter (\<lambda>(i, s).
     case om_lookup s COMMIT of
       Some en \<Rightarrow> Some (i, COMMIT, le_participants en)
     | None \<Rightarrow> (case om_lookup s PREPARE of
         Some en \<Rightarrow> if om_lookup s ABORT = None then Some (i, PREPARE, le_participants en) else None
       | None \<Rightarrow> None)) m"

definition dist_recover ::
  "node_env \<Rightarrow> u64 \<Rightarrow> TwoPhaseCoordinator \<Rightarrow> (GlobalTxnId \<times> bytes \<times> u64 list) list result \<times> TwoPhaseCoordinator" where
  "dist_recover x secs c =
     (case db_scan (n_env x) secs (str ''__2PC_LOG__/'') (str ''__2PC_LOG__/~'') (get_seq (co_db c)) (co_db c) of
        (Inl f, db) \<Rightarrow> (Inl f, c\<lparr>co_db := db\<rparr>)
      | (Inr kvs, db) \<Rightarrow> (Inr (in_doubt (group_entries x kvs [])), c\<lparr>co_db := db\<rparr>))"

section \<open>The participant\<close>

definition participant_new :: "u64 \<Rightarrow> OmniKV \<Rightarrow> TwoPhaseParticipant" where
  "participant_new n db = \<lparr>pa_node = n, pa_db = db, prepared = []\<rparr>"

fun dist_batch :: "u64 \<Rightarrow> DistWrite list \<Rightarrow> WriteBatch \<Rightarrow> string + WriteBatch" where
  "dist_batch secs [] b = Inr b"
| "dist_batch secs (w # ws) b =
     (case w_value w of
        Some v \<Rightarrow>
          (case (if w_ttl w > 0 then set_with_ttl secs (w_key w) v (w_ttl w) b else batch_set secs (w_key w) v b) of
             Inl f \<Rightarrow> Inl (''Batch error: '' @ err_string f) | Inr b' \<Rightarrow> dist_batch secs ws b')
      | None \<Rightarrow>
          (case batch_delete (w_key w) b of
             Inl f \<Rightarrow> Inl (''Delete error: '' @ err_string f) | Inr b' \<Rightarrow> dist_batch secs ws b'))"

text \<open>The status record of a transaction on a participant; an error of \<^verbatim>\<open>set\<close> is ignored.\<close>

definition status_batch :: "u64 \<Rightarrow> GlobalTxnId \<Rightarrow> string \<Rightarrow> u64 \<Rightarrow> WriteBatch" where
  "status_batch secs i st n =
     (case batch_set secs (str ''__2PC_PREPARE__/'' @ dec (unat (fst i)) @ str ''_'' @ dec (unat (snd i)))
         (str st @ dec (unat n)) batch_new of Inl _ \<Rightarrow> batch_new | Inr b \<Rightarrow> b)"

definition pa_prepare ::
  "node_env \<Rightarrow> commit_io \<Rightarrow> u64 \<Rightarrow> nat \<Rightarrow> GlobalTxnId \<Rightarrow> DistWrite list \<Rightarrow> TwoPhaseParticipant \<Rightarrow>
   PrepareResult \<times> TwoPhaseParticipant" where
  "pa_prepare x io secs now i ws p =
     (case dist_batch secs ws batch_new of
        Inl m \<Rightarrow> (\<lparr>pr_node = pa_node p, pr_txn = i, pr_vote = Abort m, pr_seq = 0\<rparr>, p)
      | Inr b \<Rightarrow>
          (case commit_batch x io (status_batch secs i ''PREPARED:'' (pa_node p)) (pa_db p) of
             (Inr q, db) \<Rightarrow> (\<lparr>pr_node = pa_node p, pr_txn = i, pr_vote = Commit, pr_seq = q\<rparr>,
                p\<lparr>pa_db := db, prepared := om_insert i \<lparr>ps_batch = b, ps_seq = q, prepared_at = now\<rparr> (prepared p)\<rparr>)
           | (Inl f, db) \<Rightarrow> (\<lparr>pr_node = pa_node p, pr_txn = i, pr_vote = Abort (''WAL write failed: '' @ err_string f), pr_seq = 0\<rparr>,
                p\<lparr>pa_db := db\<rparr>)))"

definition pa_commit ::
  "node_env \<Rightarrow> commit_io \<Rightarrow> commit_io \<Rightarrow> u64 \<Rightarrow> GlobalTxnId \<Rightarrow> TwoPhaseParticipant \<Rightarrow> u64 result \<times> TwoPhaseParticipant" where
  "pa_commit x io io' secs i p =
     (case om_lookup (prepared p) i of
        None \<Rightarrow> (Inl (Err (IoError ''No prepared transaction'')), p)
      | Some s \<Rightarrow>
          let p1 = p\<lparr>prepared := om_remove i (prepared p)\<rparr> in
          (case commit_batch x io (ps_batch s) (pa_db p) of
             (Inl f, db) \<Rightarrow> (Inl f, p1\<lparr>pa_db := db\<rparr>)
           | (Inr q, db) \<Rightarrow>
               (Inr q, p1\<lparr>pa_db := snd (commit_batch x io' (status_batch secs i ''COMMITTED:'' (pa_node p)) db)\<rparr>)))"

definition pa_abort :: "node_env \<Rightarrow> commit_io \<Rightarrow> u64 \<Rightarrow> GlobalTxnId \<Rightarrow> TwoPhaseParticipant \<Rightarrow> unit result \<times> TwoPhaseParticipant" where
  "pa_abort x io secs i p =
     (Inr (), p\<lparr>prepared := om_remove i (prepared p),
        pa_db := snd (commit_batch x io (status_batch secs i ''ABORTED:'' (pa_node p)) (pa_db p))\<rparr>)"

definition prepared_count :: "TwoPhaseParticipant \<Rightarrow> nat" where
  "prepared_count p = length (prepared p)"

definition stale_prepared :: "nat \<Rightarrow> nat \<Rightarrow> TwoPhaseParticipant \<Rightarrow> GlobalTxnId list" where
  "stale_prepared now max_age p = map fst (filter (\<lambda>(_, s). now - prepared_at s > max_age) (prepared p))"

section \<open>The keys of the log\<close>

lemma dec_digits: "b \<in> set (dec n) \<Longrightarrow> 48 \<le> b \<and> b \<le> 57"
proof (induction n rule: dec.induct)
  case (1 n)
  have d: "48 \<le> (48 + word_of_nat m :: u8) \<and> (48 + word_of_nat m :: u8) \<le> 57" if "m < 10" for m :: nat
  proof -
    have "unat (48 + word_of_nat m :: u8) = 48 + m" using that by (simp add: unat_word_ariths unat_of_nat)
    then show ?thesis using that by (simp add: word_le_nat_alt)
  qed
  show ?case using 1 d [of n] d [of "n mod 10"] dec.simps [of n] by (auto split: if_splits)
qed

definition undec :: "bytes \<Rightarrow> nat" where
  "undec bs = foldl (\<lambda>a b. 10 * a + (unat b - 48)) 0 bs"

lemma undec_dec: "undec (dec n) = n"
proof (induction n rule: dec.induct)
  case (1 n)
  have "unat (48 + word_of_nat m :: u8) = 48 + m" if "m < 10" for m :: nat
    using that by (simp add: unat_word_ariths unat_of_nat)
  then show ?case using 1 by (subst dec.simps) (simp add: undec_def)
qed

lemma dec_inject [simp]: "dec m = dec n \<longleftrightarrow> m = n"
  using undec_dec by metis

lemma dec_nonempty [simp]: "dec n \<noteq> []"
  by (subst dec.simps) simp

lemma split_at: "c \<notin> set xs \<Longrightarrow> c \<notin> set xs' \<Longrightarrow> xs @ c # ys = xs' @ c # ys' \<longleftrightarrow> xs = xs' \<and> ys = ys'"
proof (induction xs arbitrary: xs')
  case Nil
  then show ?case by (cases xs') auto
next
  case (Cons x xs)
  then show ?case by (cases xs') auto
qed

lemma digits_free: "c < 48 \<or> 57 < c \<Longrightarrow> c \<notin> set (dec n)"
  using dec_digits [of c n] by (meson leD)

lemma log_key_inject: "log_key i st = log_key j st' \<longleftrightarrow> i = j \<and> st = st'"
proof -
  have f: "95 \<notin> set (dec n)" "47 \<notin> set (dec n)" for n by (rule digits_free, simp)+
  have "dec a @ 95 # dec b @ 47 # s = dec a' @ 95 # dec b' @ 47 # s' \<longleftrightarrow> a = a' \<and> b = b' \<and> s = s'" for a b a' b' s s'
    unfolding split_at [OF f(1) f(1)] split_at [OF f(2) f(2)] by simp
  then show ?thesis by (simp add: log_key_def prod_eq_iff word_unat_eq_iff)
qed

definition log_range :: "bytes \<Rightarrow> bool" where
  "log_range k \<longleftrightarrow> str ''__2PC_LOG__/'' \<le> k \<and> k \<le> str ''__2PC_LOG__/~''"

lemma log_key_range: "log_range (log_key i st)"
proof -
  obtain b bs where b: "dec (unat (fst i)) = b # bs" by (cases "dec (unat (fst i))") auto
  then have "b \<le> 57" using dec_digits [of b "unat (fst i)"] by simp
  then have "b < 126" by (rule order.strict_trans1) simp
  then show ?thesis by (simp add: log_range_def log_key_def b)
qed

section \<open>The log in the store\<close>

definition logged :: "node_env \<Rightarrow> OmniKV \<Rightarrow> GlobalTxnId \<Rightarrow> bytes \<Rightarrow> TwoPhaseLogEntry option" where
  "logged x db i st = Option.bind (contents (n_env x) db 0 (log_key i st)) (from_json x)"

text \<open>The range of the log holds entries under their own keys, for transactions of \<open>B\<close>, that never expire.\<close>

definition entry_ok :: "node_env \<Rightarrow> GlobalTxnId set \<Rightarrow> bytes \<Rightarrow> bytes option \<Rightarrow> bool" where
  "entry_ok x B k v \<longleftrightarrow> (case v of None \<Rightarrow> True | Some v \<Rightarrow>
     (case from_json x v of None \<Rightarrow> False | Some en \<Rightarrow> k = log_key (le_txn en) (le_state en) \<and> le_txn en \<in> B))"

definition log_ok :: "node_env \<Rightarrow> GlobalTxnId set \<Rightarrow> OmniKV \<Rightarrow> bool" where
  "log_ok x B db \<longleftrightarrow> store_ok (n_env x) db \<and>
     (\<forall>k secs. log_range k \<longrightarrow> contents (n_env x) db secs k = contents (n_env x) db 0 k) \<and>
     (\<forall>k. log_range k \<longrightarrow> entry_ok x B k (contents (n_env x) db 0 k))"

lemma log_okD:
  assumes "log_ok x B db"
  shows "store_ok (n_env x) db" "log_range k \<Longrightarrow> contents (n_env x) db secs k = contents (n_env x) db 0 k"
    "log_range k \<Longrightarrow> entry_ok x B k (contents (n_env x) db 0 k)"
  using assms unfolding log_ok_def by blast+

text \<open>The entry fits the store, and the codec reads it back.\<close>

definition loggable :: "node_env \<Rightarrow> u64 \<Rightarrow> GlobalTxnId \<Rightarrow> bytes \<Rightarrow> u64 list \<Rightarrow> OmniKV \<Rightarrow> bool" where
  "loggable x secs i st ps db \<longleftrightarrow> (\<forall>v. to_json x (log_entry secs i st ps) = Some v \<longrightarrow>
     from_json x v = Some (log_entry secs i st ps) \<and> accepts (n_env x) (set_tx (log_key i st) v) db)"

definition log_put :: "bool \<Rightarrow> GlobalTxnId \<Rightarrow> bytes \<Rightarrow> TwoPhaseLogEntry \<Rightarrow>
    (GlobalTxnId \<Rightarrow> bytes \<Rightarrow> TwoPhaseLogEntry option) \<Rightarrow> GlobalTxnId \<Rightarrow> bytes \<Rightarrow> TwoPhaseLogEntry option" where
  "log_put ok i st en L j st' = (if ok \<and> j = i \<and> st' = st then Some en else L j st')"

lemma log_state_spec:
  assumes "n_gateway x = None" and "log_ok x B db" and "i \<in> B" and "loggable x secs i st ps db"
    and "log_state x io secs i st ps db = (r, db')"
  shows "log_ok x B db' \<and> logged x db' = log_put (r = Inr ()) i st (log_entry secs i st ps) (logged x db)"
proof (cases "\<exists>f. r = Inl f \<and> db' = db")
  case True
  then show ?thesis using assms(2) by (auto simp: log_put_def fun_eq_iff)
next
  case False
  then obtain v where v: "to_json x (log_entry secs i st ps) = Some v"
    using assms(5) by (auto simp: log_state_def split: option.splits)
  then have acc: "accepts (n_env x) (set_tx (log_key i st) v) db" and codec: "from_json x v = Some (log_entry secs i st ps)"
    using assms(4) by (auto simp: loggable_def)
  then have "length v \<le> MAX_VALUE_SIZE" by (auto simp: accepts_def tx_ok_def set_tx_def value_ok_def)
  note b = batch_set_put [OF this]
  obtain r' where c: "commit_batch_local (n_env x) io (set_tx (log_key i st) v) db = (r', db')" and r: "r = Inr () \<longleftrightarrow> r' \<in> range Inr"
    using assms(1,5) by (auto simp: log_state_def v b commit_batch_def split: prod.splits sum.splits)
  have ok: "store_ok (n_env x) db" using assms(2) by (simp add: log_ok_def)
  have con: "contents (n_env x) db' now k = (if r = Inr () \<and> k = log_key i st then Some v else contents (n_env x) db now k)" for now k
    using kv.commit_put [OF ok acc c] r by simp
  have en: "entry_ok x B (log_key i st) (Some v)" using codec assms(3) by (simp add: entry_ok_def log_entry_def)
  have "log_ok x B db'"
    unfolding log_ok_def
  proof (intro conjI allI impI)
    show "store_ok (n_env x) db'" by (rule kv.commit_inv [OF ok acc c])
    show "contents (n_env x) db' secs k = contents (n_env x) db' 0 k" if "log_range k" for secs k
      using log_okD(2) [OF assms(2) that, of secs] by (simp add: con)
    show "entry_ok x B k (contents (n_env x) db' 0 k)" if "log_range k" for k
      using log_okD(3) [OF assms(2) that] en by (simp add: con)
  qed
  moreover have "logged x db' j s = log_put (r = Inr ()) i st (log_entry secs i st ps) (logged x db) j s" for j s
    by (auto simp: logged_def con log_put_def log_key_inject codec)
  ultimately show ?thesis by blast
qed

lemma log_other_commit:
  assumes "log_ok x B db" and "accepts (n_env x) b db" and "commit_batch_local (n_env x) io b db = (r, db')"
    and "\<forall>k \<in> batch_keys b. \<not> log_range k"
  shows "log_ok x B db' \<and> logged x db' = logged x db"
proof -
  have ok: "store_ok (n_env x) db" using assms(1) by (simp add: log_ok_def)
  have same: "contents (n_env x) db' now k = contents (n_env x) db now k" if "log_range k" for now k
    using kv.commit_untouched [OF ok assms(2,3)] assms(4) that by blast
  then have "logged x db' = logged x db" by (simp add: fun_eq_iff logged_def log_key_range)
  moreover have "log_ok x B db'"
    unfolding log_ok_def
  proof (intro conjI allI impI)
    show "store_ok (n_env x) db'" by (rule kv.commit_inv [OF ok assms(2,3)])
    show "contents (n_env x) db' secs k = contents (n_env x) db' 0 k" if "log_range k" for secs k
      using log_okD(2) [OF assms(1) that, of secs] by (simp only: same [OF that])
    show "entry_ok x B k (contents (n_env x) db' 0 k)" if "log_range k" for k
      using log_okD(3) [OF assms(1) that] by (simp only: same [OF that])
  qed
  ultimately show ?thesis by blast
qed

lemma log_ok_mono: "log_ok x B db \<Longrightarrow> B \<subseteq> B' \<Longrightarrow> log_ok x B' db"
proof -
  assume a: "log_ok x B db" "B \<subseteq> B'"
  have "entry_ok x B' k v" if "entry_ok x B k v" for k v
    using that a(2) by (auto simp: entry_ok_def split: option.splits)
  then show ?thesis using a(1) unfolding log_ok_def by blast
qed

lemma logged_begun:
  assumes "log_ok x B db" and "logged x db i st = Some en"
  shows "i \<in> B" "le_txn en = i" "le_state en = st"
  using log_okD(3) [OF assms(1) log_key_range [of i st]] assms(2)
  by (auto simp: logged_def entry_ok_def log_key_inject split: option.splits bind_splits)

section \<open>Reading the log back\<close>

definition entries_of :: "node_env \<Rightarrow> (bytes \<times> bytes) list \<Rightarrow> TwoPhaseLogEntry list" where
  "entries_of x kvs = List.map_filter (\<lambda>(_, v). from_json x v) kvs"

definition txn_log_ok :: "txn_log \<Rightarrow> bool" where
  "txn_log_ok m \<longleftrightarrow> om_wf m \<and> (\<forall>(i, s) \<in> set m. om_wf s)"

lemma states_of_wf: "txn_log_ok m \<Longrightarrow> om_wf (states_of m i)"
  by (auto simp: states_of_def txn_log_ok_def om_lookup_Some split: option.split)

lemma group_entries_lookup:
  assumes "txn_log_ok m"
  shows "txn_log_ok (group_entries x kvs m) \<and>
    om_lookup (states_of (group_entries x kvs m) i) st =
      (case filter (\<lambda>en. le_txn en = i \<and> le_state en = st) (rev (entries_of x kvs)) of
         [] \<Rightarrow> om_lookup (states_of m i) st | en # _ \<Rightarrow> Some en)"
  using assms
proof (induction x kvs m rule: group_entries.induct)
  case (1 x m)
  then show ?case by (simp add: entries_of_def)
next
  case (2 x k v kvs m)
  show ?case
  proof (cases "from_json x v")
    case None
    then show ?thesis using 2 by (simp add: entries_of_def)
  next
    case (Some en)
    let ?m = "om_insert (le_txn en) (om_insert (le_state en) en (states_of m (le_txn en))) m"
    have wf: "om_wf (states_of m (le_txn en))" "om_wf m" using states_of_wf 2(3) by (auto simp: txn_log_ok_def)
    then have "txn_log_ok ?m"
      using 2(3) by (auto simp: txn_log_ok_def set_om_insert om_wf_insert)
    moreover have "om_lookup (states_of ?m i) st = (if le_txn en = i \<and> le_state en = st then Some en else om_lookup (states_of m i) st)"
      using wf by (auto simp: states_of_def om_lookup_insert)
    ultimately show ?thesis using 2(2) [OF Some] Some by (auto simp: entries_of_def split: list.split)
  qed
qed

text \<open>What recovery reports of a transaction whose entries are \<open>f\<close>.\<close>

definition verdict :: "(bytes \<Rightarrow> TwoPhaseLogEntry option) \<Rightarrow> (bytes \<times> u64 list) option" where
  "verdict f = (case f COMMIT of
       Some en \<Rightarrow> Some (COMMIT, le_participants en)
     | None \<Rightarrow> (case f PREPARE of
         Some en \<Rightarrow> if f ABORT = None then Some (PREPARE, le_participants en) else None
       | None \<Rightarrow> None))"

lemma in_doubt_iff:
  assumes "om_wf m"
  shows "(i, st, ps) \<in> set (in_doubt m) \<longleftrightarrow> verdict (om_lookup (states_of m i)) = Some (st, ps)"
proof -
  have "in_doubt m = List.map_filter (\<lambda>(i, s). map_option (Pair i) (verdict (om_lookup s))) m"
    unfolding in_doubt_def verdict_def by (rule arg_cong [of _ _ "\<lambda>f. List.map_filter f m"]) (auto simp: fun_eq_iff split: option.split)
  then have "(i, st, ps) \<in> set (in_doubt m) \<longleftrightarrow> (\<exists>s. om_lookup m i = Some s \<and> verdict (om_lookup s) = Some (st, ps))"
    unfolding om_lookup_Some [OF assms] by (force simp: set_map_filter_iff)
  moreover have "verdict (om_lookup []) = None" by (simp add: verdict_def om_lookup_def)
  ultimately show ?thesis by (cases "om_lookup m i") (simp_all add: states_of_def)
qed

text \<open>The entries of a scan of the log's range are the logged ones.\<close>

lemma entries_logged:
  assumes "log_ok x B db" and mem: "\<And>k v. (k, v) \<in> set kvs \<longleftrightarrow> log_range k \<and> contents (n_env x) db 0 k = Some v"
  shows "en \<in> set (entries_of x kvs) \<longleftrightarrow> logged x db (le_txn en) (le_state en) = Some en"
proof -
  let ?e = "n_env x"
  have "en \<in> set (entries_of x kvs) \<longleftrightarrow> (\<exists>k v. (k, v) \<in> set kvs \<and> from_json x v = Some en)"
    by (force simp: entries_of_def set_map_filter_iff)
  also have "\<dots> \<longleftrightarrow> (\<exists>k v. log_range k \<and> contents ?e db 0 k = Some v \<and> from_json x v = Some en)"
    by (simp add: mem)
  also have "\<dots> \<longleftrightarrow> logged x db (le_txn en) (le_state en) = Some en"
  proof
    assume "\<exists>k v. log_range k \<and> contents ?e db 0 k = Some v \<and> from_json x v = Some en"
    then obtain k v where k: "log_range k" "contents ?e db 0 k = Some v" "from_json x v = Some en" by blast
    then have "k = log_key (le_txn en) (le_state en)" using log_okD(3) [OF assms(1) k(1)] by (simp add: entry_ok_def)
    then show "logged x db (le_txn en) (le_state en) = Some en" using k by (simp add: logged_def)
  next
    assume "logged x db (le_txn en) (le_state en) = Some en"
    then obtain v where "contents ?e db 0 (log_key (le_txn en) (le_state en)) = Some v" "from_json x v = Some en"
      by (auto simp: logged_def bind_eq_Some_conv)
    then show "\<exists>k v. log_range k \<and> contents ?e db 0 k = Some v \<and> from_json x v = Some en" using log_key_range by blast
  qed
  finally show ?thesis .
qed

lemma grouped_logged:
  assumes "log_ok x B db" and "\<And>k v. (k, v) \<in> set kvs \<longleftrightarrow> log_range k \<and> contents (n_env x) db 0 k = Some v"
  shows "om_lookup (states_of (group_entries x kvs []) i) st = logged x db i st"
proof -
  let ?es = "filter (\<lambda>en. le_txn en = i \<and> le_state en = st) (rev (entries_of x kvs))"
  have "txn_log_ok []" by (simp add: txn_log_ok_def)
  note g = group_entries_lookup [OF this, of x kvs i st, THEN conjunct2]
  have sel: "en \<in> set ?es \<longleftrightarrow> logged x db i st = Some en" for en
    using entries_logged [OF assms, of en] logged_begun [OF assms(1), of i st en] by auto
  show ?thesis
  proof (cases ?es)
    case Nil
    then have "logged x db i st = None" using sel by (metis list.set(1) empty_iff not_Some_eq)
    then show ?thesis using g Nil by (simp add: states_of_def om_lookup_def)
  next
    case (Cons e es)
    have "logged x db i st = Some e" unfolding sel [symmetric] Cons by simp
    then show ?thesis using g Cons by simp
  qed
qed

lemma recover_spec:
  assumes "log_ok x B (co_db c)"
  shows "\<exists>r c'. dist_recover x secs c = (Inr r, c') \<and>
    (\<forall>i st ps. (i, st, ps) \<in> set r \<longleftrightarrow> verdict (logged x (co_db c) i) = Some (st, ps))"
proof -
  let ?e = "n_env x" let ?db = "co_db c"
  obtain kvs db' where s: "db_scan ?e secs (str ''__2PC_LOG__/'') (str ''__2PC_LOG__/~'') (get_seq ?db) ?db = (Inr kvs, db')"
    and scanned: "\<forall>k v. (k, v) \<in> set kvs \<longleftrightarrow> str ''__2PC_LOG__/'' \<le> k \<and> k \<le> str ''__2PC_LOG__/~'' \<and> contents ?e ?db secs k = Some v"
    using scan_store [OF log_okD(1) [OF assms], of secs "str ''__2PC_LOG__/''" "str ''__2PC_LOG__/~''"] by blast
  have mem: "(k, v) \<in> set kvs \<longleftrightarrow> log_range k \<and> contents ?e ?db 0 k = Some v" for k v
    using scanned log_okD(2) [OF assms, of k secs] unfolding log_range_def by metis
  let ?m = "group_entries x kvs []"
  have "om_wf ?m" using group_entries_lookup [of "[]" x kvs] by (simp add: txn_log_ok_def)
  moreover have "om_lookup (states_of ?m i) = logged x ?db i" for i using grouped_logged [OF assms mem] by blast
  ultimately have "(i, st, ps) \<in> set (in_doubt ?m) \<longleftrightarrow> verdict (logged x ?db i) = Some (st, ps)" for i st ps
    by (simp add: in_doubt_iff)
  moreover have "dist_recover x secs c = (Inr (in_doubt ?m), c\<lparr>co_db := db'\<rparr>)" unfolding dist_recover_def s by simp
  ultimately show ?thesis by blast
qed

end
