(* ===== verification/Dist_Agree.thy ===== *)
theory Dist_Agree
  imports Dist_Txn
begin

text \<open>
  Agreement of two-phase commit over any run of a coordinator and its participants: no transaction is
  applied on one node and discarded on another, an applied transaction was voted for by every
  participant, and the log read back after a crash tells the two apart. The last lemmas show where
  the implementation falls short: transaction numbers start over after a restart, so the log of an old
  transaction speaks for a new one, an abort after the decision to commit goes through, and a
  participant forgets a prepared batch when its commit fails.
\<close>

section \<open>Runs of the protocol\<close>

text \<open>A coordinator, its participants and the votes they sent. The driver of the protocol remembers
  which transactions it may commit (\<open>decided\<close>) and which it gave up, and \<open>applied\<close> and \<open>dropped\<close>
  record what was done on which node. Votes can be delivered late, repeatedly or never; every store
  operation can fail. A driver aborts only what it has not been told to commit.\<close>

record cluster =
  coord :: TwoPhaseCoordinator
  node :: "u64 \<Rightarrow> TwoPhaseParticipant"
  sent :: "PrepareResult list"
  decided :: "GlobalTxnId set"
  given_up :: "GlobalTxnId set"
  applied :: "(u64 \<times> GlobalTxnId) set"
  dropped :: "(u64 \<times> GlobalTxnId) set"

definition all_loggable :: "node_env \<Rightarrow> u64 \<Rightarrow> GlobalTxnId \<Rightarrow> TwoPhaseCoordinator \<Rightarrow> bool" where
  "all_loggable x secs i c \<longleftrightarrow> (case om_lookup (co_active c) i of None \<Rightarrow> True | Some t \<Rightarrow>
     loggable x secs i PREPARE (participants t) (co_db c) \<and> loggable x secs i COMMIT (participants t) (co_db c) \<and>
     loggable x secs i ABORT (participants t) (co_db c))"

inductive dist_run :: "node_env \<Rightarrow> cluster \<Rightarrow> cluster \<Rightarrow> bool" for x S0 where
  d_start: "dist_run x S0 S0"
| d_begin: "dist_run x S0 S \<Longrightarrow> next_seq (coord S) < - 1 \<Longrightarrow> dist_begin secs (coord S) = (i, c) \<Longrightarrow> dist_run x S0 (S\<lparr>coord := c\<rparr>)"
| d_write: "dist_run x S0 S \<Longrightarrow> add_write i n k v ttl (coord S) = (r, c) \<Longrightarrow> dist_run x S0 (S\<lparr>coord := c\<rparr>)"
| d_prepare: "dist_run x S0 S \<Longrightarrow> all_loggable x secs i (coord S) \<Longrightarrow> dist_prepare x io secs i (coord S) = (r, c) \<Longrightarrow>
    dist_run x S0 (S\<lparr>coord := c\<rparr>)"
| d_vote_sent: "dist_run x S0 S \<Longrightarrow> get_state i (coord S) = Some WaitingForVotes \<Longrightarrow>
    get_participant_writes i n (coord S) = Some ws \<Longrightarrow> pa_prepare x io secs now i ws (node S n) = (r, p) \<Longrightarrow>
    dist_run x S0 (S\<lparr>node := (node S)(n := p), sent := sent S @ [r]\<rparr>)"
| d_vote: "dist_run x S0 S \<Longrightarrow> r \<in> set (sent S) \<Longrightarrow> i = pr_txn r \<Longrightarrow> all_loggable x secs i (coord S) \<Longrightarrow>
    receive_vote x io secs i r (coord S) = (res, c) \<Longrightarrow>
    dist_run x S0 (S\<lparr>coord := c, decided := (if res = Inr Committing then insert i (decided S) else decided S),
       given_up := (if (\<exists>f. res = Inl f) \<and> i \<notin> decided S then insert i (given_up S) else given_up S)\<rparr>)"
| d_abort: "dist_run x S0 S \<Longrightarrow> i \<notin> decided S \<Longrightarrow> get_state i (coord S) \<noteq> None \<Longrightarrow> all_loggable x secs i (coord S) \<Longrightarrow>
    dist_abort x io secs i (coord S) = (res, c) \<Longrightarrow> dist_run x S0 (S\<lparr>coord := c, given_up := insert i (given_up S)\<rparr>)"
| d_commit: "dist_run x S0 S \<Longrightarrow> i \<in> decided S \<Longrightarrow> pa_commit x io io' secs i (node S n) = (q, p) \<Longrightarrow>
    dist_run x S0 (S\<lparr>node := (node S)(n := p), applied := (if q \<in> range Inr then insert (n, i) (applied S) else applied S)\<rparr>)"
| d_drop: "dist_run x S0 S \<Longrightarrow> i \<in> given_up S \<Longrightarrow> pa_abort x io secs i (node S n) = (u, p) \<Longrightarrow>
    dist_run x S0 (S\<lparr>node := (node S)(n := p), dropped := insert (n, i) (dropped S)\<rparr>)"
| d_finalize: "dist_run x S0 S \<Longrightarrow> i \<in> decided S \<Longrightarrow> dist_run x S0 (S\<lparr>coord := finalize_commit i (coord S)\<rparr>)"
| d_other: "dist_run x S0 S \<Longrightarrow> accepts (n_env x) b (co_db (coord S)) \<Longrightarrow> \<forall>k \<in> batch_keys b. \<not> log_range k \<Longrightarrow>
    commit_batch_local (n_env x) io b (co_db (coord S)) = (q, db) \<Longrightarrow> dist_run x S0 (S\<lparr>coord := (coord S)\<lparr>co_db := db\<rparr>\<rparr>)"

section \<open>Agreement\<close>

text \<open>The invariant over what matters of a cluster: the active transactions, the log, the started
  transactions \<open>B\<close>, the decided and given up ones \<open>D\<close> and \<open>G\<close>, the votes \<open>V\<close> and the prepared
  batches \<open>P\<close>.\<close>

definition cast :: "PrepareResult set \<Rightarrow> GlobalTxnId \<Rightarrow> u64 \<Rightarrow> Vote \<Rightarrow> bool" where
  "cast V i n v \<longleftrightarrow> (\<exists>r \<in> V. pr_node r = n \<and> pr_txn r = i \<and> pr_vote r = v)"

definition invited :: "(GlobalTxnId \<Rightarrow> bytes \<Rightarrow> TwoPhaseLogEntry option) \<Rightarrow> GlobalTxnId \<Rightarrow> u64 set" where
  "invited L i = (case L i PREPARE of None \<Rightarrow> {} | Some en \<Rightarrow> set (le_participants en))"

definition txn_ok where
  "txn_ok L B D G V i t \<longleftrightarrow> i \<in> B \<and> (\<forall>(n, v) \<in> set (votes t). cast V i n v) \<and>
     (dt_state t = Preparing \<longrightarrow> L i PREPARE = None \<and> i \<notin> D \<union> G) \<and>
     (dt_state t = WaitingForVotes \<longrightarrow> i \<notin> D \<union> G \<and> L i PREPARE \<noteq> None \<and> invited L i = set (participants t))"

definition decision_ok where
  "decision_ok L B G V i \<longleftrightarrow> i \<in> B \<and> i \<notin> G \<and>
     (\<exists>en. L i COMMIT = Some en \<and> set (le_participants en) = invited L i \<and> (\<forall>n \<in> invited L i. cast V i n Commit))"

definition agree where
  "agree act L B D G V P \<longleftrightarrow>
     (\<forall>i t. act i = Some t \<longrightarrow> txn_ok L B D G V i t) \<and> (\<forall>i \<in> D. decision_ok L B G V i) \<and>
     (\<forall>i. L i COMMIT \<noteq> None \<longrightarrow> i \<in> D) \<and> (\<forall>i. L i PREPARE \<noteq> None \<longrightarrow> i \<in> B) \<and> G \<subseteq> B \<and>
     (\<forall>r \<in> V. L (pr_txn r) PREPARE \<noteq> None) \<and> (\<forall>(n, i) \<in> P. n \<in> invited L i)"

lemma agreeD:
  assumes "agree act L B D G V P"
  shows "act i = Some t \<Longrightarrow> txn_ok L B D G V i t" "i \<in> D \<Longrightarrow> decision_ok L B G V i" "L i COMMIT \<noteq> None \<Longrightarrow> i \<in> D"
    "L i PREPARE \<noteq> None \<Longrightarrow> i \<in> B" "G \<subseteq> B" "r \<in> V \<Longrightarrow> L (pr_txn r) PREPARE \<noteq> None" "(n, i) \<in> P \<Longrightarrow> n \<in> invited L i"
  using assms unfolding agree_def by blast+

lemma agree_begin:
  assumes "agree act L B D G V P" and "i \<notin> B" and "votes t = []" and "dt_state t = Preparing"
  shows "agree (act(i \<mapsto> t)) L (insert i B) D G V P"
proof -
  have "L i PREPARE = None" using agreeD(4) [OF assms(1), of i] assms(2) by blast
  moreover have "i \<notin> D" "i \<notin> G" using agreeD(2) [OF assms(1), of i] agreeD(5) [OF assms(1)] assms(2) by (auto simp: decision_ok_def)
  ultimately show ?thesis using assms unfolding agree_def txn_ok_def decision_ok_def by auto
qed

lemma agree_change:
  assumes "agree act L B D G V P" and "act i = Some t" and "txn_ok L B D G V i t'"
  shows "agree (act(i \<mapsto> t')) L B D G V P"
  using assms unfolding agree_def by simp

lemma agree_remove: "agree act L B D G V P \<Longrightarrow> agree (act(i := None)) L B D G V P"
  unfolding agree_def by simp

lemma agree_prepared:
  assumes "agree act L B D G V P" and "act i = Some t" and "dt_state t = Preparing" and "set (le_participants en) = set (participants t)"
  shows "agree (act(i \<mapsto> t\<lparr>dt_state := WaitingForVotes\<rparr>)) (log_put True i PREPARE en L) B D G V P"
proof -
  let ?L = "log_put True i PREPARE en L"
  note t = agreeD(1) [OF assms(1,2)]
  have none: "L i PREPARE = None" "i \<notin> D" "i \<notin> G" "i \<in> B" using t assms(3) by (auto simp: txn_ok_def)
  have L: "?L j COMMIT = L j COMMIT" "j \<noteq> i \<Longrightarrow> ?L j PREPARE = L j PREPARE" "?L i PREPARE = Some en" for j by (simp_all add: log_put_def)
  then have inv: "invited ?L j = (if j = i then set (participants t) else invited L j)" for j using assms(4) by (simp add: invited_def)
  have "txn_ok ?L B D G V j u" if "(act(i \<mapsto> t\<lparr>dt_state := WaitingForVotes\<rparr>)) j = Some u" for j u
    using that t agreeD(1) [OF assms(1), of j u] none
    by (auto simp: txn_ok_def inv L participants_def split: if_splits)
  moreover have "decision_ok ?L B G V j" if "j \<in> D" for j
    using agreeD(2) [OF assms(1) that] that none by (auto simp: decision_ok_def inv L)
  moreover have "n \<in> invited ?L j" if "(n, j) \<in> P" for n j
  proof -
    have "j \<noteq> i" using agreeD(7) [OF assms(1) that] none by (auto simp: invited_def)
    then show ?thesis using agreeD(7) [OF assms(1) that] by (simp add: inv)
  qed
  moreover have "?L j PREPARE \<noteq> None \<Longrightarrow> j \<in> B" for j using agreeD(4) [OF assms(1), of j] none by (auto simp: log_put_def split: if_splits)
  moreover have "?L (pr_txn r) PREPARE \<noteq> None" if "r \<in> V" for r using agreeD(6) [OF assms(1) that] by (auto simp: log_put_def)
  ultimately show ?thesis using agreeD(3,5) [OF assms(1)] unfolding agree_def by (auto simp: L)
qed

lemma agree_sent:
  assumes "agree act L B D G V P" and "act i = Some t" and "dt_state t = WaitingForVotes" and "n \<in> set (participants t)" and "pr_txn r = i"
  shows "agree act L B D G (insert r V) (insert (n, i) P)"
proof -
  have t: "L i PREPARE \<noteq> None" "invited L i = set (participants t)" using agreeD(1) [OF assms(1,2)] assms(3) by (auto simp: txn_ok_def)
  have c: "cast V j m v \<Longrightarrow> cast (insert r V) j m v" for j m v by (auto simp: cast_def)
  have "txn_ok L B D G (insert r V) j u" if "act j = Some u" for j u
    using agreeD(1) [OF assms(1) that] c unfolding txn_ok_def by blast
  moreover have "decision_ok L B G (insert r V) j" if "j \<in> D" for j
    using agreeD(2) [OF assms(1) that] c unfolding decision_ok_def by blast
  ultimately show ?thesis using assms t unfolding agree_def by auto
qed

lemma agree_less: "agree act L B D G V P \<Longrightarrow> P' \<subseteq> P \<Longrightarrow> agree act L B D G V P'"
  unfolding agree_def by blast

lemma agree_log:
  assumes "agree act L B D G V P" and "\<And>j. L' j COMMIT = L j COMMIT" and "\<And>j. L' j PREPARE = L j PREPARE"
  shows "agree act L' B D G V P"
proof -
  have "invited L' j = invited L j" for j using assms(3) by (simp add: invited_def)
  then show ?thesis using assms unfolding agree_def txn_ok_def decision_ok_def by simp
qed

lemma agree_give_up:
  assumes "agree act L B D G V P" and "i \<in> B" and "i \<notin> D"
    and "\<And>t. act i = Some t \<Longrightarrow> dt_state t \<notin> {Preparing, WaitingForVotes}"
  shows "agree act L B D (insert i G) V P"
proof -
  have "txn_ok L B D (insert i G) V j u" if "act j = Some u" for j u
    using agreeD(1) [OF assms(1) that] assms(4) [of u] that by (cases "j = i") (auto simp: txn_ok_def)
  moreover have "decision_ok L B (insert i G) V j" if "j \<in> D" for j
    using agreeD(2) [OF assms(1) that] assms(3) that by (auto simp: decision_ok_def)
  ultimately show ?thesis using assms(1,2) unfolding agree_def by simp
qed

lemma agree_decide:
  assumes "agree act L B D G V P" and "act i = Some t" and "dt_state t = WaitingForVotes"
    and "set (le_participants en) = set (participants t)" and "\<And>n. n \<in> set (participants t) \<Longrightarrow> cast V i n Commit"
    and "dt_state t' = Committing" and "\<And>n v. (n, v) \<in> set (votes t') \<Longrightarrow> cast V i n v"
  shows "agree (act(i \<mapsto> t')) (log_put True i COMMIT en L) B (insert i D) G V P"
proof -
  let ?L = "log_put True i COMMIT en L"
  have t: "i \<in> B" "i \<notin> G" "invited L i = set (participants t)" using agreeD(1) [OF assms(1,2)] assms(3) by (auto simp: txn_ok_def)
  have L: "?L j PREPARE = L j PREPARE" "j \<noteq> i \<Longrightarrow> ?L j COMMIT = L j COMMIT" "?L i COMMIT = Some en" for j by (simp_all add: log_put_def)
  have inv: "invited ?L j = invited L j" for j by (simp add: invited_def L)
  have "txn_ok ?L B (insert i D) G V j u" if "(act(i \<mapsto> t')) j = Some u" for j u
    using that agreeD(1) [OF assms(1), of j u] t assms(6,7) by (auto simp: txn_ok_def inv L split: if_splits)
  moreover have "decision_ok ?L B G V j" if "j \<in> insert i D" for j
    using agreeD(2) [OF assms(1), of j] that t assms(4,5) by (cases "j = i") (auto simp: decision_ok_def inv L)
  moreover have "j \<in> insert i D" if "?L j COMMIT \<noteq> None" for j
    using agreeD(3) [OF assms(1), of j] that by (cases "j = i") (simp_all add: L)
  ultimately show ?thesis using agreeD(4-7) [OF assms(1)] unfolding agree_def by (auto simp: L inv)
qed

section \<open>The coordinator keeps the invariant\<close>

definition begun :: "TwoPhaseCoordinator \<Rightarrow> GlobalTxnId set" where
  "begun c = {i. fst i = co_node c \<and> snd i < next_seq c}"

definition co_inv where
  "co_inv x c D G V P \<longleftrightarrow> om_wf (co_active c) \<and> log_ok x (begun c) (co_db c) \<and>
     agree (om_lookup (co_active c)) (logged x (co_db c)) (begun c) D G V P"

lemma lookup_insert_fun: "om_wf m \<Longrightarrow> om_lookup (om_insert k v m) = (om_lookup m)(k \<mapsto> v)"
  by (auto simp: om_lookup_insert fun_eq_iff)

lemma lookup_remove_fun: "om_lookup (om_remove k m) = (om_lookup m)(k := None)"
  by (auto simp: om_lookup_remove fun_eq_iff)

lemma put_txn_simps [simp]:
  "co_db (put_txn i t c) = co_db c" "begun (put_txn i t c) = begun c" "co_active (put_txn i t c) = om_insert i t (co_active c)"
  by (simp_all add: put_txn_def begun_def)

lemma begun_db [simp]: "begun (c\<lparr>co_db := db\<rparr>) = begun c" "begun (c\<lparr>co_db := db, co_active := a\<rparr>) = begun c"
  "begun (c\<lparr>co_active := a\<rparr>) = begun c"
  by (simp_all add: begun_def)

text \<open>Logging one state of an active transaction.\<close>

lemma co_log:
  assumes "co_inv x c D G V P" and "n_gateway x = None" and "all_loggable x secs i c" and "om_lookup (co_active c) i = Some t"
    and "st \<in> {PREPARE, COMMIT, ABORT}" and "log_state x io secs i st (participants t) (co_db c) = (r, db)"
  shows "om_wf (co_active c)" "log_ok x (begun c) db"
    "logged x db = log_put (r = Inr ()) i st (log_entry secs i st (participants t)) (logged x (co_db c))"
    "agree (om_lookup (co_active c)) (logged x (co_db c)) (begun c) D G V P"
proof -
  show inv: "om_wf (co_active c)" "agree (om_lookup (co_active c)) (logged x (co_db c)) (begun c) D G V P"
    using assms(1) by (simp_all add: co_inv_def)
  have "i \<in> begun c" using agreeD(1) [OF inv(2) assms(4)] by (simp add: txn_ok_def)
  moreover have "loggable x secs i st (participants t) (co_db c)" using assms(3-5) by (auto simp: all_loggable_def)
  ultimately show "log_ok x (begun c) db"
    "logged x db = log_put (r = Inr ()) i st (log_entry secs i st (participants t)) (logged x (co_db c))"
    using log_state_spec [OF assms(2) _ _ _ assms(6)] assms(1) unfolding co_inv_def by blast+
qed

lemma prepare_inv:
  assumes "co_inv x c D G V P" and "n_gateway x = None" and "all_loggable x secs i c" and "dist_prepare x io secs i c = (r, c')"
  shows "co_inv x c' D G V P"
proof (cases "om_lookup (co_active c) i")
  case None
  then show ?thesis using assms(1,4) by (simp add: dist_prepare_def)
next
  case (Some t)
  show ?thesis
  proof (cases "dt_state t = Preparing")
    case False
    then show ?thesis using assms(1,4) Some by (simp add: dist_prepare_def)
  next
    case True
    obtain q db where l: "log_state x io secs i PREPARE (participants t) (co_db c) = (q, db)" by force
    note co = co_log [OF assms(1-3) Some _ l, simplified]
    show ?thesis
    proof (cases q)
      case (Inl f)
      then have "logged x db = logged x (co_db c)" using co(3) by (simp add: log_put_def fun_eq_iff)
      then show ?thesis using assms(4) co by (simp add: dist_prepare_def Some True l Inl co_inv_def) auto
    next
      case (Inr u)
      then have "c' = put_txn i (t\<lparr>dt_state := WaitingForVotes\<rparr>) (c\<lparr>co_db := db\<rparr>)"
        using assms(4) by (simp add: dist_prepare_def Some True l)
      then show ?thesis
        using co Inr agree_prepared [OF co(4) Some True, of "log_entry secs i PREPARE (participants t)"]
        by (simp add: co_inv_def lookup_insert_fun om_wf_insert log_entry_def)
    qed
  qed
qed

lemma om_insert_set: "set (om_insert k v m) \<subseteq> insert (k, v) (set m)"
  by (induction k v m rule: om_insert.induct) (auto split: if_splits)

lemma om_insert_keys: "fst ` set (om_insert k v m) = insert k (fst ` set m)"
  by (induction k v m rule: om_insert.induct) auto

text \<open>A transaction that leaves the voting phase without a decision to commit is given up.\<close>

lemma co_give_up:
  assumes "om_wf (co_active c)" and "log_ok x (begun c) db"
    and "logged x db = log_put ok i ABORT en (logged x (co_db c)) \<or> logged x db = logged x (co_db c)"
    and "agree (om_lookup (co_active c)) (logged x (co_db c)) (begun c) D G V P" and "om_lookup (co_active c) i = Some t" and "i \<notin> D"
    and "dt_state t' \<notin> {Preparing, WaitingForVotes}" and "\<And>n v. (n, v) \<in> set (votes t') \<Longrightarrow> cast V i n v"
  shows "co_inv x (put_txn i t' (c\<lparr>co_db := db\<rparr>)) D (insert i G) V P"
    "co_inv x (c\<lparr>co_db := db, co_active := om_remove i (co_active c)\<rparr>) D (insert i G) V P"
proof -
  have b: "i \<in> begun c" using agreeD(1) [OF assms(4,5)] by (simp add: txn_ok_def)
  have "logged x db j COMMIT = logged x (co_db c) j COMMIT \<and> logged x db j PREPARE = logged x (co_db c) j PREPARE" for j
    using assms(3) by (auto simp: log_put_def)
  then have a: "agree (om_lookup (co_active c)) (logged x db) (begun c) D G V P" by (intro agree_log [OF assms(4)]) simp_all
  have "txn_ok (logged x db) (begun c) D G V i t'" using b assms(7,8) by (auto simp: txn_ok_def)
  from agree_give_up [OF agree_change [OF a assms(5) this] b assms(6)] assms(7)
  show "co_inv x (put_txn i t' (c\<lparr>co_db := db\<rparr>)) D (insert i G) V P"
    using assms(1,2) by (simp add: co_inv_def lookup_insert_fun om_wf_insert)
  from agree_give_up [OF agree_remove [OF a, of i] b assms(6)]
  show "co_inv x (c\<lparr>co_db := db, co_active := om_remove i (co_active c)\<rparr>) D (insert i G) V P"
    using assms(1,2) by (simp add: co_inv_def lookup_remove_fun om_wf_remove)
qed

lemma abort_inv:
  assumes "co_inv x c D G V P" and "n_gateway x = None" and "all_loggable x secs i c" and "i \<notin> D" and "get_state i c \<noteq> None"
    and "dist_abort x io secs i c = (r, c')"
  shows "co_inv x c' D (insert i G) V P"
proof -
  obtain t where t: "om_lookup (co_active c) i = Some t" using assms(5) by (auto simp: get_state_def)
  obtain q db where l: "log_state x io secs i ABORT (participants t) (co_db c) = (q, db)" by force
  note co = co_log [OF assms(1-3) t _ l, simplified]
  have v: "cast V i n v" if "(n, v) \<in> set (votes (t\<lparr>dt_state := Aborted\<rparr>))" for n v
    using agreeD(1) [OF co(4) t] that by (auto simp: txn_ok_def)
  have "dt_state (t\<lparr>dt_state := Aborted\<rparr>) \<notin> {Preparing, WaitingForVotes}" by simp
  note g = co_give_up [OF co(1,2) disjI1 [OF co(3)] co(4) t assms(4) this v]
  show ?thesis using assms(6) g by (auto simp: dist_abort_def t l split: sum.splits)
qed

text \<open>All votes are in: the coordinator logs a decision.\<close>

lemma votes_in:
  assumes inv: "co_inv x c D G V P" "n_gateway x = None" "all_loggable x secs i c"
    and t: "om_lookup (co_active c) i = Some t" "dt_state t = WaitingForVotes" and D: "i \<notin> D"
    and vs: "vs = om_insert (pr_node r) (pr_vote r) (votes t)" and all: "set (map fst vs) = set (participants t)"
    and cast: "\<And>n v. (n, v) \<in> set vs \<Longrightarrow> cast V i n v" and rv: "receive_vote x io secs i r c = (res, c')"
  shows "co_inv x c' (if res = Inr Committing then insert i D else D) (if (\<exists>f. res = Inl f) \<and> i \<notin> D then insert i G else G) V P"
proof (cases "\<forall>v \<in> set (map snd vs). v = Commit")
  case True
  obtain q db where l: "log_state x io secs i COMMIT (participants t) (co_db c) = (q, db)" by force
  note co = co_log [OF inv t(1) _ l, simplified]
  let ?t = "t\<lparr>votes := vs, dt_state := Committing\<rparr>"
  have c': "c' = put_txn i ?t (c\<lparr>co_db := db\<rparr>)" "res = (case q of Inl f \<Rightarrow> Inl f | Inr _ \<Rightarrow> Inr Committing)"
    using rv t all True by (auto simp: receive_vote_def l Let_def simp flip: vs split: sum.splits)
  show ?thesis
  proof (cases q)
    case (Inl f)
    then have "logged x db = logged x (co_db c)" using co(3) by (simp add: log_put_def fun_eq_iff)
    from co_give_up(1) [OF co(1,2) disjI2 [OF this] co(4) t(1) D, of ?t] cast
    show ?thesis using c' Inl D by simp
  next
    case (Inr u)
    have "cast V i n Commit" if n: "n \<in> set (participants t)" for n
    proof -
      obtain v where "(n, v) \<in> set vs" using n all by force
      then show ?thesis using cast [of n v] True by force
    qed
    from agree_decide [OF co(4) t _ this, of "log_entry secs i COMMIT (participants t)" ?t] cast
    show ?thesis using c' Inr co by (simp add: co_inv_def lookup_insert_fun om_wf_insert log_entry_def)
  qed
next
  case False
  obtain q db where l: "log_state x io secs i ABORT (participants t) (co_db c) = (q, db)" by force
  note co = co_log [OF inv t(1) _ l, simplified]
  let ?t = "t\<lparr>votes := vs, dt_state := Aborted\<rparr>"
  have ex: "(\<forall>v \<in> set vs. snd v = Commit) = False" using False by auto
  have "c' = put_txn i ?t (c\<lparr>co_db := db\<rparr>) \<and> (\<exists>f. res = Inl f)"
    using rv t all by (cases q) (auto simp: receive_vote_def l Let_def ex simp flip: vs)
  then show ?thesis using co_give_up(1) [OF co(1,2) disjI1 [OF co(3)] co(4) t(1) D, of ?t] cast D by auto
qed

lemma vote_inv:
  assumes "co_inv x c D G V P" and "n_gateway x = None" and "i = pr_txn r" and "all_loggable x secs i c" and "r \<in> V"
    and "receive_vote x io secs i r c = (res, c')"
  shows "co_inv x c' (if res = Inr Committing then insert i D else D) (if (\<exists>f. res = Inl f) \<and> i \<notin> D then insert i G else G) V P"
proof -
  let ?L = "logged x (co_db c)"
  have wf: "om_wf (co_active c)" and log: "log_ok x (begun c) (co_db c)" and a: "agree (om_lookup (co_active c)) ?L (begun c) D G V P"
    using assms(1) by (simp_all add: co_inv_def)
  have p: "?L i PREPARE \<noteq> None" "i \<in> begun c" using agreeD(4,6) [OF a] assms(3,5) by blast+
  show ?thesis
  proof (cases "\<exists>t. om_lookup (co_active c) i = Some t \<and> dt_state t = WaitingForVotes")
    case False
    then obtain f where f: "res = Inl f" "c' = c" using assms(6) by (auto simp: receive_vote_def split: option.splits)
    have "dt_state t \<notin> {Preparing, WaitingForVotes}" if "om_lookup (co_active c) i = Some t" for t
      using agreeD(1) [OF a that] False that p(1) by (auto simp: txn_ok_def)
    then have "co_inv x c D (insert i G) V P" if "i \<notin> D" using agree_give_up [OF a p(2) that] wf log by (simp add: co_inv_def)
    then show ?thesis using f assms(1) by simp
  next
    case True
    then obtain t where t: "om_lookup (co_active c) i = Some t" "dt_state t = WaitingForVotes" by blast
    note ok = agreeD(1) [OF a t(1)]
    have D: "i \<notin> D" using ok t(2) by (simp add: txn_ok_def)
    define vs where "vs = om_insert (pr_node r) (pr_vote r) (votes t)"
    have cast: "cast V i n v" if "(n, v) \<in> set vs" for n v
      using that om_insert_set [of "pr_node r" "pr_vote r" "votes t"] ok assms(3,5)
      by (auto simp: vs_def txn_ok_def cast_def)
    show ?thesis
    proof (cases "set (map fst vs) = set (participants t)")
      case False
      then have "res = Inr WaitingForVotes" "c' = put_txn i (t\<lparr>votes := vs\<rparr>) c"
        using assms(6) t by (simp_all add: receive_vote_def vs_def Let_def)
      moreover have "txn_ok ?L (begun c) D G V i (t\<lparr>votes := vs\<rparr>)"
        using ok cast by (auto simp: txn_ok_def participants_def)
      ultimately show ?thesis using agree_change [OF a t(1)] wf log by (simp add: co_inv_def lookup_insert_fun om_wf_insert)
    next
      case all: True
      show ?thesis by (rule votes_in [OF assms(1,2,4) t D vs_def all cast assms(6)])
    qed
  qed
qed

lemma begin_inv:
  assumes "co_inv x c D G V P" and "next_seq c < - 1" and "dist_begin secs c = (i, c')"
  shows "co_inv x c' D G V P"
proof -
  define t where "t = \<lparr>dt_id = i, dt_state = Preparing, writes_by_node = [], votes = [], created_at = secs, timeout_ms = default_timeout_ms c\<rparr>"
  have t: "votes t = []" "dt_state t = Preparing" "i = (co_node c, next_seq c)"
    "c' = c\<lparr>next_seq := next_seq c + 1, co_active := om_insert i t (co_active c)\<rparr>"
    using assms(3) by (auto simp: dist_begin_def Let_def t_def)
  have "1 + next_seq c \<noteq> 0"
  proof
    assume "1 + next_seq c = 0"
    then have "next_seq c = - 1" by (simp add: add_eq_0_iff)
    then show False using assms(2) by simp
  qed
  then have "unat (next_seq c + 1) = Suc (unat (next_seq c))" by (simp add: unatSuc add.commute)
  then have lt: "j < next_seq c + 1 \<longleftrightarrow> j < next_seq c \<or> j = next_seq c" for j
    unfolding word_less_nat_alt word_unat_eq_iff by (simp only: less_Suc_eq)
  have "j \<in> begun c' \<longleftrightarrow> j \<in> insert i (begun c)" for j
    unfolding begun_def t(3,4) by (simp add: lt prod_eq_iff) blast
  then have B: "begun c' = insert i (begun c)" by blast
  have new: "i \<notin> begun c" by (simp add: begun_def t(3))
  have c': "co_db c' = co_db c" "co_active c' = om_insert i t (co_active c)" by (simp_all add: t(4))
  have inv: "om_wf (co_active c)" "log_ok x (begun c) (co_db c)" "agree (om_lookup (co_active c)) (logged x (co_db c)) (begun c) D G V P"
    using assms(1) by (simp_all add: co_inv_def)
  show ?thesis
    unfolding co_inv_def B c' lookup_insert_fun [OF inv(1)]
    using om_wf_insert [OF inv(1)] log_ok_mono [OF inv(2)] agree_begin [OF inv(3) new t(1,2)] by blast
qed

lemma write_inv:
  assumes "co_inv x c D G V P" and "add_write i n k v ttl c = (r, c')"
  shows "co_inv x c' D G V P"
proof (cases "\<exists>t. om_lookup (co_active c) i = Some t \<and> dt_state t = Preparing")
  case False
  then show ?thesis using assms by (auto simp: add_write_def split: option.splits)
next
  case True
  then obtain t ws where t: "om_lookup (co_active c) i = Some t" "dt_state t = Preparing" "c' = put_txn i (t\<lparr>writes_by_node := ws\<rparr>) c"
    using assms(2) by (auto simp: add_write_def Let_def)
  have a: "agree (om_lookup (co_active c)) (logged x (co_db c)) (begun c) D G V P" using assms(1) by (simp add: co_inv_def)
  have "txn_ok (logged x (co_db c)) (begun c) D G V i (t\<lparr>writes_by_node := ws\<rparr>)"
    using agreeD(1) [OF a t(1)] t(2) by (auto simp: txn_ok_def)
  from agree_change [OF a t(1) this] show ?thesis using assms(1) by (simp add: co_inv_def t(3) lookup_insert_fun om_wf_insert)
qed

lemma finalize_inv: "co_inv x c D G V P \<Longrightarrow> co_inv x (finalize_commit i c) D G V P"
  using agree_remove [of "om_lookup (co_active c)" "logged x (co_db c)" "begun c" D G V P i]
  by (simp add: co_inv_def finalize_commit_def lookup_remove_fun om_wf_remove)

lemma other_inv:
  assumes "co_inv x c D G V P" and "accepts (n_env x) b (co_db c)" and "\<forall>k \<in> batch_keys b. \<not> log_range k"
    and "commit_batch_local (n_env x) io b (co_db c) = (q, db)"
  shows "co_inv x (c\<lparr>co_db := db\<rparr>) D G V P"
  using assms(1) log_other_commit [OF _ assms(2,4,3), of "begun c"] by (simp add: co_inv_def)

lemma sent_inv:
  assumes "co_inv x c D G V P" and "get_state i c = Some WaitingForVotes" and "get_participant_writes i n c = Some ws" and "pr_txn r = i"
  shows "co_inv x c D G (insert r V) (insert (n, i) P)"
proof -
  obtain t where t: "om_lookup (co_active c) i = Some t" "dt_state t = WaitingForVotes" using assms(2) by (auto simp: get_state_def)
  have "n \<in> set (participants t)"
    using assms(3) t(1) by (force simp: get_participant_writes_def participants_def om_lookup_def dest: map_of_SomeD)
  then show ?thesis using assms(1) agree_sent [where act = "om_lookup (co_active c)", OF _ t _ assms(4)] by (simp add: co_inv_def)
qed

section \<open>The cluster keeps the invariant\<close>

definition prepared_ids :: "TwoPhaseParticipant \<Rightarrow> GlobalTxnId set" where
  "prepared_ids p = fst ` set (prepared p)"

definition held_batches :: "(u64 \<Rightarrow> TwoPhaseParticipant) \<Rightarrow> (u64 \<times> GlobalTxnId) set" where
  "held_batches nd = {(n, i). i \<in> prepared_ids (nd n)}"

lemma om_remove_keys: "fst ` set (om_remove k m) = fst ` set m - {k}"
  by (auto simp: om_remove_def)

definition dist_inv :: "node_env \<Rightarrow> cluster \<Rightarrow> bool" where
  "dist_inv x S \<longleftrightarrow> co_inv x (coord S) (decided S) (given_up S) (set (sent S)) (held_batches (node S) \<union> applied S) \<and>
     snd ` applied S \<subseteq> decided S \<and> snd ` dropped S \<subseteq> given_up S"

lemma co_inv_less: "co_inv x c D G V P \<Longrightarrow> P' \<subseteq> P \<Longrightarrow> co_inv x c D G V P'"
  unfolding co_inv_def using agree_less by blast

lemma prepared_ids_simps [simp]:
  "prepared_ids (p\<lparr>pa_db := db\<rparr>) = prepared_ids p"
  "prepared_ids (p\<lparr>pa_db := db, prepared := om_insert i v (prepared p)\<rparr>) = insert i (prepared_ids p)"
  "prepared_ids (p\<lparr>prepared := om_remove i (prepared p)\<rparr>) = prepared_ids p - {i}"
  by (simp_all add: prepared_ids_def om_insert_keys om_remove_keys)

lemma held_prepare:
  assumes "pa_prepare x io secs now i ws p = (r, p')"
  shows "pr_txn r = i" "prepared_ids p' \<subseteq> insert i (prepared_ids p)"
  using assms by (auto simp: pa_prepare_def split: sum.splits prod.splits)

lemma held_commit:
  assumes "pa_commit x io io' secs i p = (q, p')"
  shows "prepared_ids p' \<subseteq> prepared_ids p" "q \<in> range Inr \<Longrightarrow> i \<in> prepared_ids p"
proof -
  show "prepared_ids p' \<subseteq> prepared_ids p"
    using assms by (auto simp: pa_commit_def Let_def split: option.splits sum.splits prod.splits)
  show "i \<in> prepared_ids p" if "q \<in> range Inr"
    using assms that by (force simp: pa_commit_def prepared_ids_def om_lookup_def split: option.splits dest: map_of_SomeD)
qed

lemma held_abort: "pa_abort x io secs i p = (u, p') \<Longrightarrow> prepared_ids p' \<subseteq> prepared_ids p"
  by (auto simp: pa_abort_def)

lemma held_update:
  assumes "prepared_ids p \<subseteq> K \<union> prepared_ids (nd n)"
  shows "held_batches (nd(n := p)) \<subseteq> {n} \<times> K \<union> held_batches nd"
  using assms by (auto simp: held_batches_def split: if_splits)

lemma dist_run_inv:
  assumes "n_gateway x = None" and "dist_inv x S0" and "dist_run x S0 S"
  shows "dist_inv x S"
  using assms(3)
proof induction
  case d_start
  then show ?case by (rule assms(2))
next
  case (d_begin S secs i c)
  then show ?case using begin_inv [OF _ d_begin.hyps(2,3)] by (simp add: dist_inv_def)
next
  case (d_write S i n k v ttl r c)
  then show ?case using write_inv [OF _ d_write.hyps(2)] by (simp add: dist_inv_def)
next
  case (d_prepare S secs i io r c)
  then show ?case using prepare_inv [OF _ assms(1) d_prepare.hyps(2,3)] by (simp add: dist_inv_def)
next
  case (d_vote_sent S i n ws io secs now r p)
  let ?P = "held_batches (node S) \<union> applied S"
  have "co_inv x (coord S) (decided S) (given_up S) (insert r (set (sent S))) (insert (n, i) ?P)"
    using sent_inv [OF _ d_vote_sent.hyps(2,3) held_prepare(1) [OF d_vote_sent.hyps(4)]] d_vote_sent.IH by (simp add: dist_inv_def)
  moreover have "held_batches ((node S)(n := p)) \<subseteq> {n} \<times> {i} \<union> held_batches (node S)"
    by (rule held_update) (use held_prepare(2) [OF d_vote_sent.hyps(4)] in simp)
  ultimately show ?case using d_vote_sent.IH by (auto simp: dist_inv_def elim!: co_inv_less)
next
  case (d_vote S r i secs io res c)
  then show ?case using vote_inv [OF _ assms(1) d_vote.hyps(3,4,2,5)] by (auto simp: dist_inv_def)
next
  case (d_abort S i secs io res c)
  then show ?case using abort_inv [OF _ assms(1) d_abort.hyps(4,2,3,5)] by (auto simp: dist_inv_def)
next
  case (d_commit S i io io' secs n q p)
  have "held_batches ((node S)(n := p)) \<subseteq> {n} \<times> {} \<union> held_batches (node S)"
    by (rule held_update) (use held_commit(1) [OF d_commit.hyps(3)] in simp)
  moreover have "q \<in> range Inr \<Longrightarrow> (n, i) \<in> held_batches (node S)"
    using held_commit(2) [OF d_commit.hyps(3)] by (simp add: held_batches_def)
  ultimately show ?case using d_commit.IH d_commit.hyps(2) by (auto simp: dist_inv_def elim!: co_inv_less)
next
  case (d_drop S i io secs n u p)
  have "held_batches ((node S)(n := p)) \<subseteq> {n} \<times> {} \<union> held_batches (node S)"
    by (rule held_update) (use held_abort [OF d_drop.hyps(3)] in simp)
  then show ?case using d_drop.IH d_drop.hyps(2) by (auto simp: dist_inv_def elim!: co_inv_less)
next
  case (d_finalize S i)
  then show ?case using finalize_inv by (simp add: dist_inv_def)
next
  case (d_other S b io q db)
  then show ?case using other_inv [OF _ d_other.hyps(2-4)] by (simp add: dist_inv_def)
qed

section \<open>Properties\<close>

definition cluster_new :: "u64 \<Rightarrow> OmniKV \<Rightarrow> u64 \<Rightarrow> (u64 \<Rightarrow> OmniKV) \<Rightarrow> cluster" where
  "cluster_new n db timeout dbs = \<lparr>coord = coordinator_new n db timeout, node = (\<lambda>m. participant_new m (dbs m)), sent = [],
     decided = {}, given_up = {}, applied = {}, dropped = {}\<rparr>"

lemma cluster_new_inv:
  assumes "store_ok (n_env x) db" and "\<And>k secs. log_range k \<Longrightarrow> contents (n_env x) db secs k = None"
  shows "dist_inv x (cluster_new n db timeout dbs)"
proof -
  have l: "logged x db i st = None" for i st by (simp add: logged_def assms(2) log_key_range)
  have "log_ok x B db" for B using assms by (simp add: log_ok_def entry_ok_def)
  then show ?thesis
    by (simp add: dist_inv_def co_inv_def cluster_new_def coordinator_new_def held_batches_def prepared_ids_def participant_new_def
        agree_def l om_lookup_def)
qed

text \<open>One transaction of node 7 that writes a key on node 1.\<close>

definition demo_node :: node_env where
  "demo_node = \<lparr>n_env = demo_env, n_gateway = None, to_json = (\<lambda>en. Some (le_state en @ map (\<lambda>_. 49) (le_participants en))),
     from_json = (\<lambda>v. Some (log_entry 0 (7, 1) (filter (\<lambda>b. b \<noteq> 49) v) (map (\<lambda>_. 1) (filter (\<lambda>b. b = 49) v))))\<rparr>"

lemma demo_node_simps [simp]: "n_env demo_node = demo_env" "n_gateway demo_node = None"
  "to_json demo_node (log_entry secs i st ps) = Some (st @ map (\<lambda>_. 49) ps)"
  by (simp_all add: demo_node_def log_entry_def)

lemma demo_log:
  assumes "quiet n db" and "n < 1000" and "st \<in> {PREPARE, COMMIT, ABORT}" and "ps \<in> {[], [1]}"
  shows "loggable demo_node 0 (7, 1) st ps db"
    and "\<exists>db'. log_state demo_node demo_io 0 (7, 1) st ps db = (Inr (), db') \<and> quiet (Suc n) db'"
proof -
  let ?v = "st @ map (\<lambda>_. 49) ps"
  have v: "key_ok (log_key (7, 1) st)" "value_ok ?v" "length ?v < 64" "from_json demo_node ?v = Some (log_entry 0 (7, 1) st ps)"
    using assms(3,4)
    by (auto simp: demo_node_def PREPARE_def COMMIT_def ABORT_def log_key_def dec.simps key_ok_def value_ok_def ascii_utf8_valid ascii_def
        COMMIT_MARKER_def MAX_VALUE_SIZE_def)
  note q = quiet_set [OF assms(1,2) v(1-3)]
  show "loggable demo_node 0 (7, 1) st ps db" using q(1) v(4) by (simp add: loggable_def)
  have "length ?v \<le> MAX_VALUE_SIZE" using v(3) by (simp add: MAX_VALUE_SIZE_def)
  note b = batch_set_put [OF this]
  obtain r db' where "commit_batch_local demo_env demo_io (set_tx (log_key (7, 1) st) ?v) db = (Inr r, db')" "quiet (Suc n) db'"
    using q(2) by blast
  then show "\<exists>db'. log_state demo_node demo_io 0 (7, 1) st ps db = (Inr (), db') \<and> quiet (Suc n) db'"
    by (simp add: log_state_def b commit_batch_def)
qed


lemma demo_participant:
  obtains p where "pa_prepare demo_node demo_io 0 0 (7, 1) [\<lparr>w_node = 1, w_key = [97], w_value = Some [49], w_ttl = 0\<rparr>] (participant_new 1 demo_db) =
      (\<lparr>pr_node = 1, pr_txn = (7, 1), pr_vote = Commit, pr_seq = 2\<rparr>, p)"
    and "\<exists>q p'. pa_commit demo_node demo_io demo_io 0 (7, 1) p = (Inr q, p')"
proof -
  let ?k = "str ''__2PC_PREPARE__/7_1''" let ?v = "str ''PREPARED:1''"
  have b: "status_batch 0 (7, 1) ''PREPARED:'' 1 = set_tx ?k ?v"
    by (simp add: status_batch_def dec.simps batch_set_put MAX_VALUE_SIZE_def)
  have w: "dist_batch 0 [\<lparr>w_node = 1, w_key = [97], w_value = Some [49], w_ttl = 0\<rparr>] batch_new = Inr (set_tx [97] [49])"
    by (simp add: batch_set_put MAX_VALUE_SIZE_def)
  have kv: "key_ok ?k" "value_ok ?v" "length ?v < 64"
    by (simp_all add: key_ok_def value_ok_def ascii_utf8_valid ascii_def COMMIT_MARKER_def MAX_VALUE_SIZE_def)
  obtain q db where c: "commit_batch_local demo_env demo_io (set_tx ?k ?v) demo_db = (Inr q, db)" "quiet 1 db"
    using quiet_set(2) [OF quiet_demo(1) _ kv] by auto
  have "q = 2" using commit_acked [OF _ _ _ _ _ c(1)] quiet_set(1) [OF quiet_demo(1) _ kv]
    by (simp add: accepts_def) (simp add: op_count_def set_tx_def)
  obtain q' db' where "commit_batch_local demo_env demo_io (set_tx [97] [49]) db = (Inr q', db')"
    using commit_returns [of demo_io db demo_env "set_tx [97] [49]"] c(2) demo_ok(3) by (auto simp: quiet_def)
  then show thesis
    by (intro that [of "(participant_new 1 demo_db)\<lparr>pa_db := db, prepared := [((7, 1), \<lparr>ps_batch = set_tx [97] [49], ps_seq = 2, prepared_at = 0\<rparr>)]\<rparr>"])
      (use c(1) \<open>q = 2\<close> in \<open>simp_all add: pa_prepare_def pa_commit_def participant_new_def w b commit_batch_def om_lookup_def Let_def del: str_simps dist_batch.simps\<close>)
qed

abbreviation demo_dist :: cluster where
  "demo_dist \<equiv> cluster_new 7 demo_db 0 (\<lambda>_. demo_db)"

lemma demo_cluster:
  obtains S where "dist_run demo_node demo_dist S" and "(1, (7, 1)) \<in> applied S" and "(7, 1) \<in> decided S" and "quiet 2 (co_db (coord S))"
proof -
  let ?i = "(7, 1) :: GlobalTxnId"
  let ?w = "\<lparr>w_node = 1, w_key = [97], w_value = Some [49], w_ttl = 0\<rparr>"
  define t where "t st vs = \<lparr>dt_id = ?i, dt_state = st, writes_by_node = [(1, [?w])], votes = vs, created_at = 0, timeout_ms = 0\<rparr>" for st vs
  define co where "co db st vs = \<lparr>co_node = 7, co_db = db, next_seq = 2, co_active = [(?i, t st vs)], default_timeout_ms = 0\<rparr>" for db st vs
  have parts: "participants (t st vs) = [1]" for st vs by (simp add: t_def participants_def)
  have look: "om_lookup (co_active (co db st vs)) ?i = Some (t st vs)" for db st vs by (simp add: co_def om_lookup_def)
  have put: "put_txn ?i (t st' vs') (co db st vs) = co db st' vs'" for db st st' vs vs' by (simp add: put_txn_def co_def)
  have upd: "(t st vs)\<lparr>dt_state := st'\<rparr> = t st' vs" "(t st vs)\<lparr>votes := vs', dt_state := st'\<rparr> = t st' vs'"
    "(co db st vs)\<lparr>co_db := db'\<rparr> = co db' st vs" for st st' vs vs' db db' by (simp_all add: t_def co_def)
  obtain c where "dist_begin 0 (coord demo_dist) = (?i, c)" and c: "add_write ?i 1 [97] (Some [49]) 0 c = (Inr (), co demo_db Preparing [])"
    by (simp add: dist_begin_def cluster_new_def coordinator_new_def add_write_def om_lookup_def put_txn_def co_def t_def Let_def)
  then have "dist_run demo_node demo_dist (demo_dist\<lparr>coord := c\<rparr>)"
    by (intro d_begin [OF d_start]) (simp_all add: cluster_new_def coordinator_new_def word_less_nat_alt unsigned_minus_1_eq_mask mask_eq_exp_minus_1)
  from d_write [OF this, of ?i 1 "[97]" "Some [49]" 0] c
  have S1: "dist_run demo_node demo_dist (demo_dist\<lparr>coord := co demo_db Preparing []\<rparr>)" by simp
  have ready: "all_loggable demo_node 0 ?i (co db st vs)" if "quiet n db" "n < 1000" for n db st vs
    using demo_log(1) [OF that] by (simp add: all_loggable_def look parts) (simp add: co_def)
  obtain db1 where l1: "log_state demo_node demo_io 0 ?i PREPARE [1] demo_db = (Inr (), db1)" "quiet 1 db1"
    using demo_log(2) [OF quiet_demo(1), of PREPARE "[1]"] by auto
  have "dist_prepare demo_node demo_io 0 ?i (co demo_db Preparing []) = (Inr [1], co db1 WaitingForVotes [])"
    by (simp add: dist_prepare_def look parts) (simp add: t_def co_def put_txn_def l1 participants_def)
  from d_prepare [OF S1 _, of 0 ?i demo_io] ready [OF quiet_demo(1)] this
  have S2: "dist_run demo_node demo_dist (demo_dist\<lparr>coord := co db1 WaitingForVotes []\<rparr>)" by simp
  define r where "r = \<lparr>pr_node = 1, pr_txn = ?i, pr_vote = Commit, pr_seq = 2\<rparr>"
  obtain p q p' where p: "pa_prepare demo_node demo_io 0 0 ?i [?w] (participant_new 1 demo_db) = (r, p)"
    "pa_commit demo_node demo_io demo_io 0 ?i p = (Inr q, p')"
    unfolding r_def by (rule demo_participant) blast
  let ?nd = "(node demo_dist)(1 := p)"
  have "get_participant_writes ?i 1 (co db1 WaitingForVotes []) = Some [?w]" "get_state ?i (co db1 WaitingForVotes []) = Some WaitingForVotes"
    by (simp_all add: get_participant_writes_def get_state_def look) (simp_all add: t_def om_lookup_def)
  with d_vote_sent [OF S2, of ?i 1 "[?w]" demo_io 0 0] p(1)
  have S3: "dist_run demo_node demo_dist (demo_dist\<lparr>coord := co db1 WaitingForVotes [], node := ?nd, sent := [r]\<rparr>)"
    by (simp add: cluster_new_def)
  obtain db2 where l2: "log_state demo_node demo_io 0 ?i COMMIT [1] db1 = (Inr (), db2)" "quiet 2 db2"
    using demo_log(2) [OF l1(2), of COMMIT "[1]"] by (auto simp: numeral_2_eq_2)
  have "receive_vote demo_node demo_io 0 ?i r (co db1 WaitingForVotes []) = (Inr Committing, co db2 Committing [(1, Commit)])"
    by (simp add: receive_vote_def look parts) (simp add: t_def co_def put_txn_def l2 r_def participants_def Let_def)
  note rv = this
  define T where "T = demo_dist\<lparr>coord := co db1 WaitingForVotes [], node := ?nd, sent := [r]\<rparr>"
  have T: "coord T = co db1 WaitingForVotes []" "sent T = [r]" "decided T = {}" "node T 1 = p" by (simp_all add: T_def cluster_new_def)
  have i: "?i = pr_txn r" "r \<in> set (sent T)" by (simp_all add: r_def T)
  define U where "U = T\<lparr>coord := co db2 Committing [(1, Commit)], decided := (if Inr Committing = (Inr Committing :: DistTxnState result) then insert ?i (decided T) else decided T),
    given_up := (if (\<exists>f. Inr Committing = (Inl f :: DistTxnState result)) \<and> ?i \<notin> decided T then insert ?i (given_up T) else given_up T)\<rparr>"
  have "dist_run demo_node demo_dist U"
    unfolding U_def by (rule d_vote [OF S3 [folded T_def] i(2,1)]) (use ready [OF l1(2)] rv in \<open>simp_all add: T\<close>)
  moreover have U: "?i \<in> decided U" "node U 1 = p" "coord U = co db2 Committing [(1, Commit)]" by (simp_all add: U_def T)
  ultimately have "dist_run demo_node demo_dist (U\<lparr>node := (node U)(1 := p'), applied := (if Inr q \<in> range (Inr :: u64 \<Rightarrow> u64 result) then insert (1, ?i) (applied U) else applied U)\<rparr>)"
    by (intro d_commit) (use p(2) in simp_all)
  then show thesis by (rule that) (use U l2(2) in \<open>simp_all add: co_def\<close>)
qed


text \<open>C34. Transaction numbers start over after a restart, while the log keeps the old entries. When the
  log of an earlier life of the coordinator holds a decision to commit its first transaction, the
  first transaction of the new life has the same number, and even after it was aborted, recovery
  reports it as committed.\<close>

theorem restart_reuses_ids:
  assumes "n_gateway x = None" and "log_ok x B db" and "logged x db (n, 1) COMMIT = Some en"
    and "dist_begin secs (coordinator_new n db timeout) = (i, c1)" and "loggable x secs' i ABORT [] db"
    and "dist_abort x io secs' i c1 = (Inr ps, c2)"
  shows "i = (n, 1) \<and> (\<exists>r c. dist_recover x now c2 = (Inr r, c) \<and> (i, COMMIT, le_participants en) \<in> set r)"
proof -
  have i: "i = (n, 1)" "co_db c1 = db" using assms(4) by (auto simp: dist_begin_def coordinator_new_def Let_def)
  have t: "\<exists>t. om_lookup (co_active c1) i = Some t \<and> participants t = []"
    using assms(4) by (auto simp: dist_begin_def coordinator_new_def Let_def om_lookup_def participants_def)
  then obtain db' where l: "log_state x io secs' i ABORT [] db = (Inr (), db')" "co_db c2 = db'"
    using assms(6) i by (auto simp: dist_abort_def split: prod.splits sum.splits)
  have "i \<in> B" using logged_begun [OF assms(2,3)] i by simp
  from log_state_spec [OF assms(1,2) this assms(5) l(1)] have log: "log_ok x B (co_db c2)" "logged x (co_db c2) i COMMIT = Some en"
    using assms(3) i by (simp_all add: l log_put_def)
  show ?thesis using recover_spec [OF log(1), of now] log(2) i by (auto simp: verdict_def)
qed

theorem restart_reuses_ids_witness:
  "\<exists>S c1 ps c2 r c ps'. dist_run demo_node demo_dist S \<and>
     dist_begin 0 (coordinator_new 7 (co_db (coord S)) 0) = ((7, 1), c1) \<and> dist_abort demo_node demo_io 0 (7, 1) c1 = (Inr ps, c2) \<and>
     dist_recover demo_node 0 c2 = (Inr r, c) \<and> ((7, 1), COMMIT, ps') \<in> set r"
proof -
  obtain S where S: "dist_run demo_node demo_dist S" "(7, 1) \<in> decided S" "quiet 2 (co_db (coord S))" by (rule demo_cluster)
  let ?db = "co_db (coord S)"
  have "dist_inv demo_node demo_dist" using quiet_demo by (intro cluster_new_inv) (simp_all add: quiet_def)
  from dist_run_inv [OF _ this S(1)] have log: "log_ok demo_node (begun (coord S)) ?db"
    and a: "agree (om_lookup (co_active (coord S))) (logged demo_node ?db) (begun (coord S)) (decided S) (given_up S) (set (sent S))
      (held_batches (node S) \<union> applied S)"
    by (simp_all add: dist_inv_def co_inv_def)
  obtain en where en: "logged demo_node ?db (7, 1) COMMIT = Some en" using agreeD(2) [OF a S(2)] unfolding decision_ok_def by blast
  obtain c1 where b: "dist_begin 0 (coordinator_new 7 ?db 0) = ((7, 1), c1)" by (simp add: dist_begin_def coordinator_new_def Let_def)
  obtain db' where l: "log_state demo_node demo_io 0 (7, 1) ABORT [] ?db = (Inr (), db')" using demo_log(2) [OF S(3), of ABORT "[]"] by auto
  have "\<exists>ps c2. dist_abort demo_node demo_io 0 (7, 1) c1 = (Inr ps, c2)"
    using b l by (auto simp: dist_abort_def dist_begin_def coordinator_new_def Let_def om_lookup_def participants_def)
  then obtain ps c2 where ab: "dist_abort demo_node demo_io 0 (7, 1) c1 = (Inr ps, c2)" by blast
  have "loggable demo_node 0 (7, 1) ABORT [] ?db" using demo_log(1) [OF S(3), of ABORT "[]"] by simp
  from restart_reuses_ids [OF _ log en b this ab, of 0] S(1) b ab show ?thesis by simp blast
qed



end
