(* ===== verification/Sql.thy ===== *)
theory Sql
  imports Omni_Prelude
begin

text \<open>
  The SQL front end: \<^verbatim>\<open>query/sql.rs\<close>, with its syntax trees, the tokenizer and the recursive-descent
  parser. A Rust \<^verbatim>\<open>char\<close> is its Unicode scalar value and a string the list of them. The parsers work on
  the list of the tokens from the source's index on: reading \<^verbatim>\<open>tokens.get(i)\<close> is looking at its head, and
  an index past the end is the empty list. The Unicode case mappings and the decimal conversions of
  floating-point numbers are arguments; a float is its 64 bits.

  Subqueries and set operations are parsed by printing their tokens and parsing the text again, so the
  parser has a recursion of unknown depth: it takes fuel, and \<open>None\<close> is running out of it.
\<close>

section \<open>Strings\<close>

type_synonym ustr = "nat list"

definition us :: "string \<Rightarrow> ustr" where
  "us s = map of_char s"

record text_env =
  upper_char :: "nat \<Rightarrow> ustr"
  lower_char :: "nat \<Rightarrow> ustr"
  f64_of_str :: "ustr \<Rightarrow> u64 option"
  f64_to_str :: "u64 \<Rightarrow> ustr"

definition to_uppercase :: "text_env \<Rightarrow> ustr \<Rightarrow> ustr" where
  "to_uppercase x s = concat (map (upper_char x) s)"

definition to_lowercase :: "text_env \<Rightarrow> ustr \<Rightarrow> ustr" where
  "to_lowercase x s = concat (map (lower_char x) s)"

text \<open>The White\_Space property of Unicode, \<^verbatim>\<open>char::is_whitespace\<close>.\<close>

definition is_whitespace :: "nat \<Rightarrow> bool" where
  "is_whitespace c \<longleftrightarrow> 9 \<le> c \<and> c \<le> 13 \<or> 8192 \<le> c \<and> c \<le> 8202 \<or>
     c \<in> {32, 133, 160, 5760, 8232, 8233, 8239, 8287, 12288}"

definition str_trim :: "ustr \<Rightarrow> ustr" where
  "str_trim s = rev (dropWhile is_whitespace (rev (dropWhile is_whitespace s)))"

definition trim_end_matches :: "nat \<Rightarrow> ustr \<Rightarrow> ustr" where
  "trim_end_matches c s = rev (dropWhile (\<lambda>d. d = c) (rev s))"

fun join :: "ustr list \<Rightarrow> ustr" where
  "join [] = []"
| "join [t] = t"
| "join (t # ts) = t @ 32 # join ts"

fun split_on :: "nat \<Rightarrow> ustr \<Rightarrow> ustr list" where
  "split_on c [] = [[]]"
| "split_on c (d # ds) = (if d = c then [] # split_on c ds else case split_on c ds of p # ps \<Rightarrow> (d # p) # ps)"

text \<open>Integers as \<^verbatim>\<open>from_str\<close> reads them: an optional sign, at least one digit, and a value in range.
  An unsigned type takes no minus sign.\<close>

definition digit :: "nat \<Rightarrow> bool" where
  "digit c \<longleftrightarrow> 48 \<le> c \<and> c \<le> 57"

definition digits_value :: "ustr \<Rightarrow> int option" where
  "digits_value s = (if s \<noteq> [] \<and> list_all digit s then Some (foldl (\<lambda>a c. 10 * a + int (c - 48)) 0 s) else None)"

definition in_bounds :: "int \<Rightarrow> int \<Rightarrow> int option \<Rightarrow> int option" where
  "in_bounds lo hi v = (case v of Some i \<Rightarrow> if lo \<le> i \<and> i \<le> hi then Some i else None | None \<Rightarrow> None)"

definition parse_signed :: "nat \<Rightarrow> ustr \<Rightarrow> int option" where
  "parse_signed w s = in_bounds (- (2 ^ (w - 1))) (2 ^ (w - 1) - 1)
     (case s of
        c # ds \<Rightarrow> if c = 45 then map_option uminus (digits_value ds) else if c = 43 then digits_value ds else digits_value s
      | [] \<Rightarrow> None)"

definition parse_usize :: "ustr \<Rightarrow> nat option" where
  "parse_usize s = map_option nat (in_bounds 0 (2 ^ 64 - 1)
     (case s of c # ds \<Rightarrow> if c = 43 then digits_value ds else digits_value s | [] \<Rightarrow> None))"

fun show_nat :: "nat \<Rightarrow> ustr" where
  "show_nat n = (if n < 10 then [48 + n] else show_nat (n div 10) @ [48 + n mod 10])"

declare show_nat.simps [simp del]

definition show_int :: "int \<Rightarrow> ustr" where
  "show_int i = (if i < 0 then 45 # show_nat (nat (- i)) else show_nat (nat i))"

section \<open>Syntax trees\<close>

datatype SetOpType = Union | Intersect | Except

record SqlColumnDef =
  cd_name :: ustr
  cd_type :: ustr
  cd_primary_key :: bool
  cd_nullable :: bool
  cd_default :: "ustr option"

datatype WindowFuncType = RowNumber | Rank | DenseRank

datatype AggFunc = CountF | SumF | AvgF | MinF | MaxF

datatype SelectColumn =
    Star
  | Named ustr
  | Qualified ustr ustr
  | Aggregate AggFunc ustr
  | WindowFunc WindowFuncType ustr bool

datatype JoinType = Inner | LeftJ | RightJ

datatype FromClause = Table ustr | Join ustr ustr JoinType ustr ustr

datatype CmpOp = Eq | Ne | Gt | Lt | Gte | Lte | Like

datatype SqlValue = Text ustr | Integer int | Float u64 | Boolean bool | Null | Placeholder nat

record OrderByItem =
  ob_column :: ustr
  ob_desc :: bool

datatype SqlStatement =
    CreateTable ustr "SqlColumnDef list" bool
  | DropTable ustr bool
  | Insert ustr "ustr list" "SqlValue list list"
  | Select "SelectColumn list" FromClause "WhereExpr option" "ustr list" "WhereExpr option" "OrderByItem list" "nat option" "nat option"
  | Update ustr "(ustr \<times> SqlValue) list" "WhereExpr option"
  | Delete ustr "WhereExpr option"
  | ShowTables
  | Explain SqlStatement
  | ExplainAnalyze SqlStatement
  | SetOp SetOpType SqlStatement SqlStatement bool
and WhereExpr =
    Comparison ustr CmpOp SqlValue
  | And WhereExpr WhereExpr
  | Or WhereExpr WhereExpr
  | Not WhereExpr
  | IsNull ustr
  | IsNotNull ustr
  | In ustr "SqlValue list"
  | InSubquery ustr SqlStatement

definition as_string :: "text_env \<Rightarrow> SqlValue \<Rightarrow> ustr" where
  "as_string x v = (case v of
      Text s \<Rightarrow> s | Integer i \<Rightarrow> show_int i | Float f \<Rightarrow> f64_to_str x f
    | Boolean b \<Rightarrow> if b then us ''true'' else us ''false'' | Null \<Rightarrow> us ''NULL'' | Placeholder n \<Rightarrow> 36 # show_nat n)"

section \<open>Results\<close>

text \<open>An error message, or a panic of the parser; \<open>None\<close> when the fuel is used up.\<close>

datatype perr = Msg ustr | Panicked

type_synonym 'a pres = "(perr + 'a) option"

definition pbind :: "'a pres \<Rightarrow> ('a \<Rightarrow> 'b pres) \<Rightarrow> 'b pres" where
  "pbind m f = (case m of None \<Rightarrow> None | Some (Inl e) \<Rightarrow> Some (Inl e) | Some (Inr a) \<Rightarrow> f a)"

abbreviation pok :: "'a \<Rightarrow> 'a pres" where "pok a \<equiv> Some (Inr a)"
abbreviation perror :: "string \<Rightarrow> 'a pres" where "perror m \<equiv> Some (Inl (Msg (us m)))"

lemma pbind_simps [simp]: "pbind None f = None" "pbind (Some (Inl e)) f = Some (Inl e)" "pbind (Some (Inr a)) f = f a"
  by (simp_all add: pbind_def)

section \<open>The tokenizer\<close>

definition flush :: "ustr \<Rightarrow> ustr list" where
  "flush cur = (if cur = [] then [] else [cur])"

definition quoted :: "ustr \<Rightarrow> ustr" where
  "quoted cur = 39 # cur @ [39]"

definition starts :: "nat \<Rightarrow> ustr \<Rightarrow> bool" where
  "starts c cs \<longleftrightarrow> (case cs of d # _ \<Rightarrow> d = c | [] \<Rightarrow> False)"

fun tokens_from :: "bool \<Rightarrow> ustr \<Rightarrow> ustr \<Rightarrow> ustr list" where
  "tokens_from in_string cur [] = flush cur"
| "tokens_from True cur (c # cs) =
     (if c = 39 then
        if starts 39 cs then tokens_from True (cur @ [39, 39]) (tl cs)
        else quoted cur # tokens_from False [] cs
      else tokens_from True (cur @ [c]) cs)"
| "tokens_from False cur (c # cs) =
     (if c = 39 then flush cur @ tokens_from True [] cs
      else if c \<in> {40, 41, 44, 42} then flush cur @ [c] # tokens_from False [] cs
      else if c = 33 \<and> starts 61 cs then flush cur @ [33, 61] # tokens_from False [] (tl cs)
      else if c = 60 \<or> c = 62 then
        flush cur @ (if starts 61 cs then [c, 61] # tokens_from False [] (tl cs)
                     else if starts 62 cs \<and> c = 60 then [60, 62] # tokens_from False [] (tl cs)
                     else [c] # tokens_from False [] cs)
      else if c = 61 then flush cur @ [61] # tokens_from False [] cs
      else if is_whitespace c then flush cur @ tokens_from False [] cs
      else tokens_from False (cur @ [c]) cs)"

definition tokenize :: "ustr \<Rightarrow> ustr list" where
  "tokenize s = tokens_from False [] s"

section \<open>Values\<close>

fun replace_quotes :: "ustr \<Rightarrow> ustr" where
  "replace_quotes (a # b # cs) = (if a = 39 \<and> b = 39 then 39 # replace_quotes cs else a # replace_quotes (b # cs))"
| "replace_quotes cs = cs"

text \<open>A value that is not a parameter. Slicing off both quotes of a token that is one quote panics.\<close>

definition parse_literal :: "text_env \<Rightarrow> ustr \<Rightarrow> SqlValue pres" where
  "parse_literal x t =
     (if starts 39 t \<and> last t = 39 then
        if length t < 2 then Some (Inl Panicked) else pok (Text (replace_quotes (butlast (tl t))))
      else if to_uppercase x t = us ''NULL'' then pok Null
      else if to_uppercase x t = us ''TRUE'' then pok (Boolean True)
      else if to_uppercase x t = us ''FALSE'' then pok (Boolean False)
      else case parse_signed 64 t of
        Some i \<Rightarrow> pok (Integer i)
      | None \<Rightarrow>
          if (case parse_signed 128 t of Some i \<Rightarrow> show_int i = t | None \<Rightarrow> False) then pok (Text t)
          else case f64_of_str x t of Some f \<Rightarrow> pok (Float f) | None \<Rightarrow> pok (Text t))"

definition parse_value :: "text_env \<Rightarrow> ustr \<Rightarrow> SqlValue pres" where
  "parse_value x t =
     (case (if starts 36 t then parse_usize (tl t) else None) of
        Some n \<Rightarrow> if n \<ge> 1 then pok (Placeholder n) else parse_literal x t
      | None \<Rightarrow> parse_literal x t)"

section \<open>Looking at the next token\<close>

definition at_sym :: "nat \<Rightarrow> ustr list \<Rightarrow> bool" where
  "at_sym c ts \<longleftrightarrow> (case ts of t # _ \<Rightarrow> t = [c] | [] \<Rightarrow> False)"

definition at_kw :: "text_env \<Rightarrow> string \<Rightarrow> ustr list \<Rightarrow> bool" where
  "at_kw x w ts \<longleftrightarrow> (case ts of t # _ \<Rightarrow> to_uppercase x t = us w | [] \<Rightarrow> False)"

definition skip_sym :: "nat \<Rightarrow> ustr list \<Rightarrow> ustr list" where
  "skip_sym c ts = (if at_sym c ts then tl ts else ts)"

definition skip_kw :: "text_env \<Rightarrow> string \<Rightarrow> ustr list \<Rightarrow> ustr list" where
  "skip_kw x w ts = (if at_kw x w ts then tl ts else ts)"

definition next_token :: "string \<Rightarrow> ustr list \<Rightarrow> (ustr \<times> ustr list) pres" where
  "next_token m ts = (case ts of t # r \<Rightarrow> pok (t, r) | [] \<Rightarrow> perror m)"

text \<open>The optional \<^verbatim>\<open>DESC\<close> or \<^verbatim>\<open>ASC\<close> after a column.\<close>

definition direction :: "text_env \<Rightarrow> ustr list \<Rightarrow> bool \<times> ustr list" where
  "direction x ts = (if at_kw x ''DESC'' ts then (True, tl ts) else (False, skip_kw x ''ASC'' ts))"

lemma length_skips:
  "length (skip_sym c ts) \<le> length ts" "length (skip_kw x w ts) \<le> length ts" "length (snd (direction x ts)) \<le> length ts"
  by (simp_all add: skip_sym_def skip_kw_def direction_def)

section \<open>Lists of values and names\<close>

text \<open>The tokens up to a closing parenthesis, commas dropped, and what follows it.\<close>

fun until_close :: "ustr list \<Rightarrow> ustr list \<times> ustr list" where
  "until_close [] = ([], [])"
| "until_close (t # ts) =
     (if t = [41] then ([], t # ts)
      else let (as, r) = until_close ts in (if t = [44] then as else t # as, r))"

fun parse_values :: "text_env \<Rightarrow> ustr list \<Rightarrow> SqlValue list pres" where
  "parse_values x [] = pok []"
| "parse_values x (t # ts) = pbind (parse_value x t) (\<lambda>v. pbind (parse_values x ts) (\<lambda>vs. pok (v # vs)))"

lemma length_until_close: "length (snd (until_close ts)) \<le> length ts"
  by (induction ts) (auto split: prod.split)

section \<open>CREATE and DROP\<close>

text \<open>The constraints of a column: whether it is a primary key, whether it may be null, its default.\<close>

function column_constraints :: "text_env \<Rightarrow> ustr list \<Rightarrow> bool \<times> bool \<times> ustr option \<Rightarrow> (bool \<times> bool \<times> ustr option) \<times> ustr list" where
  "column_constraints x ts (pk, nullable, dflt) =
     (if ts = [] \<or> at_sym 44 ts \<or> at_sym 41 ts then ((pk, nullable, dflt), ts)
      else if at_kw x ''PRIMARY'' ts then column_constraints x (skip_kw x ''KEY'' (tl ts)) (True, False, dflt)
      else if at_kw x ''NOT'' ts then column_constraints x (skip_kw x ''NULL'' (tl ts)) (pk, False, dflt)
      else if at_kw x ''DEFAULT'' ts then
        column_constraints x (drop 2 ts) (pk, nullable, case tl ts of d # _ \<Rightarrow> Some d | [] \<Rightarrow> None)
      else column_constraints x (tl ts) (pk, nullable, dflt))"
  by pat_completeness auto
termination
  by (relation "measure (\<lambda>(x, ts, c). length ts)")
    (auto simp: neq_Nil_conv less_Suc_eq_le length_skips)

declare column_constraints.simps [simp del]

lemma length_constraints: "length (snd (column_constraints x ts c)) \<le> length ts"
proof (induction x ts c rule: column_constraints.induct)
  case (1 x ts pk nullable dflt)
  show ?case
    using 1 length_skips(2) [of x "''KEY''" "tl ts"] length_skips(2) [of x "''NULL''" "tl ts"]
    by (subst column_constraints.simps) auto
qed

function column_defs :: "text_env \<Rightarrow> ustr list \<Rightarrow> SqlColumnDef list pres" where
  "column_defs x ts =
     (if ts = [] \<or> at_sym 41 ts then pok []
      else if at_sym 44 ts then column_defs x (tl ts)
      else case tl ts of
        [] \<Rightarrow> perror ''Missing column type''
      | ty # r \<Rightarrow>
          let q = column_constraints x r (False, True, None) in
          pbind (column_defs x (snd q)) (\<lambda>cs. pok (\<lparr>cd_name = hd ts, cd_type = ty, cd_primary_key = fst (fst q),
            cd_nullable = fst (snd (fst q)), cd_default = snd (snd (fst q))\<rparr> # cs)))"
  by pat_completeness auto
termination
  by (relation "measure (\<lambda>(x, ts). length ts)")
    (auto simp: neq_Nil_conv less_Suc_eq_le le_SucI [OF length_constraints])

declare column_defs.simps [simp del]

definition parse_create_table :: "text_env \<Rightarrow> ustr list \<Rightarrow> SqlStatement pres" where
  "parse_create_table x tokens =
     (let ts = tl tokens in
      if \<not> at_kw x ''TABLE'' ts then perror ''Expected TABLE after CREATE''
      else
        let ts = tl ts;
            ine = (length ts > 2 \<and> at_kw x ''IF'' ts \<and> at_kw x ''NOT'' (tl ts) \<and> at_kw x ''EXISTS'' (drop 2 ts));
            ts = (if ine then drop 3 ts else ts) in
        pbind (next_token ''Missing table name'' ts) (\<lambda>(name, ts).
          if \<not> at_sym 40 ts then perror ''Expected ( after table name''
          else pbind (column_defs x (tl ts)) (\<lambda>cs. pok (CreateTable name cs ine))))"

definition parse_drop_table :: "text_env \<Rightarrow> ustr list \<Rightarrow> SqlStatement pres" where
  "parse_drop_table x tokens =
     (let ts = tl tokens in
      if \<not> at_kw x ''TABLE'' ts then perror ''Expected TABLE after DROP''
      else
        let ts = tl ts; ie = (at_kw x ''IF'' ts \<and> at_kw x ''EXISTS'' (tl ts)); ts = (if ie then drop 2 ts else ts) in
        pbind (next_token ''Missing table name'' ts) (\<lambda>(name, _). pok (DropTable name ie)))"

section \<open>INSERT\<close>

function insert_rows :: "text_env \<Rightarrow> ustr list \<Rightarrow> SqlValue list list pres" where
  "insert_rows x ts =
     (if at_sym 40 ts then
        let q = until_close (tl ts) in
        pbind (parse_values x (fst q)) (\<lambda>row. pbind (insert_rows x (tl (snd q))) (\<lambda>rows. pok (row # rows)))
      else if at_sym 44 ts then insert_rows x (tl ts)
      else pok [])"
  by pat_completeness auto
termination
proof (relation "measure (\<lambda>(x, ts). length ts)", goal_cases)
  case (2 x ts q row)
  then show ?case using length_until_close [of "tl ts"] by (cases ts) (auto simp: at_sym_def)
next
  case (3 x ts)
  then show ?case by (cases ts) (auto simp: at_sym_def)
qed simp

declare insert_rows.simps [simp del]

definition parse_insert_sql :: "text_env \<Rightarrow> ustr list \<Rightarrow> SqlStatement pres" where
  "parse_insert_sql x tokens =
     (let ts = tl tokens in
      if \<not> at_kw x ''INTO'' ts then perror ''Expected INTO after INSERT''
      else pbind (next_token ''Missing table name'' (tl ts)) (\<lambda>(table, ts).
        let (cols, ts) = (if at_sym 40 ts then let (as, r) = until_close (tl ts) in (as, tl r) else ([], ts)) in
        if \<not> at_kw x ''VALUES'' ts then perror ''Expected VALUES''
        else pbind (insert_rows x (tl ts)) (\<lambda>rows. pok (Insert table cols rows))))"

section \<open>WHERE\<close>

text \<open>The tokens of a subquery, up to the parenthesis that closes it, and the tokens from there on.\<close>

fun split_sub :: "int \<Rightarrow> ustr list \<Rightarrow> ustr list \<times> ustr list" where
  "split_sub depth [] = ([], [])"
| "split_sub depth (t # ts) =
     (let d = (if t = [40] then depth + 1 else if t = [41] then depth - 1 else depth) in
      if t = [41] \<and> d = 0 then ([], t # ts)
      else let (sub, r) = split_sub d ts in (t # sub, r))"

definition agg_names :: "ustr list" where
  "agg_names = map us [''COUNT'', ''SUM'', ''AVG'', ''MIN'', ''MAX'']"

text \<open>The column of a condition, or the aggregate it names.\<close>

definition where_column :: "text_env \<Rightarrow> ustr \<Rightarrow> ustr list \<Rightarrow> ustr \<times> ustr list" where
  "where_column x t r =
     (if to_uppercase x t \<in> set agg_names \<and> at_sym 40 r then
        let a = tl r; no_arg = (a = [] \<or> at_sym 41 a);
            arg = (if no_arg then [42] else hd a); a = (if no_arg then a else tl a)
        in (to_lowercase x t @ [40] @ arg @ [41], skip_sym 41 a)
      else (t, r))"

definition cmp_op :: "ustr \<Rightarrow> CmpOp option" where
  "cmp_op t = (if t = us ''='' then Some Eq else if t = us ''!='' \<or> t = us ''<>'' then Some Ne
     else if t = us ''>'' then Some Gt else if t = us ''<'' then Some Lt else if t = us ''>='' then Some Gte
     else if t = us ''<='' then Some Lte else if t = us ''LIKE'' \<or> t = us ''like'' then Some Like else None)"

definition where_comparison :: "text_env \<Rightarrow> ustr \<Rightarrow> ustr list \<Rightarrow> (WhereExpr \<times> ustr list) pres" where
  "where_comparison x col ts =
     (case ts of
        [] \<Rightarrow> perror ''Missing operator''
      | t # r \<Rightarrow>
          (case cmp_op t of
             None \<Rightarrow> Some (Inl (Msg (us ''Unknown operator: '' @ t)))
           | Some op \<Rightarrow>
               (case r of
                  [] \<Rightarrow> perror ''Missing value''
                | v # r' \<Rightarrow> pbind (parse_value x v) (\<lambda>val. pok (Comparison col op val, r')))))"

text \<open>The condition after a column; \<open>sub\<close> parses a subquery.\<close>

definition where_condition ::
  "text_env \<Rightarrow> (ustr \<Rightarrow> SqlStatement pres) \<Rightarrow> ustr \<Rightarrow> ustr list \<Rightarrow> (WhereExpr \<times> ustr list) pres" where
  "where_condition x sub col ts =
     (if at_kw x ''IS'' ts then
        if at_kw x ''NOT'' (tl ts) then pok (IsNotNull col, drop 3 ts) else pok (IsNull col, drop 2 ts)
      else if at_kw x ''IN'' ts then
        let ts = skip_sym 40 (tl ts) in
        if at_kw x ''SELECT'' ts then
          let (q, r) = split_sub 1 ts in pbind (sub (join q)) (\<lambda>st. pok (InSubquery col st, skip_sym 41 r))
        else let (as, r) = until_close ts in pbind (parse_values x as) (\<lambda>vs. pok (In col vs, tl r))
      else where_comparison x col ts)"

function (sequential) parse_where_expr :: "text_env \<Rightarrow> (ustr \<Rightarrow> SqlStatement pres) \<Rightarrow> nat \<Rightarrow> ustr list \<Rightarrow> (WhereExpr \<times> ustr list) pres"
  and or_loop :: "text_env \<Rightarrow> (ustr \<Rightarrow> SqlStatement pres) \<Rightarrow> nat \<Rightarrow> WhereExpr \<Rightarrow> ustr list \<Rightarrow> (WhereExpr \<times> ustr list) pres"
  and parse_where_and :: "text_env \<Rightarrow> (ustr \<Rightarrow> SqlStatement pres) \<Rightarrow> nat \<Rightarrow> ustr list \<Rightarrow> (WhereExpr \<times> ustr list) pres"
  and and_loop :: "text_env \<Rightarrow> (ustr \<Rightarrow> SqlStatement pres) \<Rightarrow> nat \<Rightarrow> WhereExpr \<Rightarrow> ustr list \<Rightarrow> (WhereExpr \<times> ustr list) pres"
  and parse_where_atom :: "text_env \<Rightarrow> (ustr \<Rightarrow> SqlStatement pres) \<Rightarrow> nat \<Rightarrow> ustr list \<Rightarrow> (WhereExpr \<times> ustr list) pres" where
  "parse_where_expr x sub 0 ts = None"
| "parse_where_expr x sub (Suc n) ts = pbind (parse_where_and x sub n ts) (\<lambda>(l, r). or_loop x sub n l r)"
| "or_loop x sub 0 l ts = None"
| "or_loop x sub (Suc n) l ts =
     (if at_kw x ''OR'' ts then pbind (parse_where_and x sub n (tl ts)) (\<lambda>(e, r). or_loop x sub n (Or l e) r) else pok (l, ts))"
| "parse_where_and x sub 0 ts = None"
| "parse_where_and x sub (Suc n) ts = pbind (parse_where_atom x sub n ts) (\<lambda>(l, r). and_loop x sub n l r)"
| "and_loop x sub 0 l ts = None"
| "and_loop x sub (Suc n) l ts =
     (if at_kw x ''AND'' ts then pbind (parse_where_atom x sub n (tl ts)) (\<lambda>(e, r). and_loop x sub n (And l e) r) else pok (l, ts))"
| "parse_where_atom x sub 0 ts = None"
| "parse_where_atom x sub (Suc n) ts =
     (case ts of
        [] \<Rightarrow> perror ''Unexpected end in WHERE''
      | t # r \<Rightarrow>
          if at_kw x ''NOT'' ts then pbind (parse_where_atom x sub n r) (\<lambda>(e, r'). pok (Not e, r'))
          else if t = [40] then pbind (parse_where_expr x sub n r) (\<lambda>(e, r'). pok (e, skip_sym 41 r'))
          else let (col, r') = where_column x t r in where_condition x sub col r')"
  by pat_completeness auto
termination
  apply (relation "measure (\<lambda>a. case a of Inl (Inl (x, sub, n, ts)) \<Rightarrow> n | Inl (Inr (x, sub, n, l, ts)) \<Rightarrow> n | Inr (Inl (x, sub, n, ts)) \<Rightarrow> n
     | Inr (Inr (Inl (x, sub, n, l, ts))) \<Rightarrow> n | Inr (Inr (Inr (x, sub, n, ts))) \<Rightarrow> n)")
  apply simp_all
  done

text \<open>An optional clause: a keyword and an expression.\<close>

definition where_clause ::
  "text_env \<Rightarrow> (ustr \<Rightarrow> SqlStatement pres) \<Rightarrow> nat \<Rightarrow> string \<Rightarrow> ustr list \<Rightarrow> (WhereExpr option \<times> ustr list) pres" where
  "where_clause x sub n w ts =
     (if at_kw x w ts then pbind (parse_where_expr x sub n (tl ts)) (\<lambda>(e, r). pok (Some e, r)) else pok (None, ts))"

section \<open>SELECT\<close>

definition window_func :: "text_env \<Rightarrow> ustr \<Rightarrow> WindowFuncType option" where
  "window_func x t =
     (if to_uppercase x t = us ''ROW_NUMBER'' then Some RowNumber else if to_uppercase x t = us ''RANK'' then Some Rank
      else if to_uppercase x t = us ''DENSE_RANK'' then Some DenseRank else None)"

definition agg_func :: "text_env \<Rightarrow> ustr \<Rightarrow> AggFunc option" where
  "agg_func x t =
     (if to_uppercase x t = us ''COUNT'' then Some CountF else if to_uppercase x t = us ''SUM'' then Some SumF
      else if to_uppercase x t = us ''AVG'' then Some AvgF else if to_uppercase x t = us ''MIN'' then Some MinF
      else if to_uppercase x t = us ''MAX'' then Some MaxF else None)"

definition window_args :: "text_env \<Rightarrow> ustr list \<Rightarrow> (ustr \<times> bool) \<times> ustr list" where
  "window_args x ts =
     (let ts = skip_kw x ''BY'' (skip_kw x ''ORDER'' (skip_sym 40 (skip_kw x ''OVER'' (skip_sym 41 (skip_sym 40 ts)))));
          col = (case ts of t # _ \<Rightarrow> t | [] \<Rightarrow> []); d = direction x (tl ts)
      in ((col, fst d), skip_sym 41 (snd d)))"

definition agg_args :: "ustr list \<Rightarrow> ustr \<times> ustr list" where
  "agg_args ts = (let ts = skip_sym 40 ts in (case ts of t # _ \<Rightarrow> t | [] \<Rightarrow> [42], skip_sym 41 (tl ts)))"

lemma length_args: "length (snd (window_args x ts)) \<le> length ts" "length (snd (agg_args ts)) \<le> length ts"
proof -
  note s = length_skips(1,2) [THEN le_trans]
  have tl: "length (tl ts) \<le> length ts" for ts :: "ustr list" by simp
  show "length (snd (window_args x ts)) \<le> length ts"
    unfolding window_args_def Let_def snd_conv
    by (rule length_skips(1) [THEN le_trans], rule length_skips(3) [THEN le_trans], rule tl [THEN le_trans]) (intro s order_refl)
  show "length (snd (agg_args ts)) \<le> length ts"
    unfolding agg_args_def Let_def snd_conv
    by (rule length_skips(1) [THEN le_trans], rule tl [THEN le_trans], rule length_skips(1))
qed

definition named_column :: "ustr \<Rightarrow> SelectColumn" where
  "named_column t = (if 46 \<in> set t then Qualified (split_on 46 t ! 0) (split_on 46 t ! 1) else Named t)"

function select_columns :: "text_env \<Rightarrow> ustr list \<Rightarrow> SelectColumn list \<times> ustr list" where
  "select_columns x ts =
     (if ts = [] \<or> at_kw x ''FROM'' ts then ([], ts)
      else if at_sym 44 ts then select_columns x (tl ts)
      else if hd ts = [42] then apfst (Cons Star) (select_columns x (tl ts))
      else case window_func x (hd ts) of
        Some f \<Rightarrow>
          let q = window_args x (tl ts) in
          apfst (Cons (WindowFunc f (fst (fst q)) (snd (fst q)))) (select_columns x (snd q))
      | None \<Rightarrow>
          (case agg_func x (hd ts) of
             Some f \<Rightarrow> let q = agg_args (tl ts) in apfst (Cons (Aggregate f (fst q))) (select_columns x (snd q))
           | None \<Rightarrow> apfst (Cons (named_column (hd ts))) (select_columns x (tl ts))))"
  by pat_completeness auto
termination
  by (relation "measure (\<lambda>(x, ts). length ts)") (auto simp: neq_Nil_conv less_Suc_eq_le length_args)

declare select_columns.simps [simp del]

text \<open>The last part of a qualified name.\<close>

definition unqualified :: "ustr \<Rightarrow> ustr" where
  "unqualified t = last (split_on 46 t)"

definition from_clause :: "text_env \<Rightarrow> ustr \<Rightarrow> ustr list \<Rightarrow> (FromClause \<times> ustr list) pres" where
  "from_clause x left ts =
     (if at_kw x ''JOIN'' ts \<or> at_kw x ''INNER'' ts \<or> at_kw x ''LEFT'' ts \<or> at_kw x ''RIGHT'' ts then
        let (jt, ts) = (if at_kw x ''LEFT'' ts then (LeftJ, tl ts) else if at_kw x ''RIGHT'' ts then (RightJ, tl ts)
              else if at_kw x ''INNER'' ts then (Inner, tl ts) else (Inner, ts));
            ts = skip_kw x ''JOIN'' ts in
        pbind (next_token ''Missing right table'' ts) (\<lambda>(right, ts).
          if \<not> at_kw x ''ON'' ts then perror ''Expected ON after JOIN table''
          else pbind (next_token ''Missing join condition'' (tl ts)) (\<lambda>(l, ts).
            pbind (next_token ''Missing join right col'' (tl ts)) (\<lambda>(r, ts).
              pok (Join left right jt (unqualified l) (unqualified r), ts))))
      else pok (Table left, ts))"

fun group_columns :: "text_env \<Rightarrow> ustr list \<Rightarrow> ustr list \<times> ustr list" where
  "group_columns x [] = ([], [])"
| "group_columns x (t # ts) =
     (if at_kw x ''ORDER'' (t # ts) \<or> at_kw x ''LIMIT'' (t # ts) \<or> at_kw x ''HAVING'' (t # ts) then ([], t # ts)
      else let (cs, r) = group_columns x ts in (if t = [44] then cs else t # cs, r))"

function order_items :: "text_env \<Rightarrow> ustr list \<Rightarrow> OrderByItem list \<times> ustr list" where
  "order_items x ts =
     (if ts = [] \<or> at_kw x ''LIMIT'' ts then ([], ts)
      else if at_sym 44 ts then order_items x (tl ts)
      else let d = direction x (tl ts) in
        apfst (Cons \<lparr>ob_column = hd ts, ob_desc = fst d\<rparr>) (order_items x (snd d)))"
  by pat_completeness auto
termination
  by (relation "measure (\<lambda>(x, ts). length ts)") (auto simp: neq_Nil_conv less_Suc_eq_le length_skips)

declare order_items.simps [simp del]

definition number_clause :: "text_env \<Rightarrow> string \<Rightarrow> ustr list \<Rightarrow> (nat option \<times> ustr list) pres" where
  "number_clause x w ts =
     (if at_kw x w ts then
        pbind (next_token (''Missing '' @ w @ '' value'') (tl ts)) (\<lambda>(t, r).
          case parse_usize t of None \<Rightarrow> perror (''Invalid '' @ w) | Some n \<Rightarrow> pok (Some n, r))
      else pok (None, ts))"

definition parse_select_sql :: "text_env \<Rightarrow> (ustr \<Rightarrow> SqlStatement pres) \<Rightarrow> nat \<Rightarrow> ustr list \<Rightarrow> SqlStatement pres" where
  "parse_select_sql x sub n tokens =
     (let (cols, ts) = select_columns x (tl tokens) in
      if \<not> at_kw x ''FROM'' ts then perror ''Expected FROM''
      else pbind (next_token ''Missing table name'' (tl ts)) (\<lambda>(left, ts).
        pbind (from_clause x left ts) (\<lambda>(frm, ts).
        pbind (where_clause x sub n ''WHERE'' ts) (\<lambda>(wh, ts).
          let (grp, ts) = (if at_kw x ''GROUP'' ts then group_columns x (skip_kw x ''BY'' (tl ts)) else ([], ts)) in
        pbind (where_clause x sub n ''HAVING'' ts) (\<lambda>(hav, ts).
          let (ord, ts) = (if at_kw x ''ORDER'' ts then order_items x (skip_kw x ''BY'' (tl ts)) else ([], ts)) in
        pbind (number_clause x ''LIMIT'' ts) (\<lambda>(lim, ts).
        pbind (number_clause x ''OFFSET'' ts) (\<lambda>(off, ts).
          pok (Select cols frm wh grp hav ord lim off))))))))"

section \<open>UPDATE and DELETE\<close>

function assignments :: "text_env \<Rightarrow> ustr list \<Rightarrow> ((ustr \<times> SqlValue) list \<times> ustr list) pres" where
  "assignments x ts =
     (if ts = [] \<or> at_kw x ''WHERE'' ts then pok ([], ts)
      else if at_sym 44 ts then assignments x (tl ts)
      else case drop 2 ts of
        [] \<Rightarrow> perror ''Missing value''
      | v # r \<Rightarrow> pbind (parse_value x v) (\<lambda>val. pbind (assignments x r) (\<lambda>(as, r'). pok ((hd ts, val) # as, r'))))"
  by pat_completeness auto
termination
proof (relation "measure (\<lambda>(x, ts). length ts)", goal_cases)
  case (3 x ts v r val)
  then have "length (v # r) = length ts - 2" by (metis length_drop)
  then show ?case by simp
qed (auto simp: neq_Nil_conv)

declare assignments.simps [simp del]

definition parse_update_sql :: "text_env \<Rightarrow> (ustr \<Rightarrow> SqlStatement pres) \<Rightarrow> nat \<Rightarrow> ustr list \<Rightarrow> SqlStatement pres" where
  "parse_update_sql x sub n tokens =
     pbind (next_token ''Missing table name'' (tl tokens)) (\<lambda>(table, ts).
       if \<not> at_kw x ''SET'' ts then perror ''Expected SET after table name''
       else pbind (assignments x (tl ts)) (\<lambda>(as, ts).
         pbind (where_clause x sub n ''WHERE'' ts) (\<lambda>(wh, _). pok (Update table as wh))))"

definition parse_delete_sql :: "text_env \<Rightarrow> (ustr \<Rightarrow> SqlStatement pres) \<Rightarrow> nat \<Rightarrow> ustr list \<Rightarrow> SqlStatement pres" where
  "parse_delete_sql x sub n tokens =
     (if \<not> at_kw x ''FROM'' (tl tokens) then perror ''Expected FROM after DELETE''
      else pbind (next_token ''Missing table name'' (drop 2 tokens)) (\<lambda>(table, ts).
        pbind (where_clause x sub n ''WHERE'' ts) (\<lambda>(wh, _). pok (Delete table wh))))"

section \<open>Statements\<close>

definition set_op :: "text_env \<Rightarrow> ustr \<Rightarrow> SetOpType option" where
  "set_op x t = (if to_uppercase x t = us ''UNION'' then Some Union else if to_uppercase x t = us ''INTERSECT'' then Some Intersect
     else if to_uppercase x t = us ''EXCEPT'' then Some Except else None)"

text \<open>The tokens before the first set operation outside parentheses, the operation, and those after it.\<close>

fun find_set_op :: "text_env \<Rightarrow> int \<Rightarrow> ustr list \<Rightarrow> (ustr list \<times> SetOpType \<times> ustr list) option" where
  "find_set_op x depth [] = None"
| "find_set_op x depth (t # ts) =
     (let d = (if t = [40] then depth + 1 else if t = [41] then depth - 1 else depth) in
      case (if d = 0 then set_op x t else None) of
        Some op \<Rightarrow> Some ([], op, ts)
      | None \<Rightarrow> map_option (\<lambda>(l, op, r). (t # l, op, r)) (find_set_op x d ts))"

fun parse_sql :: "text_env \<Rightarrow> nat \<Rightarrow> ustr \<Rightarrow> SqlStatement pres" where
  "parse_sql x 0 input = None"
| "parse_sql x (Suc n) input =
     (let tokens = tokenize (trim_end_matches 59 (str_trim input)) in
      if tokens = [] then perror ''Empty query''
      else if at_kw x ''CREATE'' tokens then parse_create_table x tokens
      else if at_kw x ''DROP'' tokens then parse_drop_table x tokens
      else if at_kw x ''INSERT'' tokens then parse_insert_sql x tokens
      else if at_kw x ''SELECT'' tokens then
        (case find_set_op x 0 tokens of
           Some (l, op, r) \<Rightarrow>
             pbind (parse_sql x n (join l)) (\<lambda>left.
               pbind (parse_sql x n (join (skip_kw x ''ALL'' r))) (\<lambda>right. pok (SetOp op left right (at_kw x ''ALL'' r))))
         | None \<Rightarrow> parse_select_sql x (parse_sql x n) n tokens)
      else if at_kw x ''UPDATE'' tokens then parse_update_sql x (parse_sql x n) n tokens
      else if at_kw x ''DELETE'' tokens then parse_delete_sql x (parse_sql x n) n tokens
      else if at_kw x ''SHOW'' tokens then pok ShowTables
      else if at_kw x ''EXPLAIN'' tokens then
        if at_kw x ''ANALYZE'' (tl tokens) then pbind (parse_sql x n (join (drop 2 tokens))) (\<lambda>st. pok (ExplainAnalyze st))
        else pbind (parse_sql x n (join (tl tokens))) (\<lambda>st. pok (Explain st))
      else Some (Inl (Msg (us ''Unsupported: '' @ hd tokens))))"

end
