(* ===== verification/Sql_Bind.thy ===== *)
theory Sql_Bind
  imports Sql
begin

text \<open>
  Bound parameters: \<^verbatim>\<open>bind_statement_params\<close>, \<^verbatim>\<open>count_statement_params\<close> and the walk over the syntax tree
  they share. The walk takes the resolver as an argument; the counting resolver records the highest
  parameter in a cell, so a resolver reads and updates a state.

  The walk is specified by two functions on trees: \<open>phs\<close> lists the parameters of a statement in the order
  of the walk, \<open>fill\<close> replaces each by a value.
\<close>

section \<open>The walk\<close>

type_synonym ('s, 'a) act = "'s \<Rightarrow> (perr + 'a) \<times> 's"
type_synonym 's resolver = "nat \<Rightarrow> bool \<Rightarrow> ('s, SqlValue) act"

definition aret :: "'a \<Rightarrow> ('s, 'a) act" where
  "aret a s = (Inr a, s)"

definition abind :: "('s, 'a) act \<Rightarrow> ('a \<Rightarrow> ('s, 'b) act) \<Rightarrow> ('s, 'b) act" where
  "abind m f s = (case m s of (Inl e, s') \<Rightarrow> (Inl e, s') | (Inr a, s') \<Rightarrow> f a s')"

fun amap :: "('a \<Rightarrow> ('s, 'b) act) \<Rightarrow> 'a list \<Rightarrow> ('s, 'b list) act" where
  "amap f [] = aret []"
| "amap f (v # vs) = abind (f v) (\<lambda>w. abind (amap f vs) (\<lambda>ws. aret (w # ws)))"

definition bind_val :: "'s resolver \<Rightarrow> bool \<Rightarrow> SqlValue \<Rightarrow> ('s, SqlValue) act" where
  "bind_val resolve predicate v = (case v of Placeholder n \<Rightarrow> resolve n predicate | _ \<Rightarrow> aret v)"

function (sequential) bind_walk :: "'s resolver \<Rightarrow> SqlStatement \<Rightarrow> ('s, SqlStatement) act"
  and bind_where :: "'s resolver \<Rightarrow> WhereExpr \<Rightarrow> ('s, WhereExpr) act"
  and bind_expr :: "'s resolver \<Rightarrow> WhereExpr option \<Rightarrow> ('s, WhereExpr option) act" where
  "bind_walk f (Insert table columns rows) =
     abind (amap (amap (bind_val f False)) rows) (\<lambda>rows'. aret (Insert table columns rows'))"
| "bind_walk f (Select columns frm wh group_by hav order_by limit offset) =
     abind (bind_expr f wh) (\<lambda>wh'. abind (bind_expr f hav) (\<lambda>hav'.
       aret (Select columns frm wh' group_by hav' order_by limit offset)))"
| "bind_walk f (Update table as wh) =
     abind (amap (\<lambda>(col, v). abind (bind_val f False v) (\<lambda>v'. aret (col, v'))) as) (\<lambda>as'.
       abind (bind_expr f wh) (\<lambda>wh'. aret (Update table as' wh')))"
| "bind_walk f (Delete table wh) = abind (bind_expr f wh) (\<lambda>wh'. aret (Delete table wh'))"
| "bind_walk f (SetOp op left right alll) =
     abind (bind_walk f left) (\<lambda>l. abind (bind_walk f right) (\<lambda>r. aret (SetOp op l r alll)))"
| "bind_walk f (Explain st) = abind (bind_walk f st) (\<lambda>st'. aret (Explain st'))"
| "bind_walk f (ExplainAnalyze st) = abind (bind_walk f st) (\<lambda>st'. aret (ExplainAnalyze st'))"
| "bind_walk f st = aret st"
| "bind_where f (Comparison col op v) = abind (bind_val f True v) (\<lambda>v'. aret (Comparison col op v'))"
| "bind_where f (And l r) = abind (bind_where f l) (\<lambda>l'. abind (bind_where f r) (\<lambda>r'. aret (And l' r')))"
| "bind_where f (Or l r) = abind (bind_where f l) (\<lambda>l'. abind (bind_where f r) (\<lambda>r'. aret (Or l' r')))"
| "bind_where f (Not e) = abind (bind_where f e) (\<lambda>e'. aret (Not e'))"
| "bind_where f (In col vs) = abind (amap (bind_val f True) vs) (\<lambda>vs'. aret (In col vs'))"
| "bind_where f (InSubquery col st) = abind (bind_walk f st) (\<lambda>st'. aret (InSubquery col st'))"
| "bind_where f e = aret e"
| "bind_expr f None = aret None"
| "bind_expr f (Some e) = abind (bind_where f e) (\<lambda>e'. aret (Some e'))"
  by pat_completeness auto
termination
  by (relation "measure (\<lambda>a. case a of Inl (f, st) \<Rightarrow> size st | Inr (Inl (f, e)) \<Rightarrow> size e | Inr (Inr (f, e)) \<Rightarrow> size_option size e)") simp_all

section \<open>The resolvers\<close>

definition is_finite :: "u64 \<Rightarrow> bool" where
  "is_finite f \<longleftrightarrow> unat f div 2 ^ 52 mod 2048 \<noteq> 2047"

definition coerce_float :: "text_env \<Rightarrow> ustr \<Rightarrow> SqlValue" where
  "coerce_float x v =
     (case f64_of_str x v of Some f \<Rightarrow> if is_finite f \<and> f64_to_str x f = v then Float f else Text v | None \<Rightarrow> Text v)"

definition coerce_param :: "text_env \<Rightarrow> ustr \<Rightarrow> SqlValue" where
  "coerce_param x v =
     (case parse_signed 128 v of
        Some i \<Rightarrow> if show_int i = v then if - (2 ^ 63) \<le> i \<and> i \<le> 2 ^ 63 - 1 then Integer i else Text v else coerce_float x v
      | None \<Rightarrow> coerce_float x v)"

text \<open>The resolver of a Bind message: parameter \<open>n\<close> is the value at position \<open>n - 1\<close>. Subtracting from 0 panics.\<close>

definition param_value :: "text_env \<Rightarrow> ustr option list \<Rightarrow> bool \<Rightarrow> nat \<Rightarrow> perr + SqlValue" where
  "param_value x params predicate n =
     (if n = 0 then Inl Panicked
      else if n - 1 < length params then
        (case params ! (n - 1) of
           Some v \<Rightarrow> Inr (if predicate then coerce_param x v else Text v)
         | None \<Rightarrow> Inr Null)
      else Inl (Msg (us ''no value specified for parameter $'' @ show_nat n)))"

definition bind_statement_params :: "text_env \<Rightarrow> SqlStatement \<Rightarrow> ustr option list \<Rightarrow> perr + SqlStatement" where
  "bind_statement_params x st params = fst (bind_walk (\<lambda>n predicate s. (param_value x params predicate n, s)) st ())"

definition count_statement_params :: "text_env \<Rightarrow> nat \<Rightarrow> ustr \<Rightarrow> nat pres" where
  "count_statement_params x fuel sql =
     (case parse_sql x fuel (trim_end_matches 59 (str_trim sql)) of
        None \<Rightarrow> None
      | Some (Inl (Msg _)) \<Rightarrow> pok 0
      | Some (Inl Panicked) \<Rightarrow> Some (Inl Panicked)
      | Some (Inr st) \<Rightarrow> pok (snd (bind_walk (\<lambda>n predicate m. (Inr Null, max m n)) st 0)))"

section \<open>The parameters of a statement\<close>

definition val_phs :: "bool \<Rightarrow> SqlValue \<Rightarrow> (bool \<times> nat) list" where
  "val_phs p v = (case v of Placeholder n \<Rightarrow> [(p, n)] | _ \<Rightarrow> [])"

definition val_fill :: "(bool \<Rightarrow> nat \<Rightarrow> SqlValue) \<Rightarrow> bool \<Rightarrow> SqlValue \<Rightarrow> SqlValue" where
  "val_fill f p v = (case v of Placeholder n \<Rightarrow> f p n | _ \<Rightarrow> v)"

function (sequential) phs :: "SqlStatement \<Rightarrow> (bool \<times> nat) list"
  and where_phs :: "WhereExpr \<Rightarrow> (bool \<times> nat) list"
  and opt_phs :: "WhereExpr option \<Rightarrow> (bool \<times> nat) list" where
  "phs (Insert t cs rows) = concat (map (\<lambda>row. concat (map (val_phs False) row)) rows)"
| "phs (Select cs frm wh gb hav ob lim off) = opt_phs wh @ opt_phs hav"
| "phs (Update t as wh) = concat (map (\<lambda>a. val_phs False (snd a)) as) @ opt_phs wh"
| "phs (Delete t wh) = opt_phs wh"
| "phs (SetOp op l r al) = phs l @ phs r"
| "phs (Explain st) = phs st"
| "phs (ExplainAnalyze st) = phs st"
| "phs st = []"
| "where_phs (Comparison c op v) = val_phs True v"
| "where_phs (And l r) = where_phs l @ where_phs r"
| "where_phs (Or l r) = where_phs l @ where_phs r"
| "where_phs (Not e) = where_phs e"
| "where_phs (In c vs) = concat (map (val_phs True) vs)"
| "where_phs (InSubquery c st) = phs st"
| "where_phs e = []"
| "opt_phs None = []"
| "opt_phs (Some e) = where_phs e"
  by pat_completeness auto
termination
  by (relation "measure (\<lambda>a. case a of Inl st \<Rightarrow> size st | Inr (Inl e) \<Rightarrow> size e | Inr (Inr e) \<Rightarrow> size_option size e)") simp_all

function (sequential) fill :: "(bool \<Rightarrow> nat \<Rightarrow> SqlValue) \<Rightarrow> SqlStatement \<Rightarrow> SqlStatement"
  and where_fill :: "(bool \<Rightarrow> nat \<Rightarrow> SqlValue) \<Rightarrow> WhereExpr \<Rightarrow> WhereExpr"
  and opt_fill :: "(bool \<Rightarrow> nat \<Rightarrow> SqlValue) \<Rightarrow> WhereExpr option \<Rightarrow> WhereExpr option" where
  "fill f (Insert t cs rows) = Insert t cs (map (map (val_fill f False)) rows)"
| "fill f (Select cs frm wh gb hav ob lim off) = Select cs frm (opt_fill f wh) gb (opt_fill f hav) ob lim off"
| "fill f (Update t as wh) = Update t (map (apsnd (val_fill f False)) as) (opt_fill f wh)"
| "fill f (Delete t wh) = Delete t (opt_fill f wh)"
| "fill f (SetOp op l r al) = SetOp op (fill f l) (fill f r) al"
| "fill f (Explain st) = Explain (fill f st)"
| "fill f (ExplainAnalyze st) = ExplainAnalyze (fill f st)"
| "fill f st = st"
| "where_fill f (Comparison c op v) = Comparison c op (val_fill f True v)"
| "where_fill f (And l r) = And (where_fill f l) (where_fill f r)"
| "where_fill f (Or l r) = Or (where_fill f l) (where_fill f r)"
| "where_fill f (Not e) = Not (where_fill f e)"
| "where_fill f (In c vs) = In c (map (val_fill f True) vs)"
| "where_fill f (InSubquery c st) = InSubquery c (fill f st)"
| "where_fill f e = e"
| "opt_fill f None = None"
| "opt_fill f (Some e) = Some (where_fill f e)"
  by pat_completeness auto
termination
  by (relation "measure (\<lambda>a. case a of Inl (f, st) \<Rightarrow> size st | Inr (Inl (f, e)) \<Rightarrow> size e | Inr (Inr (f, e)) \<Rightarrow> size_option size e)") simp_all

section \<open>What the walk does\<close>

text \<open>A resolver that always answers.\<close>

definition answers :: "'s resolver \<Rightarrow> (bool \<Rightarrow> nat \<Rightarrow> SqlValue) \<Rightarrow> (nat \<Rightarrow> 's \<Rightarrow> 's) \<Rightarrow> bool" where
  "answers res v u \<longleftrightarrow> (\<forall>n p s. res n p s = (Inr (v p n), u n s))"

abbreviation after :: "(nat \<Rightarrow> 's \<Rightarrow> 's) \<Rightarrow> (bool \<times> nat) list \<Rightarrow> 's \<Rightarrow> 's" where
  "after u ps s \<equiv> fold u (map snd ps) s"

lemma abind_ok [simp]: "m s = (Inr a, s') \<Longrightarrow> abind m f s = f a s'"
  and abind_err: "m s = (Inl e, s') \<Longrightarrow> abind m f s = (Inl e, s')"
  and aret_apply [simp]: "aret a s = (Inr a, s)"
  by (simp_all add: abind_def aret_def)

lemma bind_val_answers: "answers res v u \<Longrightarrow> bind_val res p w s = (Inr (val_fill v p w), after u (val_phs p w) s)"
  by (cases w) (simp_all add: bind_val_def val_fill_def val_phs_def answers_def)

lemma amap_answers:
  "(\<And>a s. f a s = (Inr (h a), after u (ps a) s)) \<Longrightarrow>
     amap f as s = (Inr (map h as), after u (concat (map ps as)) s)"
  by (induction as arbitrary: s) simp_all

lemma walk_answers:
  fixes res :: "'s resolver"
  shows "answers res v u \<Longrightarrow> bind_walk res st s = (Inr (fill v st), after u (phs st) s)"
    and "answers res v u \<Longrightarrow> bind_where res e s = (Inr (where_fill v e), after u (where_phs e) s)"
    and "answers res v u \<Longrightarrow> bind_expr res w s = (Inr (opt_fill v w), after u (opt_phs w) s)"
proof (induction res st and res e and res w arbitrary: s and s and s rule: bind_walk_bind_where_bind_expr.induct)
  case (1 f table columns rows)
  then show ?case by (simp add: amap_answers [OF amap_answers [OF bind_val_answers]])
next
  case (3 f table as wh)
  have "amap (\<lambda>(col, v). abind (bind_val f False v) (\<lambda>v'. aret (col, v'))) as s =
      (Inr (map (apsnd (val_fill v False)) as), after u (concat (map (\<lambda>a. val_phs False (snd a)) as)) s)" for s
    by (rule amap_answers) (auto simp: bind_val_answers [OF 3(2)])
  with 3 show ?case by simp
next
  case (9 f col op v)
  then show ?case by (simp add: bind_val_answers)
next
  case (13 f col vs)
  then show ?case by (simp add: amap_answers [OF bind_val_answers])
qed simp_all

text \<open>A resolver that may fail: the walk returns the error of the first parameter without a value.\<close>

fun checked :: "(bool \<Rightarrow> nat \<Rightarrow> perr + SqlValue) \<Rightarrow> (bool \<times> nat) list \<Rightarrow> 'a \<Rightarrow> perr + 'a" where
  "checked g [] a = Inr a"
| "checked g (pn # ps) a = (case g (fst pn) (snd pn) of Inl e \<Rightarrow> Inl e | Inr _ \<Rightarrow> checked g ps a)"

definition looks_up :: "'s resolver \<Rightarrow> (bool \<Rightarrow> nat \<Rightarrow> perr + SqlValue) \<Rightarrow> bool" where
  "looks_up res g \<longleftrightarrow> (\<forall>n p s. res n p s = (g p n, s))"

abbreviation found :: "(bool \<Rightarrow> nat \<Rightarrow> perr + SqlValue) \<Rightarrow> bool \<Rightarrow> nat \<Rightarrow> SqlValue" where
  "found g \<equiv> \<lambda>p n. projr (g p n)"

lemma abind_checked:
  "m s = (checked g ps a, s) \<Longrightarrow> f a s = (checked g qs b, s) \<Longrightarrow> abind m f s = (checked g (ps @ qs) b, s)"
proof (induction ps arbitrary: m)
  case Nil
  then show ?case by simp
next
  case (Cons pn ps)
  show ?case
  proof (cases "g (fst pn) (snd pn)")
    case (Inl e)
    with Cons(2) show ?thesis by (simp add: abind_err)
  next
    case (Inr v)
    with Cons show ?thesis by simp
  qed
qed

lemma abind_checked_ret: "m s = (checked g ps a, s) \<Longrightarrow> abind m (\<lambda>a. aret (h a)) s = (checked g ps (h a), s)"
  using abind_checked [of m s g ps a "\<lambda>a. aret (h a)" "[]" "h a"] by simp

lemma bind_val_looks_up:
  "looks_up res g \<Longrightarrow> bind_val res p w s = (checked g (val_phs p w) (val_fill (found g) p w), s)"
  by (cases w) (auto simp: bind_val_def val_fill_def val_phs_def looks_up_def split: sum.split)

lemma amap_looks_up:
  assumes "\<And>a. f a s = (checked g (ps a) (h a), s)"
  shows "amap f as s = (checked g (concat (map ps as)) (map h as), s)"
  by (induction as) (auto intro!: abind_checked abind_checked_ret assms)

lemma walk_looks_up:
  fixes res :: "'s resolver"
  shows "looks_up res g \<Longrightarrow> bind_walk res st s = (checked g (phs st) (fill (found g) st), s)"
    and "looks_up res g \<Longrightarrow> bind_where res e s = (checked g (where_phs e) (where_fill (found g) e), s)"
    and "looks_up res g \<Longrightarrow> bind_expr res w s = (checked g (opt_phs w) (opt_fill (found g) w), s)"
proof (induction res st and res e and res w arbitrary: s and s and s rule: bind_walk_bind_where_bind_expr.induct)
  case (1 f table columns rows)
  then show ?case by (auto intro!: abind_checked_ret amap_looks_up bind_val_looks_up)
next
  case (3 f table as wh)
  have "amap (\<lambda>(col, v). abind (bind_val f False v) (\<lambda>v'. aret (col, v'))) as s =
      (checked g (concat (map (\<lambda>a. val_phs False (snd a)) as)) (map (apsnd (val_fill (found g) False)) as), s)"
    by (rule amap_looks_up) (auto intro!: abind_checked_ret bind_val_looks_up 3)
  with 3 show ?case by (auto intro!: abind_checked abind_checked_ret)
next
  case (9 f col op v)
  then show ?case by (auto intro!: abind_checked_ret bind_val_looks_up)
next
  case (13 f col vs)
  then show ?case by (auto intro!: abind_checked_ret amap_looks_up bind_val_looks_up)
qed (auto intro!: abind_checked abind_checked_ret)

lemma bind_statement_params_spec:
  "bind_statement_params x st params = checked (param_value x params) (phs st) (fill (found (param_value x params)) st)"
  unfolding bind_statement_params_def by (simp add: walk_looks_up [where g = "param_value x params"] looks_up_def)

lemma count_spec:
  assumes "parse_sql x fuel (trim_end_matches 59 (str_trim sql)) = Some (Inr st)"
  shows "count_statement_params x fuel sql = pok (fold max (map snd (phs st)) 0)"
proof -
  have "answers (\<lambda>n p m. (Inr Null, max m n)) (\<lambda>p n. Null) (\<lambda>n m. max m n)" by (simp add: answers_def)
  from walk_answers(1) [OF this] assms show ?thesis
    unfolding count_statement_params_def by (simp add: max.commute)
qed

text \<open>A filled statement has no parameter left, and differs from the statement in its values only.\<close>

definition closed_value :: "SqlValue \<Rightarrow> bool" where
  "closed_value v \<longleftrightarrow> (\<forall>p. val_phs p v = [])"

lemma val_fill_closed: "(\<And>p n. (p, n) \<in> set (val_phs q v) \<Longrightarrow> closed_value (f p n)) \<Longrightarrow> val_phs q (val_fill f q v) = []"
  by (cases v) (auto simp: val_fill_def val_phs_def closed_value_def)

lemma fill_closed:
  "(\<And>p n. (p, n) \<in> set (phs st) \<Longrightarrow> closed_value (f p n)) \<Longrightarrow> phs (fill f st) = []"
  "(\<And>p n. (p, n) \<in> set (where_phs e) \<Longrightarrow> closed_value (f p n)) \<Longrightarrow> where_phs (where_fill f e) = []"
  "(\<And>p n. (p, n) \<in> set (opt_phs w) \<Longrightarrow> closed_value (f p n)) \<Longrightarrow> opt_phs (opt_fill f w) = []"
  by (induction st and e and w rule: phs_where_phs_opt_phs.induct) (auto intro!: val_fill_closed)

end
