(* ===== verification/Sql_Parse.thy ===== *)
theory Sql_Parse
  imports Sql_Bind "HOL-Library.Sublist"
begin

text \<open>
  What the parser of \<^verbatim>\<open>query/sql.rs\<close> guarantees: it returns on every input, it does not panic, its result
  does not depend on the fuel once there is enough of it, the tokens it prints for a second parse are read
  back as they were, and the statements it returns can be bound.

  The measure of the recursion is the number of characters of the input that are not white space: a
  second parse leaves out a keyword of the first.
\<close>

section \<open>Results of the parsers\<close>

text \<open>A result that is not a panic and whose value has a property; with \<open>c\<close>, also one that is not for want of fuel.\<close>

definition good :: "bool \<Rightarrow> ('a \<Rightarrow> bool) \<Rightarrow> 'a pres \<Rightarrow> bool" where
  "good c P r \<longleftrightarrow> (case r of None \<Rightarrow> \<not> c | Some (Inl e) \<Rightarrow> e \<noteq> Panicked | Some (Inr a) \<Rightarrow> P a)"

lemma good_simps [simp]: "good c P None \<longleftrightarrow> \<not> c" "good c P (Some (Inl e)) \<longleftrightarrow> e \<noteq> Panicked" "good c P (Some (Inr a)) \<longleftrightarrow> P a"
  by (simp_all add: good_def)

lemma good_bind: "good c P m \<Longrightarrow> (\<And>a. P a \<Longrightarrow> good c Q (f a)) \<Longrightarrow> good c Q (pbind m f)"
  by (cases m; cases "the m") auto

lemma good_mono: "good c P m \<Longrightarrow> (\<And>a. P a \<Longrightarrow> Q a) \<Longrightarrow> good c Q m"
  by (auto simp: good_def split: option.splits sum.splits)

text \<open>A result that is the same as another unless the fuel ran out.\<close>

definition upto_fuel :: "'a pres \<Rightarrow> 'a pres \<Rightarrow> bool" where
  "upto_fuel r r' \<longleftrightarrow> r = None \<or> r = r'"

lemma upto_refl [simp]: "upto_fuel r r" "upto_fuel None r"
  by (simp_all add: upto_fuel_def)

lemma upto_bind: "upto_fuel m m' \<Longrightarrow> (\<And>a. upto_fuel (f a) (f' a)) \<Longrightarrow> upto_fuel (pbind m f) (pbind m' f')"
  by (auto simp: upto_fuel_def pbind_def split: option.splits sum.splits)

section \<open>The weight of a text\<close>

definition nw :: "ustr \<Rightarrow> nat" where
  "nw s = length (filter (\<lambda>c. \<not> is_whitespace c) s)"

abbreviation weight :: "ustr list \<Rightarrow> nat" where
  "weight ts \<equiv> sum_list (map nw ts)"

lemma nw_simps [simp]: "nw [] = 0" "nw (c # s) = (if is_whitespace c then nw s else Suc (nw s))" "nw (s @ t) = nw s + nw t"
  by (simp_all add: nw_def)

lemma space [simp]: "is_whitespace 32" "\<not> is_whitespace 39" "\<not> is_whitespace 40" "\<not> is_whitespace 41" "\<not> is_whitespace 42"
    "\<not> is_whitespace 44" "\<not> is_whitespace 33" "\<not> is_whitespace 60" "\<not> is_whitespace 61" "\<not> is_whitespace 62"
  by (simp_all add: is_whitespace_def)

lemma nw_join: "nw (join ts) = weight ts"
  by (induction ts rule: join.induct) simp_all

lemma nw_trim: "nw (trim_end_matches c (str_trim s)) \<le> nw s"
proof -
  have d: "nw (dropWhile P s) \<le> nw s" for P s by (induction s) auto
  have r: "nw (rev s) = nw s" for s by (simp add: nw_def flip: rev_filter)
  show ?thesis unfolding trim_end_matches_def str_trim_def using d r by (metis le_trans)
qed

lemma weight_flush [simp]: "weight (flush cur) = nw cur"
  by (simp add: flush_def)

lemma weight_starts: "starts c cs \<Longrightarrow> \<not> is_whitespace c \<Longrightarrow> nw cs = Suc (nw (tl cs))"
  by (cases cs) (auto simp: starts_def)

lemma weight_tokens: "weight (tokens_from b cur s) \<le> nw cur + nw s + (if b then 1 else 0)"
proof (induction b cur s rule: tokens_from.induct)
  case (2 cur c cs)
  show ?case using 2 by (auto simp: quoted_def weight_starts)
next
  case (3 cur c cs)
  show ?case using 3 by (auto simp: weight_starts)
qed simp

section \<open>Tokens\<close>

text \<open>A token is a word, a symbol or a quoted string in which every quote is doubled.\<close>

definition special :: "nat \<Rightarrow> bool" where
  "special c \<longleftrightarrow> c \<in> {39, 40, 41, 42, 44, 60, 61, 62} \<or> is_whitespace c"

definition word_chars :: "ustr \<Rightarrow> bool" where
  "word_chars t \<longleftrightarrow> list_all (\<lambda>c. \<not> special c) t"

fun balanced :: "ustr \<Rightarrow> bool" where
  "balanced [] = True"
| "balanced (c # cs) = (if c = 39 then (case cs of d # ds \<Rightarrow> d = 39 \<and> balanced ds | [] \<Rightarrow> False) else balanced cs)"

definition symbols :: "ustr list" where
  "symbols = [[40], [41], [44], [42], [33, 61], [60, 61], [62, 61], [60, 62], [60], [62], [61]]"

definition wf_token :: "ustr \<Rightarrow> bool" where
  "wf_token t \<longleftrightarrow> t \<noteq> [] \<and> word_chars t \<or> t \<in> set symbols \<or> (\<exists>s. t = quoted s \<and> balanced s)"

lemma balanced_append [simp]: "balanced s \<Longrightarrow> balanced (s @ t) = balanced t"
proof (induction s rule: balanced.induct)
  case (2 c cs)
  then show ?case by (cases cs; cases "c = 39") auto
qed simp

lemma word_chars_simps [simp]: "word_chars []" "word_chars (c # s) \<longleftrightarrow> \<not> special c \<and> word_chars s"
    "word_chars (s @ t) \<longleftrightarrow> word_chars s \<and> word_chars t"
  by (simp_all add: word_chars_def)

lemma wf_flush: "word_chars cur \<Longrightarrow> t \<in> set (flush cur) \<Longrightarrow> wf_token t"
  by (auto simp: flush_def wf_token_def split: if_splits)

lemma wf_symbols [simp]: "wf_token [40]" "wf_token [41]" "wf_token [44]" "wf_token [42]" "wf_token [33, 61]" "wf_token [60, 61]"
    "wf_token [62, 61]" "wf_token [60, 62]" "wf_token [60]" "wf_token [62]" "wf_token [61]"
  by (simp_all add: wf_token_def symbols_def)

lemma wf_quoted: "balanced s \<Longrightarrow> wf_token (quoted s)"
  by (auto simp: wf_token_def)

text \<open>The tokens of a text, read from inside or outside a string. Only a string that is not closed gives
  another kind of token.\<close>

definition open_end :: "bool \<Rightarrow> ustr \<Rightarrow> bool" where
  "open_end b s \<longleftrightarrow> b = even (count_list s 39)"

lemma count_starts: "starts c cs \<Longrightarrow> count_list cs d = (if c = d then Suc (count_list (tl cs) d) else count_list (tl cs) d)"
  by (cases cs) (auto simp: starts_def)

lemma startsE: "starts c cs \<Longrightarrow> (\<And>ds. cs = c # ds \<Longrightarrow> P) \<Longrightarrow> P"
  by (cases cs) (auto simp: starts_def)

lemma outside_cases:
  obtains (quote) "c = 39" "tokens_from False cur (c # cs) = flush cur @ tokens_from True [] cs"
  | (symbol) t ds where "t \<in> set symbols" "c # cs = t @ ds" "tokens_from False cur (c # cs) = flush cur @ t # tokens_from False [] ds"
  | (space) "is_whitespace c" "tokens_from False cur (c # cs) = flush cur @ tokens_from False [] cs"
  | (word) "\<not> special c" "tokens_from False cur (c # cs) = tokens_from False (cur @ [c]) cs"
proof -
  consider "c = 39" | "c \<in> {40, 41, 44, 42}" | "c = 33" "starts 61 cs" | "c = 60 \<or> c = 62" | "c = 61"
    | "is_whitespace c"
    | "\<not> is_whitespace c" "c \<notin> {39, 40, 41, 44, 42, 60, 61, 62}" "\<not> (c = 33 \<and> starts 61 cs)"
    by (cases "is_whitespace c") auto
  then show ?thesis
  proof cases
    case 1
    then show ?thesis using quote by simp
  next
    case 2
    then show ?thesis using symbol [of "[c]" cs] by (auto simp: symbols_def)
  next
    case 3
    from 3(2) obtain ds where "cs = 61 # ds" by (rule startsE)
    with 3 show ?thesis using symbol [of "[33, 61]" ds] by (simp add: symbols_def)
  next
    case 4
    have n: "c \<noteq> 39 \<and> c \<notin> {40, 41, 44, 42} \<and> c \<noteq> 33" using 4 by auto
    consider "starts 61 cs" | "\<not> starts 61 cs" "starts 62 cs \<and> c = 60" | "\<not> starts 61 cs" "\<not> (starts 62 cs \<and> c = 60)" by blast
    then show ?thesis
    proof cases
      case 1
      then obtain ds where "cs = 61 # ds" by (rule startsE)
      with 1 4 n show ?thesis using symbol [of "[c, 61]" ds] by (auto simp: symbols_def)
    next
      case 2
      from 2(2) obtain ds where "cs = 62 # ds" by (auto elim: startsE)
      with 2 show ?thesis using symbol [of "[60, 62]" ds] by (simp add: symbols_def)
    next
      case 3
      with 4 n show ?thesis using symbol [of "[c]" cs] by (auto simp: symbols_def)
    qed
  next
    case 5
    then show ?thesis using symbol [of "[61]" cs] by (simp add: symbols_def)
  next
    case 6
    then have "c \<notin> {39, 40, 41, 44, 42, 33, 60, 61, 62}" by (auto simp: is_whitespace_def)
    with 6 show ?thesis using space by simp
  next
    case 7
    then show ?thesis using word by (auto simp: special_def)
  qed
qed

lemma symbol_quotes: "t \<in> set symbols \<Longrightarrow> count_list t 39 = 0" "t \<in> set symbols \<Longrightarrow> wf_token t" "t \<in> set symbols \<Longrightarrow> nw t = length t"
    "t \<in> set symbols \<Longrightarrow> t \<noteq> []"
  by (auto simp: symbols_def)

text \<open>Induction along the tokenizer.\<close>

lemma tokens_induct [case_names finish escape close inside quote symbol space word]:
  assumes finish: "\<And>b cur. P b cur []"
    and escape: "\<And>cur cs. P True (cur @ [39, 39]) cs \<Longrightarrow> P True cur (39 # 39 # cs)"
    and close: "\<And>cur cs. \<not> starts 39 cs \<Longrightarrow> P False [] cs \<Longrightarrow> P True cur (39 # cs)"
    and inside: "\<And>cur c cs. c \<noteq> 39 \<Longrightarrow> P True (cur @ [c]) cs \<Longrightarrow> P True cur (c # cs)"
    and quote: "\<And>cur cs. P True [] cs \<Longrightarrow> P False cur (39 # cs)"
    and symbol: "\<And>cur t ds. t \<in> set symbols \<Longrightarrow> tokens_from False cur (t @ ds) = flush cur @ t # tokens_from False [] ds \<Longrightarrow>
      P False [] ds \<Longrightarrow> P False cur (t @ ds)"
    and space: "\<And>cur c cs. is_whitespace c \<Longrightarrow> tokens_from False cur (c # cs) = flush cur @ tokens_from False [] cs \<Longrightarrow>
      P False [] cs \<Longrightarrow> P False cur (c # cs)"
    and word: "\<And>cur c cs. \<not> special c \<Longrightarrow> tokens_from False cur (c # cs) = tokens_from False (cur @ [c]) cs \<Longrightarrow>
      P False (cur @ [c]) cs \<Longrightarrow> P False cur (c # cs)"
  shows "P b cur s"
proof (induction s arbitrary: b cur rule: length_induct)
  case (1 s)
  then have IH: "length s' < length s \<Longrightarrow> P b' cur' s'" for b' cur' s' by blast
  show ?case
  proof (cases s)
    case Nil
    then show ?thesis by (simp add: finish)
  next
    case s: (Cons c cs)
    show ?thesis
    proof (cases b)
      case True
      have "P True cur (39 # cs)" if "starts 39 cs" "c = 39"
        using that(1)
      proof (rule startsE)
        fix ds
        assume "cs = 39 # ds"
        with s that(2) show ?thesis using escape [of cur ds] IH [of ds True "cur @ [39, 39]"] by simp
      qed
      with s True show ?thesis using close [of cs cur] inside [of c cur cs] IH [of cs] by (cases "c = 39") auto
    next
      case False
      show ?thesis
      proof (cases c cur cs rule: outside_cases)
        case (symbol t ds)
        then have "length ds < length s" using s symbol_quotes(4) [OF symbol(1)]
          by (metis append_eq_Cons_conv length_append less_add_same_cancel2 length_greater_0_conv)
        with symbol s False assms(6) [of t cur ds] IH [of ds False "[]"] show ?thesis by metis
      qed (use s False IH [of cs] assms(5) [of cs cur] assms(7,8) [of c cur cs] in auto)
    qed
  qed
qed

lemma tokens_kinds:
  assumes "if b then balanced cur else word_chars cur" and "t \<in> set (tokens_from b cur s)"
  shows "wf_token t \<or> open_end b s \<and> balanced t"
  using assms
proof (induction b cur s rule: tokens_induct)
  case (finish b cur)
  then show ?case by (cases b) (auto simp: open_end_def flush_def wf_token_def split: if_splits)
next
  case (escape cur cs)
  then show ?case by (auto simp: open_end_def starts_def)
next
  case (symbol cur u ds)
  then show ?case using wf_flush [of cur t] by (auto simp: open_end_def symbol_quotes)
next
  case (word cur c cs)
  then show ?case by (auto simp: open_end_def special_def)
qed (use wf_flush in \<open>auto simp: open_end_def wf_quoted\<close>)

lemma tokens_not_quote: "t \<in> set (tokenize s) \<Longrightarrow> t \<noteq> [39]"
  using tokens_kinds [of False "[]" t s] by (auto simp: tokenize_def wf_token_def symbols_def quoted_def special_def)

lemma tokens_length: "b \<or> word_chars cur \<Longrightarrow> length (tokens_from b cur s) \<le> Suc (weight (tokens_from b cur s))"
proof (induction b cur s rule: tokens_induct)
  case (escape cur cs)
  then show ?case by (simp add: starts_def)
next
  case (symbol cur t ds)
  have "length (flush cur) \<le> nw cur" using symbol(4) by (cases cur) (auto simp: flush_def special_def)
  moreover have "Suc 0 \<le> length t" using symbol_quotes(4) [OF symbol(1)] by (cases t) auto
  ultimately show ?case using symbol by (simp add: symbol_quotes)
qed (auto simp: flush_def quoted_def special_def neq_Nil_conv intro!: le_SucI)

text \<open>A token followed by a space, or by nothing, is read back.\<close>

definition separator :: "ustr \<Rightarrow> bool" where
  "separator rest \<longleftrightarrow> rest = [] \<or> starts 32 rest"

lemma separator_starts: "separator rest \<Longrightarrow> c \<noteq> 32 \<Longrightarrow> \<not> starts c rest"
  by (auto simp: separator_def starts_def split: list.splits)

lemma read_flush: "separator rest \<Longrightarrow> tokens_from False cur rest = flush cur @ tokens_from False [] rest"
  by (cases rest) (auto simp: separator_def starts_def flush_def)

lemma read_word: "word_chars t \<Longrightarrow> separator rest \<Longrightarrow> tokens_from False cur (t @ rest) = tokens_from False (cur @ t) rest"
proof (induction t arbitrary: cur)
  case (Cons c t)
  have "\<not> starts 61 (t @ rest)" using Cons(2,3) separator_starts [of rest 61]
    by (cases t) (auto simp: starts_def special_def)
  then show ?case using Cons by (simp add: special_def)
qed simp

lemma read_string: "balanced s \<Longrightarrow> \<not> starts 39 rest \<Longrightarrow> tokens_from True cur (s @ 39 # rest) = quoted (cur @ s) # tokens_from False [] rest"
proof (induction s arbitrary: cur rule: balanced.induct)
  case (2 c cs)
  then show ?case by (cases cs; cases "c = 39") (auto simp: starts_def)
qed simp

lemma read_token:
  assumes "wf_token t" "separator rest"
  shows "tokens_from False [] (t @ rest) = t # tokens_from False [] rest"
  using assms(1)[unfolded wf_token_def]
proof (elim disjE conjE exE)
  assume "t \<noteq> []" "word_chars t"
  with assms(2) show ?thesis using read_word [of t rest "[]"] read_flush [of rest t] by (simp add: flush_def)
next
  assume "t \<in> set symbols"
  then show ?thesis
    using separator_starts [OF assms(2), of 61] separator_starts [OF assms(2), of 62]
    by (auto simp: symbols_def flush_def starts_def)
next
  fix s assume "t = quoted s" "balanced s"
  with separator_starts [OF assms(2), of 39] show ?thesis by (simp add: quoted_def read_string flush_def)
qed

lemma read_join: "list_all wf_token ts \<Longrightarrow> tokenize (join ts) = ts"
proof (induction ts rule: join.induct)
  case (2 t)
  then show ?case using read_token [of t "[]"] by (simp add: tokenize_def separator_def flush_def)
next
  case (3 t u us)
  then show ?case using read_token [of t "32 # join (u # us)"]
    by (simp add: tokenize_def separator_def starts_def flush_def)
qed (simp add: tokenize_def flush_def)

section \<open>The parser leaves a suffix of the tokens\<close>

lemma suffix_tl_I: "suffix r (tl ts) \<Longrightarrow> suffix r ts"
  by (cases ts) (auto simp: suffix_ConsI)

lemma suffix_tl: "suffix (tl ts) ts"
  by (rule suffix_tl_I) simp

lemma suffix_skips: "suffix (skip_sym c ts) ts" "suffix (skip_kw x w ts) ts" "suffix (snd (direction x ts)) ts"
  by (auto simp: skip_sym_def skip_kw_def direction_def suffix_tl)

lemma suffix_until_close: "suffix (snd (until_close ts)) ts"
  by (induction ts) (auto split: prod.split intro: suffix_ConsI)

lemma split_sub_append: "split_sub d ts = (q, r) \<Longrightarrow> ts = q @ r"
  by (induction ts arbitrary: d q) (auto simp: Let_def split: if_splits prod.splits)

lemma suffix_weight: "suffix r ts \<Longrightarrow> weight r \<le> weight ts" "suffix r ts \<Longrightarrow> length r \<le> length ts" "suffix r ts \<Longrightarrow> set r \<subseteq> set ts"
  by (auto simp: suffix_def)

section \<open>The parser returns\<close>

definition numbered :: "(bool \<times> nat) list \<Rightarrow> bool" where
  "numbered ps \<longleftrightarrow> list_all (\<lambda>pn. 1 \<le> snd pn) ps"

lemma numbered_simps [simp]: "numbered []" "numbered (ps @ qs) \<longleftrightarrow> numbered ps \<and> numbered qs" "numbered (concat pss) \<longleftrightarrow> list_all numbered pss"
  by (auto simp: numbered_def list_all_iff)

definition val_ok :: "SqlValue \<Rightarrow> bool" where
  "val_ok v \<longleftrightarrow> (\<forall>p. numbered (val_phs p v))"

lemma val_ok_simps [simp]: "val_ok (Text s)" "val_ok (Integer i)" "val_ok (Float f)" "val_ok (Boolean b)" "val_ok Null"
    "val_ok (Placeholder n) \<longleftrightarrow> 1 \<le> n"
  by (auto simp: val_ok_def val_phs_def numbered_def)

definition no_quote :: "ustr list \<Rightarrow> bool" where
  "no_quote ts \<longleftrightarrow> [39] \<notin> set ts"

lemma no_quote_suffix: "suffix r ts \<Longrightarrow> no_quote ts \<Longrightarrow> no_quote r"
  using suffix_weight(3) by (auto simp: no_quote_def)

text \<open>White space has no upper case but itself.\<close>

definition plain_space :: "text_env \<Rightarrow> bool" where
  "plain_space x \<longleftrightarrow> (\<forall>c. is_whitespace c \<longrightarrow> upper_char x c = [c])"

lemma keyword_weight: "plain_space x \<Longrightarrow> to_uppercase x t = us w \<Longrightarrow> 0 < nw (us w) \<Longrightarrow> 1 \<le> nw t"
proof (rule ccontr)
  assume a: "plain_space x" "to_uppercase x t = us w" "0 < nw (us w)" "\<not> 1 \<le> nw t"
  then have "nw t = 0" by linarith
  then have "list_all is_whitespace t" by (simp add: nw_def filter_empty_conv list_all_iff)
  then have "to_uppercase x t = t" using a(1) by (induction t) (auto simp: to_uppercase_def plain_space_def)
  with a show False by simp
qed

lemma keyword_nw [simp]: "0 < nw (us ''IN'')" "0 < nw (us ''EXPLAIN'')" "0 < nw (us ''UNION'')" "0 < nw (us ''INTERSECT'')" "0 < nw (us ''EXCEPT'')"
  by (simp_all add: us_def of_char_Char horner_sum_simps is_whitespace_def)

lemma parse_value_good: "t \<noteq> [39] \<Longrightarrow> good c val_ok (parse_value x t)"
proof -
  assume t: "t \<noteq> [39]"
  have "\<not> (starts 39 t \<and> last t = 39 \<and> length t < 2)"
    using t by (cases t) (auto simp: starts_def)
  then have "good c val_ok (parse_literal x t)"
    by (auto simp: parse_literal_def split: option.splits)
  then show ?thesis by (auto simp: parse_value_def split: option.splits)
qed

lemma parse_values_good: "no_quote ts \<Longrightarrow> good c (list_all val_ok) (parse_values x ts)"
  by (induction ts) (auto simp: no_quote_def intro!: good_bind [OF parse_value_good] good_bind [where P = "list_all val_ok"])

lemma until_close_sub: "set (fst (until_close ts)) \<subseteq> set ts"
  by (induction ts) (auto split: prod.split if_splits)

lemma next_token_good: "good c (\<lambda>(t, r). ts = t # r) (next_token m ts)"
  by (cases ts) (auto simp: next_token_def)

lemma where_comparison_good:
  "no_quote ts \<Longrightarrow> good c (\<lambda>(e, r). numbered (where_phs e) \<and> suffix r ts) (where_comparison x col ts)"
  by (auto simp: where_comparison_def no_quote_def val_ok_def suffix_ConsI split: list.splits option.splits
      intro!: good_bind [OF parse_value_good])

lemma where_column_suffix: "suffix (snd (where_column x t r)) r"
  unfolding where_column_def Let_def
  by (auto intro: suffix_tl suffix_order.trans [OF suffix_skips(1)] suffix_order.trans [OF suffix_tl suffix_tl])

text \<open>The parser of subqueries, for texts lighter than \<open>W\<close>.\<close>

definition sub_good :: "bool \<Rightarrow> nat \<Rightarrow> (ustr \<Rightarrow> SqlStatement pres) \<Rightarrow> bool" where
  "sub_good c W sub \<longleftrightarrow> (\<forall>q. (c \<longrightarrow> weight q < W) \<longrightarrow> good c (\<lambda>st. numbered (phs st)) (sub (join q)))"

definition fits_tokens :: "bool \<Rightarrow> nat \<Rightarrow> ustr list \<Rightarrow> bool" where
  "fits_tokens c W ts \<longleftrightarrow> no_quote ts \<and> (c \<longrightarrow> weight ts \<le> W)"

lemma fits_suffix: "fits_tokens c W ts \<Longrightarrow> suffix r ts \<Longrightarrow> fits_tokens c W r"
  using no_quote_suffix suffix_weight(1) [of r ts] by (auto simp: fits_tokens_def)

lemma where_condition_good:
  assumes sub: "sub_good c W sub" and x: "c \<longrightarrow> plain_space x" and ts: "fits_tokens c W ts"
  shows "good c (\<lambda>(e, r). numbered (where_phs e) \<and> suffix r ts) (where_condition x sub col ts)"
proof -
  define vs where "vs = skip_sym 40 (tl ts)"
  have vs: "suffix vs ts" unfolding vs_def by (rule suffix_order.trans [OF suffix_skips(1) suffix_tl])
  consider "at_kw x ''IS'' ts" | "\<not> at_kw x ''IS'' ts" "at_kw x ''IN'' ts" "at_kw x ''SELECT'' vs"
    | "\<not> at_kw x ''IS'' ts" "at_kw x ''IN'' ts" "\<not> at_kw x ''SELECT'' vs" | "\<not> at_kw x ''IS'' ts" "\<not> at_kw x ''IN'' ts"
    by blast
  then show ?thesis
  proof cases
    case 1
    then show ?thesis by (simp add: where_condition_def suffix_drop)
  next
    case 2
    obtain q r where q: "split_sub 1 vs = (q, r)" by fastforce
    then have qr: "vs = q @ r" by (rule split_sub_append)
    have "weight q < W" if c
    proof -
      from 2(2) obtain t ts' where t: "ts = t # ts'" "to_uppercase x t = us ''IN''"
        by (cases ts) (auto simp: at_kw_def)
      have "1 \<le> nw t" using keyword_weight [of x t "''IN''"] x that t(2) by simp
      moreover have "weight vs \<le> weight ts'" using suffix_weight(1) [OF suffix_skips(1)] t(1) by (simp add: vs_def)
      ultimately show ?thesis using ts that qr t(1) by (simp add: fits_tokens_def)
    qed
    then have "good c (\<lambda>st. numbered (phs st)) (sub (join q))" using sub by (simp add: sub_good_def)
    moreover have "suffix (skip_sym 41 r) ts"
      using suffix_order.trans [OF suffix_skips(1) suffix_order.trans [OF _ vs]] qr by (simp add: suffixI)
    ultimately show ?thesis using 2 q
      by (auto simp: where_condition_def vs_def [symmetric] intro: good_bind)
  next
    case 3
    obtain as r where a: "until_close vs = (as, r)" by fastforce
    have "no_quote as" using until_close_sub [of vs] a suffix_weight(3) [OF vs] ts by (auto simp: no_quote_def fits_tokens_def)
    then have "good c (list_all val_ok) (parse_values x as)" by (rule parse_values_good)
    moreover have "suffix (tl r) ts"
      using suffix_order.trans [OF suffix_tl suffix_order.trans [OF _ vs], of r] suffix_until_close [of vs] a by simp
    ultimately show ?thesis using 3 a
      by (auto simp: where_condition_def vs_def [symmetric] val_ok_def list_all_iff intro!: good_bind [where P = "list_all val_ok"])
  next
    case 4
    then show ?thesis using where_comparison_good ts by (simp add: where_condition_def fits_tokens_def)
  qed
qed

abbreviation where_result :: "ustr list \<Rightarrow> WhereExpr \<times> ustr list \<Rightarrow> bool" where
  "where_result ts \<equiv> \<lambda>(e, r). numbered (where_phs e) \<and> suffix r ts"

abbreviation where_consumed :: "ustr list \<Rightarrow> WhereExpr \<times> ustr list \<Rightarrow> bool" where
  "where_consumed ts \<equiv> \<lambda>(e, r). numbered (where_phs e) \<and> strict_suffix r ts"

lemma suffix_consumed: "suffix r ts \<Longrightarrow> strict_suffix r (t # ts)" "strict_suffix r ts \<Longrightarrow> suffix r ts"
    "suffix r rs \<Longrightarrow> strict_suffix rs ts \<Longrightarrow> strict_suffix r ts" "strict_suffix r ts \<Longrightarrow> strict_suffix r (t # ts)"
    "strict_suffix r ts \<Longrightarrow> suffix r (t # ts)"
  by (auto simp: strict_suffix_def suffix_def)

lemma consumed_length: "strict_suffix r ts \<Longrightarrow> length r < length ts"
  by (auto simp: strict_suffix_def suffix_def)

text \<open>One parser after another, and a loop after its operator.\<close>

lemma then_good:
  assumes "good c (where_consumed ts) m" "fits_tokens c W ts"
    and f: "\<And>e r. numbered (where_phs e) \<Longrightarrow> fits_tokens c W r \<Longrightarrow> length r < length ts \<Longrightarrow> good c (where_result r) (f e r)"
  shows "good c (where_consumed ts) (pbind m (\<lambda>(e, r). f e r))"
  using assms(1)
proof (rule good_bind, clarify)
  fix e r assume a: "numbered (where_phs e)" "strict_suffix r ts"
  then have "good c (where_result r) (f e r)"
    using f fits_suffix [OF assms(2) suffix_consumed(2)] consumed_length by blast
  then show "good c (where_consumed ts) (f e r)"
    by (rule good_mono) (use a suffix_consumed(3) in auto)
qed

lemma loop_good:
  assumes "fits_tokens c W ts" "numbered (where_phs l)"
    and m: "\<And>us. fits_tokens c W us \<Longrightarrow> Suc (length us) = length ts \<Longrightarrow> good c (where_consumed us) (m us)"
    and f: "\<And>e r. numbered (where_phs e) \<Longrightarrow> fits_tokens c W r \<Longrightarrow> length r < length ts \<Longrightarrow> good c (where_result r) (f e r)"
  shows "good c (where_result ts) (if at_kw x k ts then pbind (m (tl ts)) (\<lambda>(e, r). f e r) else pok (l, ts))"
proof (cases "at_kw x k ts")
  case True
  then obtain t rs where ts: "ts = t # rs" by (cases ts) (auto simp: at_kw_def)
  have rs: "fits_tokens c W rs" using assms(1) ts by (auto intro: fits_suffix suffix_ConsI)
  have "good c (where_consumed rs) (pbind (m rs) (\<lambda>(e, r). f e r))"
    by (rule then_good [OF m rs]) (use rs ts f in auto)
  then have "good c (where_result ts) (pbind (m rs) (\<lambda>(e, r). f e r))"
    by (rule good_mono) (use ts suffix_consumed(5) in auto)
  with True ts show ?thesis by simp
qed (use assms in simp)

lemma atom_good:
  assumes sub: "sub_good c W sub" and x: "c \<longrightarrow> plain_space x" and ts: "fits_tokens c W (t # r)"
    and a: "good c (where_consumed r) (parse_where_atom x sub n r)" and e: "good c (where_consumed r) (parse_where_expr x sub n r)"
  shows "good c (where_consumed (t # r)) (parse_where_atom x sub (Suc n) (t # r))"
proof -
  obtain col r' where w: "where_column x t r = (col, r')" by fastforce
  have s: "suffix r' r" using where_column_suffix [of x t r] w by simp
  have "good c (where_result r') (where_condition x sub col r')"
    by (rule where_condition_good [OF sub x fits_suffix [OF ts suffix_ConsI [OF s]]])
  then have "good c (where_consumed (t # r)) (where_condition x sub col r')"
    by (rule good_mono) (use s in \<open>auto intro: suffix_consumed suffix_order.trans\<close>)
  moreover have "good c (where_consumed (t # r)) (pbind (parse_where_atom x sub n r) (\<lambda>(e, r'). pok (Not e, r')))"
    using a by (rule good_bind) (auto intro: suffix_consumed)
  moreover have "good c (where_consumed (t # r)) (pbind (parse_where_expr x sub n r) (\<lambda>(e, r'). pok (e, skip_sym 41 r')))"
    using e by (rule good_bind) (auto intro: suffix_consumed(3) [OF suffix_skips(1) suffix_consumed(4)])
  ultimately show ?thesis using w by (cases "at_kw x ''NOT'' (t # r)"; cases "t = [40]") simp_all
qed

lemma where_good:
  assumes sub: "sub_good c W sub" and x: "c \<longrightarrow> plain_space x"
  shows "fits_tokens c W ts \<Longrightarrow> (c \<longrightarrow> 3 * length ts + 3 \<le> n) \<Longrightarrow> good c (where_consumed ts) (parse_where_expr x sub n ts)"
    and "fits_tokens c W ts \<Longrightarrow> (c \<longrightarrow> 3 * length ts + 1 \<le> n) \<Longrightarrow> numbered (where_phs l) \<Longrightarrow> good c (where_result ts) (or_loop x sub n l ts)"
    and "fits_tokens c W ts \<Longrightarrow> (c \<longrightarrow> 3 * length ts + 2 \<le> n) \<Longrightarrow> good c (where_consumed ts) (parse_where_and x sub n ts)"
    and "fits_tokens c W ts \<Longrightarrow> (c \<longrightarrow> 3 * length ts + 1 \<le> n) \<Longrightarrow> numbered (where_phs l) \<Longrightarrow> good c (where_result ts) (and_loop x sub n l ts)"
    and "fits_tokens c W ts \<Longrightarrow> (c \<longrightarrow> 3 * length ts + 1 \<le> n) \<Longrightarrow> good c (where_consumed ts) (parse_where_atom x sub n ts)"
proof (induction n arbitrary: ts l)
  case (Suc n)
  {
    case 1
    then show ?case unfolding parse_where_expr.simps by (intro then_good [OF Suc.IH(3)] Suc.IH(2)) auto
  next
    case 2
    then show ?case unfolding or_loop.simps by (intro loop_good [of _ W] Suc.IH(3) Suc.IH(2)) auto
  next
    case 3
    then show ?case unfolding parse_where_and.simps by (intro then_good [OF Suc.IH(5)] Suc.IH(4)) auto
  next
    case 4
    then show ?case unfolding and_loop.simps by (intro loop_good [of _ W] Suc.IH(5) Suc.IH(4)) auto
  next
    case 5
    show ?case
    proof (cases ts)
      case (Cons t r)
      with 5 have "fits_tokens c W r" by (auto intro: fits_suffix suffix_ConsI)
      with 5 show ?thesis unfolding Cons by (intro atom_good [OF sub x] Suc.IH(5) Suc.IH(1)) auto
    qed simp
  }
qed simp_all

text \<open>The clauses of a statement.\<close>

lemma where_clause_good:
  assumes "sub_good c W sub" "c \<longrightarrow> plain_space x" "fits_tokens c W ts" "c \<longrightarrow> 3 * length ts + 3 \<le> n"
  shows "good c (\<lambda>(w, r). numbered (opt_phs w) \<and> suffix r ts) (where_clause x sub n k ts)"
proof -
  have "good c (where_consumed (tl ts)) (parse_where_expr x sub n (tl ts))"
    by (rule where_good(1) [OF assms(1,2) fits_suffix [OF assms(3) suffix_tl]]) (use assms(4) in auto)
  then have "good c (\<lambda>(w, r). numbered (opt_phs w) \<and> suffix r ts) (pbind (parse_where_expr x sub n (tl ts)) (\<lambda>(e, r). pok (Some e, r)))"
    by (rule good_bind) (auto intro: suffix_tl_I [OF suffix_consumed(2)])
  then show ?thesis by (simp add: where_clause_def)
qed

lemma suffix_args: "suffix (snd (window_args x ts)) ts" "suffix (snd (agg_args ts)) ts"
proof -
  note s = suffix_skips(1,2) [THEN suffix_order.trans] suffix_tl [THEN suffix_order.trans]
  show "suffix (snd (window_args x ts)) ts"
    unfolding window_args_def Let_def snd_conv
    by (rule suffix_skips(1) [THEN suffix_order.trans], rule suffix_skips(3) [THEN suffix_order.trans]) (intro s suffix_order.refl)
  show "suffix (snd (agg_args ts)) ts"
    unfolding agg_args_def Let_def snd_conv by (intro s suffix_order.refl)
qed

lemma suffix_shorter:
  fixes ts :: "ustr list"
  assumes "suffix r (tl ts)" "ts \<noteq> []" and "\<And>r. length r < length ts \<Longrightarrow> suffix (f r) r"
  shows "suffix (f r) ts"
proof -
  have "suffix (f r) r" using assms suffix_weight(2) [of r "tl ts"] by (cases ts) auto
  with assms(1) show ?thesis by (meson suffix_order.trans suffix_tl)
qed

lemma select_columns_suffix: "suffix (snd (select_columns x ts)) ts"
proof (induction ts rule: length_induct)
  case (1 ts)
  note s = suffix_shorter [where f = "\<lambda>r. snd (select_columns x r)", OF _ _ 1 [rule_format]]
  show ?case by (subst select_columns.simps) (auto simp: Let_def split: option.split intro!: s suffix_args)
qed

lemma group_columns_suffix: "suffix (snd (group_columns x ts)) ts"
  by (induction ts) (auto split: prod.split intro: suffix_ConsI)

lemma order_items_suffix: "suffix (snd (order_items x ts)) ts"
proof (induction ts rule: length_induct)
  case (1 ts)
  note s = suffix_shorter [where f = "\<lambda>r. snd (order_items x r)", OF _ _ 1 [rule_format]]
  show ?case by (subst order_items.simps) (auto simp: Let_def intro!: s suffix_skips)
qed

lemma next_suffix: "tl ts = t # r \<Longrightarrow> suffix r ts" "ts = t # r \<Longrightarrow> suffix r ts"
  by (cases ts; auto simp: suffix_ConsI)+

lemma number_clause_good: "good c (\<lambda>(m, r). suffix r ts) (number_clause x w ts)"
proof -
  have "good c (\<lambda>(m, r). suffix r ts) (pbind (next_token msg (tl ts)) (\<lambda>(t, r).
      case parse_usize t of None \<Rightarrow> perror err | Some n \<Rightarrow> pok (Some n, r)))" for msg err
    using next_token_good by (rule good_bind) (auto split: option.split intro: next_suffix)
  then show ?thesis by (simp add: number_clause_def)
qed

lemma from_clause_good: "good c (\<lambda>(f, r). suffix r ts) (from_clause x left ts)"
proof -
  have j: "good c (\<lambda>(f, r). suffix r ts) (pbind (next_token m rs) (\<lambda>(right, us).
          if \<not> at_kw x k us then perror err
          else pbind (next_token m' (tl us)) (\<lambda>(l, us).
            pbind (next_token m'' (tl us)) (\<lambda>(r, us). pok (h right l r, us)))))"
    if rs: "suffix rs ts" for rs m m' m'' k err and h :: "ustr \<Rightarrow> ustr \<Rightarrow> ustr \<Rightarrow> FromClause"
    using rs by (auto intro!: good_bind [OF next_token_good]) (meson suffix_order.trans next_suffix)
  have "suffix (skip_kw x k rs) ts" if "suffix rs ts" for k rs
    using suffix_order.trans [OF suffix_skips(2) that] .
  then show ?thesis unfolding from_clause_def Let_def using j suffix_tl by (auto split: prod.split)
qed

lemma good_pair:
  "good c (\<lambda>(a, r). P a r) m \<Longrightarrow> (\<And>a r. P a r \<Longrightarrow> good c Q (f a r)) \<Longrightarrow> good c Q (pbind m (\<lambda>(a, r). f a r))"
  by (erule good_bind) auto

lemma good_let: "suffix (snd e) ts \<Longrightarrow> (\<And>a r. suffix r ts \<Longrightarrow> good c Q (f a r)) \<Longrightarrow> good c Q (let (a, r) = e in f a r)"
  by (cases e) auto

lemma good_unless: "good c Q m \<Longrightarrow> good c Q (if \<not> b then perror e else m)"
  by simp

lemma select_good:
  assumes sub: "sub_good c W sub" "c \<longrightarrow> plain_space x" and ts: "fits_tokens c W tokens" "c \<longrightarrow> 3 * length tokens + 3 \<le> n"
  shows "good c (\<lambda>st. numbered (phs st)) (parse_select_sql x sub n tokens)"
proof -
  have w: "good c (\<lambda>(w, r). numbered (opt_phs w) \<and> suffix r tokens) (where_clause x sub n k ts)" if "suffix ts tokens" for k ts
  proof -
    have "c \<longrightarrow> 3 * length ts + 3 \<le> n" using ts(2) suffix_weight(2) [OF that] by auto
    from where_clause_good [OF sub fits_suffix [OF ts(1) that] this] show ?thesis
      by (rule good_mono) (use that in \<open>auto intro: suffix_order.trans\<close>)
  qed
  have g: "suffix (snd (if at_kw x k ts then group_columns x (skip_kw x k' (tl ts)) else ([], ts))) tokens"
      "suffix (snd (if at_kw x k ts then order_items x (skip_kw x k' (tl ts)) else ([], ts))) tokens" if "suffix ts tokens" for k k' ts
    using that suffix_order.trans [OF suffix_order.trans [OF group_columns_suffix suffix_order.trans [OF suffix_skips(2) suffix_tl]]]
      suffix_order.trans [OF suffix_order.trans [OF order_items_suffix suffix_order.trans [OF suffix_skips(2) suffix_tl]]] by auto
  have num: "good c (\<lambda>_. True) (number_clause x k ts)" for k ts
    using number_clause_good by (rule good_mono) simp
  have frm: "good c (\<lambda>(f, r). suffix r tokens) (from_clause x left ts)" if "suffix ts tokens" for left ts
    using from_clause_good by (rule good_mono) (use that in \<open>auto intro: suffix_order.trans\<close>)
  have nx: "good c (\<lambda>(t, r). suffix r tokens) (next_token m (tl ts))" if "suffix ts tokens" for m ts
    using next_token_good by (rule good_mono) (use that in \<open>auto intro: suffix_order.trans next_suffix(1)\<close>)
  have cols: "suffix (snd (select_columns x (tl tokens))) tokens"
    by (rule suffix_order.trans [OF select_columns_suffix suffix_tl])
  show ?thesis
    unfolding parse_select_sql_def
    by (rule good_let [OF cols], rule good_unless, rule good_pair [OF nx], assumption, rule good_pair [OF frm], assumption,
        rule good_pair [OF w], assumption, erule conjE, rule good_let [OF g(1)], assumption, rule good_pair [OF w], assumption,
        erule conjE, rule good_let [OF g(2)], assumption, rule good_bind [OF num])
      (auto split: prod.split intro: good_bind [OF num])
qed

lemma assignments_good:
  "no_quote ts \<Longrightarrow> good c (\<lambda>(as, r). list_all (\<lambda>a. val_ok (snd a)) as \<and> suffix r ts) (assignments x ts)"
proof (induction ts rule: length_induct)
  case (1 ts)
  have IH: "good c (\<lambda>(as, r). list_all (\<lambda>a. val_ok (snd a)) as \<and> suffix r ts) (assignments x rs)"
    if "suffix rs (tl ts)" "ts \<noteq> []" for rs
  proof -
    have "length rs < length ts" using suffix_weight(2) [OF that(1)] that(2) by (cases ts) auto
    moreover have rs: "suffix rs ts" using that(1) by (rule suffix_tl_I)
    ultimately have "good c (\<lambda>(as, r). list_all (\<lambda>a. val_ok (snd a)) as \<and> suffix r rs) (assignments x rs)"
      using 1 no_quote_suffix by blast
    then show ?thesis by (rule good_mono) (use rs in \<open>auto intro: suffix_order.trans\<close>)
  qed
  have v: "v \<noteq> [39] \<and> suffix r (tl ts)" if "drop 2 ts = v # r" for v r
  proof -
    have "suffix (v # r) ts" using suffix_drop [of 2 ts] that by simp
    then have "v \<noteq> [39]" using 1(2) suffix_weight(3) by (fastforce simp: no_quote_def)
    moreover have "suffix r (tl ts)" using suffix_drop [of 1 "tl ts"] that by (cases ts) (auto simp: suffix_ConsD numeral_2_eq_2)
    ultimately show ?thesis by simp
  qed
  show ?case
  proof (cases "ts = []")
    case False
    then show ?thesis using IH [OF _ False] v
      by (subst assignments.simps) (auto split: list.split intro!: good_bind [OF parse_value_good] good_pair [OF IH])
  qed (simp add: assignments.simps)
qed

lemma phs_assignments: "list_all (\<lambda>a. val_ok (snd a)) as \<Longrightarrow> numbered (concat (map (\<lambda>a. val_phs False (snd a)) as))"
  by (induction as) (auto simp: val_ok_def)

lemma update_good:
  assumes sub: "sub_good c W sub" "c \<longrightarrow> plain_space x" and ts: "fits_tokens c W tokens" "c \<longrightarrow> 3 * length tokens + 3 \<le> n"
  shows "good c (\<lambda>st. numbered (phs st)) (parse_update_sql x sub n tokens)"
    and "good c (\<lambda>st. numbered (phs st)) (parse_delete_sql x sub n tokens)"
proof -
  have w: "good c (\<lambda>(w, r). numbered (opt_phs w)) (where_clause x sub n k ts)" if "suffix ts tokens" for k ts
  proof -
    have "c \<longrightarrow> 3 * length ts + 3 \<le> n" using ts(2) suffix_weight(2) [OF that] by auto
    from where_clause_good [OF sub fits_suffix [OF ts(1) that] this] show ?thesis by (rule good_mono) auto
  qed
  have nx: "good c (\<lambda>(t, r). suffix r tokens) (next_token m ts)" if "suffix ts tokens" for m ts
    using next_token_good by (rule good_mono) (use that in \<open>auto intro: suffix_order.trans next_suffix(2)\<close>)
  have as: "good c (\<lambda>(as, r). list_all (\<lambda>a. val_ok (snd a)) as \<and> suffix r tokens) (assignments x (tl ts))" if "suffix ts tokens" for ts
  proof -
    have s: "suffix (tl ts) tokens" using suffix_order.trans [OF suffix_tl that] .
    with ts(1) have "no_quote (tl ts)" using no_quote_suffix by (auto simp: fits_tokens_def)
    from assignments_good [OF this] show ?thesis
      by (rule good_mono) (use s in \<open>auto intro: suffix_order.trans\<close>)
  qed
  show "good c (\<lambda>st. numbered (phs st)) (parse_update_sql x sub n tokens)"
    unfolding parse_update_sql_def
    by (rule good_pair [OF nx [OF suffix_tl]], rule good_unless, rule good_pair [OF as], assumption, erule conjE, rule good_pair [OF w])
      (auto dest: phs_assignments)
  show "good c (\<lambda>st. numbered (phs st)) (parse_delete_sql x sub n tokens)"
    unfolding parse_delete_sql_def
    by (rule good_unless, rule good_pair [OF nx [OF suffix_drop]], rule good_pair [OF w]) auto
qed

lemma column_defs_good: "good c (\<lambda>_. True) (column_defs x ts)"
proof (induction ts rule: length_induct)
  case (1 ts)
  have "good c (\<lambda>_. True) (column_defs x (snd (column_constraints x r k)))" if "tl ts = t # r" for t r k
    using 1 that length_constraints [of x r k] by (cases ts) auto
  moreover have "good c (\<lambda>_. True) (column_defs x (tl ts))" if "ts \<noteq> []"
    using 1 that by (cases ts) auto
  ultimately show ?case by (subst column_defs.simps) (auto simp: Let_def split: list.split intro!: good_bind [where P = "\<lambda>_. True"])
qed

lemma create_good: "good c (\<lambda>st. numbered (phs st)) (parse_create_table x tokens)" "good c (\<lambda>st. numbered (phs st)) (parse_drop_table x tokens)"
  unfolding parse_create_table_def parse_drop_table_def Let_def
  by (auto intro!: good_pair [OF next_token_good] good_bind [OF column_defs_good])

lemma insert_rows_good: "no_quote ts \<Longrightarrow> good c (list_all (list_all val_ok)) (insert_rows x ts)"
proof (induction ts rule: length_induct)
  case (1 ts)
  have IH: "good c (list_all (list_all val_ok)) (insert_rows x rs)" if "suffix rs (tl ts)" "ts \<noteq> []" for rs
  proof -
    have "length rs < length ts" using suffix_weight(2) [OF that(1)] that(2) by (cases ts) auto
    with 1 that(1) show ?thesis using no_quote_suffix suffix_tl_I by blast
  qed
  have r: "suffix (tl (snd (until_close (tl ts)))) (tl ts)"
    by (rule suffix_order.trans [OF suffix_tl suffix_until_close])
  have "set (fst (until_close (tl ts))) \<subseteq> set ts"
    using until_close_sub [of "tl ts"] by (cases ts) auto
  then have v: "good c (list_all val_ok) (parse_values x (fst (until_close (tl ts))))"
    using 1(2) by (intro parse_values_good) (auto simp: no_quote_def)
  have "ts \<noteq> []" if "at_sym k ts" for k using that by (auto simp: at_sym_def)
  then show ?case
    by (subst insert_rows.simps) (auto simp: Let_def intro!: good_bind [OF v] good_bind [OF IH [OF r]] IH)
qed

lemma insert_good: "no_quote tokens \<Longrightarrow> good c (\<lambda>st. numbered (phs st)) (parse_insert_sql x tokens)"
proof -
  assume t: "no_quote tokens"
  have n: "numbered (concat (map (\<lambda>row. concat (map (val_phs False) row)) rows))" if "list_all (list_all val_ok) rows" for rows
    using that by (auto simp: val_ok_def list_all_iff)
  have r: "good c (list_all (list_all val_ok)) (insert_rows x rs)" if "suffix rs tokens" for rs
    using insert_rows_good no_quote_suffix [OF that t] .
  have nx: "good c (\<lambda>(t, r). suffix r tokens) (next_token m (tl (tl tokens)))" for m
    using next_token_good by (rule good_mono) (auto intro: suffix_order.trans [OF next_suffix(1) suffix_tl])
  have cols: "suffix (snd (if at_sym 40 ts then let (as, r) = until_close (tl ts) in (as, tl r) else ([], ts))) tokens"
    if "suffix ts tokens" for ts
    using that suffix_order.trans [OF suffix_order.trans [OF suffix_tl suffix_order.trans [OF suffix_until_close suffix_tl]] that]
    by (auto simp: case_prod_beta Let_def)
  show ?thesis
    unfolding parse_insert_sql_def Let_def [of "tl tokens"]
    by (rule good_unless, rule good_pair [OF nx], rule good_let [OF cols], assumption, rule good_unless, rule good_bind [OF r])
      (auto intro: suffix_order.trans [OF suffix_tl] n simp del: numbered_simps(3))
qed

lemma find_set_op_append:
  "find_set_op x d ts = Some (l, op, r) \<Longrightarrow> \<exists>t. ts = l @ t # r \<and> set_op x t = Some op"
  by (induction ts arbitrary: d l) (auto simp: Let_def split: option.splits if_splits)

lemma set_op_weight: "plain_space x \<Longrightarrow> set_op x t = Some op \<Longrightarrow> 1 \<le> nw t"
  using keyword_weight [of x t "''UNION''"] keyword_weight [of x t "''INTERSECT''"] keyword_weight [of x t "''EXCEPT''"]
  by (auto simp: set_op_def split: if_splits)

lemma at_kw_weight: "plain_space x \<Longrightarrow> at_kw x k ts \<Longrightarrow> 0 < nw (us k) \<Longrightarrow> weight (tl ts) < weight ts"
  using keyword_weight [of x "hd ts" k] by (cases ts) (auto simp: at_kw_def)

lemma parse_sql_good:
  "(c \<longrightarrow> plain_space x \<and> 3 * nw input + 7 \<le> n) \<Longrightarrow> good c (\<lambda>st. numbered (phs st)) (parse_sql x n input)"
proof (induction n arbitrary: input)
  case (Suc n)
  define tokens where "tokens = tokenize (trim_end_matches 59 (str_trim input))"
  define W where "W = nw input"
  have W: "weight tokens \<le> W"
    using weight_tokens [of False "[]" "trim_end_matches 59 (str_trim input)"] nw_trim [of 59 input]
    by (simp add: tokens_def tokenize_def W_def)
  have nq: "no_quote tokens" using tokens_not_quote by (auto simp: no_quote_def tokens_def)
  have len: "length tokens \<le> Suc W"
    using tokens_length [of False "[]" "trim_end_matches 59 (str_trim input)"] W by (simp add: tokens_def tokenize_def)
  have x: "c \<longrightarrow> plain_space x" and n: "c \<longrightarrow> 3 * W + 6 \<le> n" using Suc.prems by (auto simp: W_def)
  have sub: "sub_good c W (parse_sql x n)" using Suc n x by (auto simp: sub_good_def nw_join)
  have fits_tokens: "fits_tokens c W tokens" "c \<longrightarrow> 3 * length tokens + 3 \<le> n" using nq W len n by (auto simp: fits_tokens_def)
  have again: "good c (\<lambda>st. numbered (phs st)) (parse_sql x n (join q))" if "c \<longrightarrow> weight q < weight tokens" for q
    using sub that W by (auto simp: sub_good_def)
  have expl: "good c (\<lambda>st. numbered (phs st)) (parse_sql x n (join (drop k tokens)))" if "at_kw x ''EXPLAIN'' tokens" "0 < k" for k
  proof (rule again, rule impI)
    assume c
    then have "weight (tl tokens) < weight tokens" using at_kw_weight [OF _ that(1)] x by simp
    moreover have "drop k tokens = drop (k - 1) (tl tokens)" using that(2) by (cases k; cases tokens) auto
    ultimately show "weight (drop k tokens) < weight tokens" using suffix_weight(1) [OF suffix_drop] by (metis le_less_trans)
  qed
  have setop: "good c (\<lambda>st. numbered (phs st)) (parse_sql x n (join l))" "good c (\<lambda>st. numbered (phs st)) (parse_sql x n (join (skip_kw x k r)))"
    if f: "find_set_op x 0 tokens = Some (l, op, r)" for l op r k
  proof -
    obtain t where t: "tokens = l @ t # r" "set_op x t = Some op" using find_set_op_append [OF f] by blast
    have w: "c \<longrightarrow> 1 \<le> nw t" using set_op_weight t(2) x by blast
    show "good c (\<lambda>st. numbered (phs st)) (parse_sql x n (join l))" using w t(1) by (intro again) auto
    show "good c (\<lambda>st. numbered (phs st)) (parse_sql x n (join (skip_kw x k r)))"
      using w t(1) suffix_weight(1) [OF suffix_skips(2) [of x k r]] by (intro again) auto
  qed
  have e: "good c (\<lambda>st. numbered (phs st)) (pbind (parse_sql x n (join (tl tokens))) (\<lambda>st. pok (Explain st)))"
      "good c (\<lambda>st. numbered (phs st)) (pbind (parse_sql x n (join (drop 2 tokens))) (\<lambda>st. pok (ExplainAnalyze st)))"
    if "at_kw x ''EXPLAIN'' tokens"
    using expl [OF that, of 1] expl [OF that, of 2] by (auto simp: drop_Suc intro: good_bind)
  have s: "good c (\<lambda>st. numbered (phs st)) (pbind (parse_sql x n (join l)) (\<lambda>left.
      pbind (parse_sql x n (join (skip_kw x k r))) (\<lambda>right. pok (SetOp op left right a))))"
    if "find_set_op x 0 tokens = Some (l, op, r)" for l op r k a
    by (intro good_bind [OF setop(1) [OF that]] good_bind [OF setop(2) [OF that]]) auto
  show ?case
    unfolding parse_sql.simps Let_def tokens_def [symmetric]
    using create_good insert_good [OF nq] select_good [OF sub x fits_tokens] update_good [OF sub x fits_tokens]
    by (auto split: option.split intro: e s)
qed simp

section \<open>More fuel does not change a result\<close>

lemma upto_pair: "upto_fuel m m' \<Longrightarrow> (\<And>a r. upto_fuel (f a r) (f' a r)) \<Longrightarrow> upto_fuel (pbind m (\<lambda>(a, r). f a r)) (pbind m' (\<lambda>(a, r). f' a r))"
  by (rule upto_bind) auto

lemma upto_let: "(\<And>a r. upto_fuel (f a r) (f' a r)) \<Longrightarrow> upto_fuel (let (a, r) = e in f a r) (let (a, r) = e in f' a r)"
  by (cases e) auto

lemma upto_if: "upto_fuel m m' \<Longrightarrow> upto_fuel k k' \<Longrightarrow> upto_fuel (if b then m else k) (if b then m' else k')"
  by simp

lemma where_condition_upto:
  "(\<And>q. upto_fuel (sub q) (sub' q)) \<Longrightarrow> upto_fuel (where_condition x sub col ts) (where_condition x sub' col ts)"
  by (auto simp: where_condition_def Let_def split: prod.split intro!: upto_bind)

lemma where_upto:
  assumes sub: "\<And>q. upto_fuel (sub q) (sub' q)"
  shows "upto_fuel (parse_where_expr x sub n ts) (parse_where_expr x sub' (n + d) ts)"
    and "upto_fuel (or_loop x sub n l ts) (or_loop x sub' (n + d) l ts)"
    and "upto_fuel (parse_where_and x sub n ts) (parse_where_and x sub' (n + d) ts)"
    and "upto_fuel (and_loop x sub n l ts) (and_loop x sub' (n + d) l ts)"
    and "upto_fuel (parse_where_atom x sub n ts) (parse_where_atom x sub' (n + d) ts)"
proof (induction n arbitrary: ts l)
  case (Suc n)
  {
    case 1 show ?case unfolding add_Suc parse_where_expr.simps by (intro upto_pair Suc.IH)
  next
    case 2 show ?case unfolding add_Suc or_loop.simps by (intro upto_if upto_pair Suc.IH upto_refl)
  next
    case 3 show ?case unfolding add_Suc parse_where_and.simps by (intro upto_pair Suc.IH)
  next
    case 4 show ?case unfolding add_Suc and_loop.simps by (intro upto_if upto_pair Suc.IH upto_refl)
  next
    case 5
    show ?case unfolding add_Suc parse_where_atom.simps
      by (cases ts) (auto intro!: upto_if upto_pair upto_let Suc.IH where_condition_upto sub split del: if_split)
  }
qed simp_all

lemma statements_upto:
  assumes "\<And>q. upto_fuel (sub q) (sub' q)" "n \<le> n'"
  shows "upto_fuel (parse_select_sql x sub n ts) (parse_select_sql x sub' n' ts)"
    and "upto_fuel (parse_update_sql x sub n ts) (parse_update_sql x sub' n' ts)"
    and "upto_fuel (parse_delete_sql x sub n ts) (parse_delete_sql x sub' n' ts)"
proof -
  have w: "upto_fuel (where_clause x sub n k ts) (where_clause x sub' n' k ts)" for k ts
    using where_upto(1) [OF assms(1), where n = n and d = "n' - n"] assms(2) unfolding where_clause_def
    by (intro upto_if upto_pair upto_refl) simp
  show "upto_fuel (parse_select_sql x sub n ts) (parse_select_sql x sub' n' ts)"
    unfolding parse_select_sql_def by (intro upto_let upto_if upto_pair upto_refl w)
  show "upto_fuel (parse_update_sql x sub n ts) (parse_update_sql x sub' n' ts)"
    "upto_fuel (parse_delete_sql x sub n ts) (parse_delete_sql x sub' n' ts)"
    unfolding parse_update_sql_def parse_delete_sql_def by (intro upto_if upto_pair upto_refl w)+
qed

lemma parse_sql_upto: "n \<le> n' \<Longrightarrow> upto_fuel (parse_sql x n input) (parse_sql x n' input)"
proof (induction n arbitrary: n' input)
  case (Suc n)
  obtain m where m: "n' = Suc m" "n \<le> m" using Suc.prems by (cases n') auto
  have IH: "upto_fuel (parse_sql x n q) (parse_sql x m q)" for q using Suc.IH m(2) .
  have s: "upto_fuel (case find_set_op x 0 ts of
           Some (l, op, r) \<Rightarrow> pbind (parse_sql x n (join l)) (\<lambda>left.
               pbind (parse_sql x n (join (skip_kw x k r))) (\<lambda>right. pok (SetOp op left right (at_kw x k r))))
         | None \<Rightarrow> parse_select_sql x (parse_sql x n) n ts)
        (case find_set_op x 0 ts of
           Some (l, op, r) \<Rightarrow> pbind (parse_sql x m (join l)) (\<lambda>left.
               pbind (parse_sql x m (join (skip_kw x k r))) (\<lambda>right. pok (SetOp op left right (at_kw x k r))))
         | None \<Rightarrow> parse_select_sql x (parse_sql x m) m ts)" for ts k
    by (auto split: option.split intro!: upto_bind IH statements_upto m(2))
  show ?case unfolding m(1) parse_sql.simps Let_def
    by (intro upto_if upto_bind upto_refl IH s statements_upto m(2))
qed simp

section \<open>Binding\<close>

lemma checked_cases:
  "list_all (\<lambda>pn. \<not> isl (g (fst pn) (snd pn))) ps \<Longrightarrow> checked g ps a = Inr a"
  "\<not> list_all (\<lambda>pn. \<not> isl (g (fst pn) (snd pn))) ps \<Longrightarrow> \<exists>pn\<in>set ps. isl (g (fst pn) (snd pn)) \<and> checked g ps a = Inl (projl (g (fst pn) (snd pn)))"
  by (induction ps) (auto split: sum.split)

lemma fold_max_le: "fold max ns a \<le> (L::nat) \<longleftrightarrow> a \<le> L \<and> (\<forall>n\<in>set ns. n \<le> L)"
  by (induction ns arbitrary: a) auto

lemma fill_cong:
  "(\<And>p n. (p, n) \<in> set (phs st) \<Longrightarrow> f p n = h p n) \<Longrightarrow> fill f st = fill h st"
  "(\<And>p n. (p, n) \<in> set (where_phs e) \<Longrightarrow> f p n = h p n) \<Longrightarrow> where_fill f e = where_fill h e"
  "(\<And>p n. (p, n) \<in> set (opt_phs w) \<Longrightarrow> f p n = h p n) \<Longrightarrow> opt_fill f w = opt_fill h w"
proof (induction st and e and w rule: phs_where_phs_opt_phs.induct)
  case (3 t as wh)
  have "val_fill f False v = val_fill h False v" if "(a, v) \<in> set as" for a v
    using that 3(2) [of False] by (cases v) (force simp: val_fill_def val_phs_def)+
  with 3 show ?case by (auto simp: apsnd_def)
qed (auto simp: val_fill_def val_phs_def split: SqlValue.split)

text \<open>The value of a parameter: text where it is written, a number in a predicate if it reads as one.\<close>

definition bound_value :: "text_env \<Rightarrow> ustr option list \<Rightarrow> bool \<Rightarrow> nat \<Rightarrow> SqlValue" where
  "bound_value x params predicate n =
     (case params ! (n - 1) of None \<Rightarrow> Null | Some v \<Rightarrow> if predicate then coerce_param x v else Text v)"

lemma param_value_cases:
  "1 \<le> n \<Longrightarrow> n \<le> length params \<Longrightarrow> param_value x params p n = Inr (bound_value x params p n)"
  "length params < n \<Longrightarrow> param_value x params p n = Inl (Msg (us ''no value specified for parameter $'' @ show_nat n))"
  by (auto simp: param_value_def bound_value_def split: option.split)

lemma bound_value_closed: "closed_value (bound_value x params p n)"
  by (auto simp: closed_value_def val_phs_def bound_value_def coerce_param_def coerce_float_def split: option.split)

section \<open>Properties\<close>

text \<open>C36. Parsing ends. For every input there is one result that \<open>parse_sql\<close> returns with any fuel from three times
  the number of the input's characters plus seven, a statement or an error message: the second parses of set
  operations, subqueries and EXPLAIN do not recur for ever, and no slice of a token panics. It relies on
  the Unicode case mapping in one point: a white-space character is its own upper case.
\<close>

theorem parse_sql_returns:
  assumes "plain_space x"
  shows "\<exists>r. r \<noteq> Inl Panicked \<and> (\<forall>n\<ge>3 * length input + 7. parse_sql x n input = Some r)"
proof -
  let ?n = "3 * length input + 7"
  have "nw input \<le> length input" by (simp add: nw_def)
  then have "good True (\<lambda>st. numbered (phs st)) (parse_sql x ?n input)" using assms by (intro parse_sql_good) simp
  then obtain r where r: "parse_sql x ?n input = Some r" "r \<noteq> Inl Panicked" by (auto simp: good_def split: option.splits sum.splits)
  moreover have "parse_sql x n input = Some r" if "?n \<le> n" for n
    using parse_sql_upto [OF that, of x input] r(1) by (simp add: upto_fuel_def)
  ultimately show ?thesis by blast
qed

text \<open>C37. Printing and reading tokens. In a text whose quotes are in pairs, the tokens of any part of it, joined
  by single spaces as UNION, EXPLAIN and IN join them, are read back as the same tokens: strings keep their
  spaces, operators and doubled quotes.
\<close>

theorem tokens_round_trip:
  assumes "even (count_list s 39)" and "set ts \<subseteq> set (tokenize s)"
  shows "tokenize (join ts) = ts"
proof (rule read_join, unfold list_all_iff, rule ballI)
  fix t assume "t \<in> set ts"
  with assms(2) have "t \<in> set (tokens_from False [] s)" by (auto simp: tokenize_def)
  from tokens_kinds [OF _ this] assms(1) show "wf_token t" by (simp add: open_end_def)
qed

text \<open>C38. Binding a parsed statement. With as many values as \<open>count_statement_params\<close> reports, binding succeeds,
  replaces each parameter by its value and changes nothing else, and leaves no parameter; a value in a
  predicate is coerced to a number where it reads as one, other values stay text. With fewer, binding fails
  with a message that names a parameter of the statement that has no value. It never panics.
\<close>

theorem bind_parsed_statement:
  assumes "parse_sql x fuel (trim_end_matches 59 (str_trim sql)) = Some (Inr st)"
  shows "\<exists>k. count_statement_params x fuel sql = pok k \<and>
    (if k \<le> length params then
       bind_statement_params x st params = Inr (fill (bound_value x params) st) \<and>
       phs (projr (bind_statement_params x st params)) = []
     else \<exists>n. bind_statement_params x st params = Inl (Msg (us ''no value specified for parameter $'' @ show_nat n)) \<and>
       length params < n \<and> n \<le> k \<and> n \<in> snd ` set (phs st))"
proof -
  let ?k = "fold max (map snd (phs st)) 0" and ?g = "param_value x params"
  have "good False (\<lambda>st. numbered (phs st)) (parse_sql x fuel (trim_end_matches 59 (str_trim sql)))" by (rule parse_sql_good) simp
  then have one: "(p, n) \<in> set (phs st) \<Longrightarrow> 1 \<le> n" for p n using assms by (auto simp: numbered_def list_all_iff)
  have fit: "?k \<le> length params \<longleftrightarrow> list_all (\<lambda>pn. \<not> isl (?g (fst pn) (snd pn))) (phs st)"
    using one param_value_cases by (fastforce simp: fold_max_le list_all_iff not_le [symmetric])
  note count = count_spec [OF assms]
  show ?thesis
  proof (cases "?k \<le> length params")
    case True
    then have "fill (found ?g) st = fill (bound_value x params) st"
      by (intro fill_cong) (use one param_value_cases(1) in \<open>fastforce simp: fold_max_le\<close>)
    with True fit count show ?thesis
      by (simp add: bind_statement_params_spec checked_cases fill_closed bound_value_closed)
  next
    case False
    with fit obtain pn where pn: "pn \<in> set (phs st)" "isl (?g (fst pn) (snd pn))"
        "bind_statement_params x st params = Inl (projl (?g (fst pn) (snd pn)))"
      using checked_cases(2) [of ?g "phs st" "fill (found ?g) st"] unfolding bind_statement_params_spec by blast
    have "length params < snd pn" using pn(1,2) one [of "fst pn" "snd pn"] param_value_cases(1) [of "snd pn" params x "fst pn"]
      by (cases "snd pn \<le> length params") auto
    moreover have "snd pn \<le> ?k" using pn(1) fold_max_le [of "map snd (phs st)" 0 ?k] by auto
    ultimately show ?thesis using False pn count param_value_cases(2) [of params "snd pn" x "fst pn"] by auto
  qed
qed

text \<open>C39. A column type with a length ends the column list. The loop over the constraints of a column stops at
  the parenthesis that closes the length, and the loop over the columns takes it for the end of the
  list: whatever columns follow, the table is created with this one alone and no error is reported.
\<close>

theorem sized_type_drops_columns:
  assumes "to_uppercase x tb = us ''TABLE''" "to_uppercase x table \<noteq> us ''IF''" "col \<noteq> [41]" "col \<noteq> [44]" "n \<noteq> [41]" "n \<noteq> [44]"
    and "to_uppercase x [40] \<notin> us ` {''PRIMARY'', ''NOT'', ''DEFAULT''}" "to_uppercase x n \<notin> us ` {''PRIMARY'', ''NOT'', ''DEFAULT''}"
  shows "parse_create_table x (cr # tb # table # [40] # col # ty # [40] # n # [41] # rest) =
    pok (CreateTable table [\<lparr>cd_name = col, cd_type = ty, cd_primary_key = False, cd_nullable = True, cd_default = None\<rparr>] False)"
proof -
  have c: "column_constraints x ([40] # n # [41] # rest) (False, True, None) = ((False, True, None), [41] # rest)"
    using assms(5-8) by (simp add: column_constraints.simps at_sym_def at_kw_def)
  have "column_defs x (col # ty # [40] # n # [41] # rest) =
      pok [\<lparr>cd_name = col, cd_type = ty, cd_primary_key = False, cd_nullable = True, cd_default = None\<rparr>]"
    using assms(3,4) by (subst column_defs.simps) (simp add: Let_def c, simp add: column_defs.simps at_sym_def)
  then show ?thesis
    using assms(1,2) by (simp add: parse_create_table_def Let_def at_kw_def at_sym_def next_token_def)
qed

section \<open>Examples\<close>

text \<open>The case mapping of ASCII text.\<close>

definition ascii_env :: text_env where
  "ascii_env = \<lparr>upper_char = \<lambda>c. [if 97 \<le> c \<and> c \<le> 122 then c - 32 else c],
     lower_char = \<lambda>c. [if 65 \<le> c \<and> c \<le> 90 then c + 32 else c], f64_of_str = \<lambda>_. None, f64_to_str = \<lambda>_. []\<rparr>"

lemma ascii_plain: "plain_space ascii_env"
  by (auto simp: plain_space_def ascii_env_def is_whitespace_def)

theorem parse_sql_returns_witness:
  "plain_space ascii_env \<and> (\<exists>r. r \<noteq> Inl Panicked \<and> parse_sql ascii_env 200 (us ''SELECT a FROM t UNION SELECT b FROM u'') = Some r)"
  using parse_sql_returns [OF ascii_plain, of "us ''SELECT a FROM t UNION SELECT b FROM u''"] ascii_plain
  by (auto simp: us_def)

text \<open>A comparison with a string that contains a space and a doubled quote.\<close>

definition demo_text :: ustr where
  "demo_text = us ''a='' @ quoted (us ''b c'' @ [39, 39])"

theorem tokens_round_trip_witness:
  "even (count_list demo_text 39) \<and> set [us ''='', quoted (us ''b c'' @ [39, 39])] \<subseteq> set (tokenize demo_text) \<and>
   tokenize (join [us ''='', quoted (us ''b c'' @ [39, 39])]) = [us ''='', quoted (us ''b c'' @ [39, 39])]"
proof (intro conjI)
  show e: "even (count_list demo_text 39)" by (simp add: demo_text_def us_def quoted_def)
  show s: "set [us ''='', quoted (us ''b c'' @ [39, 39])] \<subseteq> set (tokenize demo_text)"
    by (simp add: demo_text_def tokenize_def us_def quoted_def is_whitespace_def flush_def starts_def)
  show "tokenize (join [us ''='', quoted (us ''b c'' @ [39, 39])]) = [us ''='', quoted (us ''b c'' @ [39, 39])]"
    by (rule tokens_round_trip [OF e s])
qed

text \<open>A statement with a parameter, its parse, and its binding to two values.\<close>

definition demo_sql :: ustr where
  "demo_sql = us ''DELETE FROM t WHERE a = $2;''"

definition demo_st :: SqlStatement where
  "demo_st = Delete (us ''t'') (Some (Comparison (us ''a'') Eq (Placeholder 2)))"

abbreviation demo_fuel :: nat where
  "demo_fuel \<equiv> Suc (Suc (Suc (Suc (Suc (Suc (Suc 0))))))"

lemma demo_parse: "parse_sql ascii_env demo_fuel (trim_end_matches 59 (str_trim demo_sql)) = pok demo_st"
proof -
  have trimmed: "trim_end_matches 59 (str_trim (trim_end_matches 59 (str_trim demo_sql))) = us ''DELETE FROM t WHERE a = $2''"
    by (simp add: demo_sql_def trim_end_matches_def str_trim_def us_def is_whitespace_def)
  have tokens: "tokenize (us ''DELETE FROM t WHERE a = $2'') = map us [''DELETE'', ''FROM'', ''t'', ''WHERE'', ''a'', ''='', ''$2'']"
    by (simp add: tokenize_def us_def is_whitespace_def flush_def starts_def)
  show ?thesis
    by (subst parse_sql.simps(2), unfold trimmed tokens Let_def)
      (simp del: parse_sql.simps add: demo_st_def parse_delete_sql_def where_clause_def at_kw_def next_token_def at_sym_def
        where_column_def where_condition_def where_comparison_def cmp_op_def parse_value_def parse_usize_def digits_value_def
        digit_def in_bounds_def agg_names_def to_uppercase_def ascii_env_def us_def starts_def)
qed

lemma demo_count: "count_statement_params ascii_env demo_fuel demo_sql = pok 2"
  using count_spec [OF demo_parse] by (simp add: demo_st_def val_phs_def)

theorem bind_parsed_statement_witness:
  "parse_sql ascii_env demo_fuel (trim_end_matches 59 (str_trim demo_sql)) = pok demo_st \<and>
   bind_statement_params ascii_env demo_st [None, Some (us ''5'')] =
     Inr (Delete (us ''t'') (Some (Comparison (us ''a'') Eq (Integer 5)))) \<and>
   (\<exists>n. bind_statement_params ascii_env demo_st [None] = Inl (Msg (us ''no value specified for parameter $'' @ show_nat n)) \<and> n = 2)"
proof -
  have five: "bound_value ascii_env [None, Some (us ''5'')] True 2 = Integer 5"
    by (simp add: bound_value_def coerce_param_def parse_signed_def in_bounds_def digits_value_def digit_def show_int_def
        show_nat.simps us_def)
  have "bind_statement_params ascii_env demo_st [None, Some (us ''5'')] = Inr (Delete (us ''t'') (Some (Comparison (us ''a'') Eq (Integer 5))))"
    using bind_parsed_statement [OF demo_parse, of "[None, Some (us ''5'')]"] demo_count five by (auto simp: demo_st_def val_fill_def)
  moreover have "\<exists>n. bind_statement_params ascii_env demo_st [None] = Inl (Msg (us ''no value specified for parameter $'' @ show_nat n)) \<and> n = 2"
    using bind_parsed_statement [OF demo_parse, of "[None]"] demo_count by (auto simp: demo_st_def val_phs_def)
  ultimately show ?thesis using demo_parse by blast
qed

theorem sized_type_drops_columns_witness:
  "parse_create_table ascii_env (map us [''CREATE'', ''TABLE'', ''t'', ''('', ''a'', ''VARCHAR'', ''('', ''20'', '')'', '','', ''b'', ''INT'', '')'']) =
    pok (CreateTable (us ''t'') [\<lparr>cd_name = us ''a'', cd_type = us ''VARCHAR'', cd_primary_key = False, cd_nullable = True, cd_default = None\<rparr>] False)"
  using sized_type_drops_columns [of ascii_env "us ''TABLE''" "us ''t''" "us ''a''" "us ''20''" "us ''CREATE''" "us ''VARCHAR''"
      "map us ['','', ''b'', ''INT'', '')'']"]
  by (simp add: us_def to_uppercase_def ascii_env_def)

end
