(* ===== verification/Spec2Isabelle.thy ===== *)
theory Spec2Isabelle
  imports Recovery_Run Ssi Dist_Agree Sql_Parse
begin

text \<open>
  \<^bold>\<open>OmniKV.\<close> This is a verification development of the storage and transaction core of OmniKV, a
  key-value engine in Rust, and of its SQL parser. Paths below are relative to \<^verbatim>\<open>src/crates/omnikv-engine/src/\<close>.

  \<^bold>\<open>The program.\<close> A client batch is committed by appending its values to a heap file and its records to
  a write-ahead log, syncing both through a group commit, and inserting the records into a memtable.
  A background thread flushes memtables to sorted tables, merges tables into lower levels, and rewrites
  the heap. Reads look a key up in the memtables and the tables, newest first, and read its value from
  the heap. Opening a directory rebuilds this state from the manifest, the tables and the log. On top of
  the engine stand serializable transactions and two-phase commit. SQL text is split into tokens, parsed to
  a syntax tree, and bound to the values of its parameters before it is executed.

  \<^bold>\<open>Theories and sources.\<close>
  \<^item> \<^verbatim>\<open>Omni_Prelude\<close>, \<^verbatim>\<open>Ordered_Map\<close>, \<^verbatim>\<open>Utf8\<close>: machine integers, byte strings, errors and their
    text, little-endian integers; \<^verbatim>\<open>BTreeMap\<close> and \<^verbatim>\<open>SkipMap\<close> as sorted association lists behind the
    locale \<open>ordered_map\<close>; the UTF-8 decoding of stored keys.
  \<^item> \<^verbatim>\<open>Omni_Record\<close>, \<^verbatim>\<open>Wal\<close>, \<^verbatim>\<open>Bloom\<close>, \<^verbatim>\<open>Versions\<close>, \<^verbatim>\<open>Sstable\<close>, \<^verbatim>\<open>Memtable\<close>: the record
    codec, hashing and Bloom filters, version retention, sorted tables, batches and memtables of
    \<^verbatim>\<open>storage/core.rs\<close>, and the log of \<^verbatim>\<open>storage/wal.rs\<close>. The locale \<open>version_level\<close> is what a memtable,
    a table and a table behind its filter promise a lookup; \<open>batch_log\<close> is what the log promises.
  \<^item> \<^verbatim>\<open>Group_Commit\<close>: the epoch protocol of \<^verbatim>\<open>runtime/hardening.rs\<close> as a step relation over any number
    of writers.
  \<^item> \<^verbatim>\<open>Engine_Read\<close>, \<^verbatim>\<open>Engine_Write\<close>, \<^verbatim>\<open>Engine\<close>: the state of the engine, its lookups and scans, its
    commit path with snapshots and retention pins, and the contract of both over whole runs.
  \<^item> \<^verbatim>\<open>Compaction\<close>, \<^verbatim>\<open>Compaction_Base\<close>, \<^verbatim>\<open>Compaction_Props\<close>, \<^verbatim>\<open>Compaction_Faults\<close>: flush, merges,
    garbage collection and the background cycle, with what they preserve and where they fail.
  \<^item> \<^verbatim>\<open>Recovery\<close>, \<^verbatim>\<open>Recovery_Run\<close>: opening a directory, and what survives crashes.
  \<^item> \<^verbatim>\<open>Store\<close>: the engine as its clients see it, the locale \<open>kv_store\<close>.
  \<^item> \<^verbatim>\<open>Ssi\<close>: the transactions of \<^verbatim>\<open>storage/transaction.rs\<close>.
  \<^item> \<^verbatim>\<open>Dist_Txn\<close>, \<^verbatim>\<open>Dist_Agree\<close>: the two-phase commit of \<^verbatim>\<open>runtime/dist_txn.rs\<close>.
  \<^item> \<^verbatim>\<open>Sql\<close>, \<^verbatim>\<open>Sql_Bind\<close>, \<^verbatim>\<open>Sql_Parse\<close>: \<^verbatim>\<open>query/sql.rs\<close>. \<open>tokenize\<close>, \<open>parse_sql\<close> and a function per
    clause have the names of the source where it has them; \<open>bind_walk\<close> takes the resolver of parameters.

  \<^bold>\<open>State and effects.\<close> A struct is a record with the fields of the source, an operation takes and returns
  it. A result is a sum whose left side is an error of the source's enum or a panic. The outcome of every
  system call (a short write, a failed fsync, a failed rename) is an argument of the operation, so a theorem
  that quantifies over it holds for every fault. What a crash leaves of the log is any cut of its
  unsynced part. Atomics and locks are not visible in the state: an operation that the source runs under
  a lock is one step; group commit, transactions and two-phase commit are step relations over any
  interleaving of such steps.

  \<^bold>\<open>Denotation.\<close> The memtables and tables of a database denote, per key, a map from sequences to cells
  (\<open>db_cells\<close>); \<open>spec_read\<close> is the read of such a map. Each operation of the engine is shown to read it,
  to extend it by the cells of a batch, or to leave what protected readers see of it unchanged. \<open>db_ok\<close> is
  the invariant, and \<open>recoverable\<close> relates a database to what its files would rebuild.

  \<^bold>\<open>What is shown.\<close> Reads and scans follow the acknowledged batches over any run with arbitrary faults;
  a failed commit is invisible; group commit acknowledges only what was synced and does not get stuck; the
  log replays exactly whole batches; tables and records round-trip; compaction changes no protected read;
  acknowledged batches survive crashes; committed transactions are serializable; two-phase commit agrees;
  SQL parsing ends without a panic, its tokens round-trip, and a parsed statement binds to its parameters.
  Where the code falls short of its intent, the failing run is a theorem too: versions of one key across
  table blocks, a flush that fails, garbage collection with a memtable that is not empty, sequences after
  garbage collection, rollback to a savepoint, an abort after a timeout, reused transaction numbers, and a
  participant that forgets its batch, and a column type that ends the column list.

  \<^bold>\<open>Parameters.\<close> Code outside the repository is an argument with its documented behaviour as hypothesis:
  CRC-32 and LZ4 (\<open>env_ok\<close>: the codec round-trips), the floating-point sizing of Bloom filters, JSON codecs
  (a manifest file is what it parses to; a log entry reads back), the cluster gateway, the Unicode case
  mappings (\<open>plain_space\<close>: white space is its own upper case) and the decimal conversions of floats.

  \<^bold>\<open>Bounds.\<close> Sequences and heap offsets are 64-bit words; \<open>room_for\<close> says that a commit wraps neither.
  Loops are structural recursions or functions with a measure. Only the SQL parser takes fuel: it prints
  tokens and parses them again, and its recursion in conditions follows its own results. Fuel of three times
  the length of the input plus seven is enough: a second parse leaves out a keyword, and each token of a condition
  costs at most three calls. More fuel does not change a result. The depth of the machine's stack is not
  modelled. Keys are valid UTF-8 of less
  than 65536 bytes, which the record's length field can hold (\<open>key_ok\<close>).

  \<^bold>\<open>Not modelled.\<close> The SQL executors, catalog, indexes and optimizer, the PostgreSQL and QUIC front ends, the HTTP server,
  configuration, metrics, backup and encryption: see the components of the manifest for the reason in each
  case. The Raft layer is an adapter to the openraft library, whose contract is not in the repository.
\<close>

end
